(* ===== verification/FB_Prelude.thy ===== *)
theory FB_Prelude
  imports Main "HOL-Library.Word" "HOL-Library.AList"
begin

unbundle bit_operations_syntax

text \<open>
  The prelude of the FlexBraid development: the machine types of the Go sources, byte
  buffers with Go's \<open>copy\<close> and the big-endian accessors of \<open>encoding/binary\<close>,
  Go's truncated division, and the generic scheme in which every stateful component is
  run (an operation maps a state to a new state and a list of outputs).

  The collection \<open>go_eval\<close> gathers the equations that evaluate the byte-level operations
  on concrete buffers; \<open>buf_simps\<close> gathers the length and shape facts about buffers.
\<close>

named_theorems go_eval
named_theorems buf_simps

section \<open>Machine types\<close>

type_synonym u8 = "8 word"
type_synonym u16 = "16 word"
type_synonym u32 = "32 word"
type_synonym u64 = "64 word"
type_synonym bytes = "u8 list"

section \<open>Byte buffers\<close>

text \<open>
  \<open>make([]byte, n)\<close> and \<open>copy(dst[off:], src)\<close>. The copy stops at the shorter of the two
  slices, so the length of the destination never changes.
\<close>

definition make_bytes :: "nat \<Rightarrow> bytes" where
  "make_bytes n = replicate n 0"

definition copy_at :: "nat \<Rightarrow> 'a list \<Rightarrow> 'a list \<Rightarrow> 'a list" where
  "copy_at off src dst = take off dst @ take (length dst - off) src @ drop (off + length src) dst"

lemma length_make_bytes [simp, buf_simps]: "length (make_bytes n) = n"
  by (simp add: make_bytes_def)

lemma length_copy_at [simp, buf_simps]: "length (copy_at off src dst) = length dst"
  by (auto simp: copy_at_def min_def)

text \<open>A copy that ends exactly at a known cut point of the buffer only touches the middle part.\<close>

lemma copy_at_append:
  "length xs = off \<Longrightarrow> length src = length ys \<Longrightarrow>
     copy_at off src (xs @ ys @ zs) = xs @ src @ zs"
  by (simp add: copy_at_def)

lemma copy_at_append_end:
  "length xs = off \<Longrightarrow> length src = length ys \<Longrightarrow> copy_at off src (xs @ ys) = xs @ src"
  using copy_at_append [of xs off src ys "[]"] by simp

lemma copy_at_0_prefix:
  "copy_at 0 src dst = take (length dst) src @ drop (length src) dst"
  by (simp add: copy_at_def)

text \<open>Copying a short payload into a zeroed shard pads it with zeros.\<close>

lemma copy_into_zeroes:
  "length src \<le> n \<Longrightarrow> copy_at 0 src (make_bytes n) = src @ make_bytes (n - length src)"
  by (simp add: copy_at_def make_bytes_def)

section \<open>Big-endian integers\<close>

text \<open>
  \<open>binary.BigEndian.PutUint16/32/64\<close> as the bytes they write, most significant first, and
  \<open>Uint16/32/64\<close> as reads at an offset. A read past the end of a Go slice panics; the
  definitions below are only reached behind the length checks of their callers, and the
  parsers where that is not the case carry the panic as a value.
\<close>

definition put_u16 :: "u16 \<Rightarrow> bytes" where
  "put_u16 v = [ucast (drop_bit 8 v), ucast v]"

definition put_u32 :: "u32 \<Rightarrow> bytes" where
  "put_u32 v = [ucast (drop_bit 24 v), ucast (drop_bit 16 v), ucast (drop_bit 8 v), ucast v]"

definition put_u64 :: "u64 \<Rightarrow> bytes" where
  "put_u64 v = put_u32 (ucast (drop_bit 32 v)) @ put_u32 (ucast v)"

definition get_u16 :: "bytes \<Rightarrow> nat \<Rightarrow> u16" where
  "get_u16 b off = push_bit 8 (ucast (b ! off)) OR ucast (b ! (off + 1))"

definition get_u32 :: "bytes \<Rightarrow> nat \<Rightarrow> u32" where
  "get_u32 b off =
     push_bit 24 (ucast (b ! off)) OR push_bit 16 (ucast (b ! (off + 1)))
     OR push_bit 8 (ucast (b ! (off + 2))) OR ucast (b ! (off + 3))"

definition get_u64 :: "bytes \<Rightarrow> nat \<Rightarrow> u64" where
  "get_u64 b off = push_bit 32 (ucast (get_u32 b off)) OR ucast (get_u32 b (off + 4))"

lemmas be_defs [go_eval] = put_u16_def put_u32_def put_u64_def get_u16_def get_u32_def get_u64_def

lemma length_put [simp, buf_simps]:
  "length (put_u16 v) = 2" "length (put_u32 w) = 4" "length (put_u64 x) = 8"
  by (simp_all add: put_u16_def put_u32_def put_u64_def)

text \<open>
  Reading back at the offset where a value was written. The prefix is arbitrary, so one
  lemma per width serves every field of every header.
\<close>

lemma get_put_u16: "length xs = off \<Longrightarrow> get_u16 (xs @ put_u16 v @ ys) off = v"
  by (rule bit_word_eqI) (auto simp: get_u16_def put_u16_def nth_append bit_simps)

lemma get_put_u32: "length xs = off \<Longrightarrow> get_u32 (xs @ put_u32 v @ ys) off = v"
proof (rule bit_word_eqI)
  fix n
  assume off: "length xs = off" and n: "n < LENGTH(32)"
  consider "n < 8" | "8 \<le> n \<and> n < 16" | "16 \<le> n \<and> n < 24" | "24 \<le> n \<and> n < 32"
    using n by (simp; linarith)
  then show "bit (get_u32 (xs @ put_u32 v @ ys) off) n \<longleftrightarrow> bit v n"
    using off by cases (auto simp: get_u32_def put_u32_def nth_append bit_simps)
qed

lemma get_put_u64: "length xs = off \<Longrightarrow> get_u64 (xs @ put_u64 v @ ys) off = v"
proof -
  assume off: "length xs = off"
  have hi: "get_u32 (xs @ put_u64 v @ ys) off = ucast (drop_bit 32 v)"
    using get_put_u32 [OF off] by (simp add: put_u64_def)
  have lo: "get_u32 (xs @ put_u64 v @ ys) (off + 4) = ucast v"
    using get_put_u32 [of "xs @ put_u32 (ucast (drop_bit 32 v))" "off + 4" "ucast v" ys] off
    by (simp add: put_u64_def)
  show ?thesis
    unfolding get_u64_def hi lo by (rule bit_word_eqI) (auto simp: bit_simps)
qed

text \<open>Writing back what was read gives the bytes that were there.\<close>

lemma put_get_u16: "off + 2 \<le> length b \<Longrightarrow> put_u16 (get_u16 b off) = take 2 (drop off b)"
proof -
  assume len: "off + 2 \<le> length b"
  have "put_u16 (get_u16 b off) = [b ! off, b ! (off + 1)]"
    unfolding put_u16_def get_u16_def
    by (simp, intro conjI; rule bit_word_eqI) (auto simp: bit_simps dest: bit_imp_le_length)
  also have "\<dots> = take 2 (drop off b)"
    using len by (intro nth_equalityI) (auto simp: nth_Cons' less_Suc_eq numeral_eq_Suc)
  finally show ?thesis .
qed

lemma put_get_u32: "off + 4 \<le> length b \<Longrightarrow> put_u32 (get_u32 b off) = take 4 (drop off b)"
proof -
  assume len: "off + 4 \<le> length b"
  have "put_u32 (get_u32 b off) = [b ! off, b ! (off + 1), b ! (off + 2), b ! (off + 3)]"
    unfolding put_u32_def get_u32_def
    by (simp, intro conjI; rule bit_word_eqI) (auto simp: bit_simps dest: bit_imp_le_length)
  also have "\<dots> = take 4 (drop off b)"
    using len by (intro nth_equalityI) (auto simp: nth_Cons' less_Suc_eq numeral_eq_Suc)
  finally show ?thesis .
qed

lemma put_get_u64: "off + 8 \<le> length b \<Longrightarrow> put_u64 (get_u64 b off) = take 8 (drop off b)"
proof -
  assume len: "off + 8 \<le> length b"
  have "put_u64 (get_u64 b off) = put_u32 (get_u32 b off) @ put_u32 (get_u32 b (off + 4))"
    unfolding put_u64_def get_u64_def
    by (rule arg_cong2 [of _ _ _ _ "(@)"]; rule arg_cong [of _ _ put_u32]; rule bit_word_eqI)
      (auto simp: bit_simps dest: bit_imp_le_length)
  also have "\<dots> = take 4 (drop off b) @ take 4 (drop (off + 4) b)"
    using len by (simp add: put_get_u32)
  also have "\<dots> = take 8 (drop off b)"
    using take_add [of 4 4 "drop off b"] by (simp add: add.commute)
  finally show ?thesis .
qed

text \<open>Reads only look at the bytes they cover.\<close>

lemma get_u16_append: "off + 2 \<le> length xs \<Longrightarrow> get_u16 (xs @ ys) off = get_u16 xs off"
  by (simp add: get_u16_def nth_append)

lemma get_u32_append: "off + 4 \<le> length xs \<Longrightarrow> get_u32 (xs @ ys) off = get_u32 xs off"
  by (simp add: get_u32_def nth_append)

lemma get_u64_append: "off + 8 \<le> length xs \<Longrightarrow> get_u64 (xs @ ys) off = get_u64 xs off"
  by (simp add: get_u64_def get_u32_append)

section \<open>Integer arithmetic\<close>

text \<open>Go's integer division truncates towards zero.\<close>

definition quo :: "int \<Rightarrow> int \<Rightarrow> int" where
  "quo a b = sgn a * sgn b * (\<bar>a\<bar> div \<bar>b\<bar>)"

lemma quo_nonneg: "0 \<le> a \<Longrightarrow> 0 < b \<Longrightarrow> quo a b = a div b"
  by (cases "a = 0") (simp_all add: quo_def)

text \<open>\<open>int32(x) < 0\<close> for an unsigned difference: serial-number order on 32-bit sequence numbers.\<close>

definition seq_before :: "u32 \<Rightarrow> u32 \<Rightarrow> bool" where
  "seq_before a b \<longleftrightarrow> sint (a - b) < 0"

text \<open>\<open>time.Millisecond\<close> and \<open>time.Second\<close>: durations are whole nanoseconds.\<close>

definition Millisecond :: int where "Millisecond = 1000000"
definition Second :: int where "Second = 1000000000"

section \<open>Runs of a component\<close>

text \<open>
  A component is a function from a state and an operation to the next state and the values
  the operation emits. \<open>exec\<close> runs a list of operations and concatenates the outputs.
\<close>

fun exec :: "('s \<Rightarrow> 'e \<Rightarrow> 's \<times> 'o list) \<Rightarrow> 's \<Rightarrow> 'e list \<Rightarrow> 's \<times> 'o list" where
  "exec step s [] = (s, [])"
| "exec step s (e # es) =
     (let (s1, o1) = step s e; (s2, o2) = exec step s1 es in (s2, o1 @ o2))"

lemma exec_append:
  "exec step s (es @ fs) =
     (let (s1, o1) = exec step s es; (s2, o2) = exec step s1 fs in (s2, o1 @ o2))"
  by (induction es arbitrary: s) (auto simp: Let_def split: prod.splits)

text \<open>
  The interface every stateful component offers: an invariant that each of its operations
  keeps when its argument is admissible. Whatever holds of each single output in an
  invariant state then holds of every output of every admissible run.
\<close>

locale stateful =
  fixes step :: "'s \<Rightarrow> 'e \<Rightarrow> 's \<times> 'o list"
    and inv :: "'s \<Rightarrow> bool"
    and adm :: "'e \<Rightarrow> bool"
  assumes step_inv: "inv s \<Longrightarrow> adm e \<Longrightarrow> inv (fst (step s e))"
begin

lemma exec_inv: "inv s \<Longrightarrow> list_all adm es \<Longrightarrow> inv (fst (exec step s es))"
  by (induction es arbitrary: s) (simp_all add: Let_def case_prod_unfold step_inv)

lemma exec_outputs:
  assumes "\<And>s e x. inv s \<Longrightarrow> adm e \<Longrightarrow> x \<in> set (snd (step s e)) \<Longrightarrow> P x"
    and "inv s" "list_all adm es" and "x \<in> set (snd (exec step s es))"
  shows "P x"
  using assms(2-4)
proof (induction es arbitrary: s)
  case (Cons e es)
  have "inv (fst (step s e))"
    using Cons.prems(1,2) by (simp add: step_inv)
  with Cons assms(1) [OF Cons.prems(1), of e x] show ?case
    by (auto simp: Let_def case_prod_unfold)
qed simp

end

section \<open>Maps\<close>

text \<open>Go maps are association lists with unique keys. Facts the library does not have:\<close>

lemma update_new: "k \<notin> fst ` set p \<Longrightarrow> AList.update k v p = p @ [(k, v)]"
  by (induction p) auto

lemma length_update_new: "k \<notin> fst ` set al \<Longrightarrow> length (AList.update k v al) = Suc (length al)"
  by (metis length_append_singleton length_map set_map update_keys)

lemma set_update_sub: "set (AList.update k v p) \<subseteq> insert (k, v) (set p)"
  by (induction p) auto

lemma notin_delete: "k \<notin> fst ` set (AList.delete k p)"
  by (auto simp: AList.delete_eq)

text \<open>A Go map lookup that yields the zero value for a missing key.\<close>

definition lookup_def :: "'v \<Rightarrow> ('k \<times> 'v) list \<Rightarrow> 'k \<Rightarrow> 'v" where
  "lookup_def z m k = (case map_of m k of None \<Rightarrow> z | Some v \<Rightarrow> v)"

lemma lookup_def_update [simp]:
  "lookup_def z (AList.update k v m) k' = (if k' = k then v else lookup_def z m k')"
  by (simp add: lookup_def_def update_conv')

lemma length_delete_less: "k \<in> fst ` set p \<Longrightarrow> length (AList.delete k p) < length p"
  by (auto simp: AList.delete_eq intro!: length_filter_less)

lemma length_update_le: "length (AList.update k v p) \<le> Suc (length p)"
  by (induction p) auto

end
