(* ===== verification/Float64.thy ===== *)
theory Float64
  imports FB_Prelude "HOL-Library.Log_Nat"
begin

text \<open>
  Go's \<open>float64\<close>. A finite value is the rational number it denotes; the three special
  values are constructors of their own. Every arithmetic operation computes the exact
  rational result and rounds it to the nearest double, ties to even, with the subnormal
  range and overflow to infinity (IEEE 754 binary64). The two zeros are one value: no
  modelled expression divides by a zero that could carry a negative sign. Each operation
  is rounded on its own, as the amd64 compiler does.

  Shown here: rounding is monotone, odd, idempotent and exact on 53-bit integers, its
  result is the nearest multiple of the quantum, and every operation yields a double.
  The collection \<open>f64_simps\<close> evaluates the comparisons.
\<close>

named_theorems f64_simps

section \<open>Rounding to 53 bits\<close>

definition expo :: "rat \<Rightarrow> int" where
  "expo r = (if 1 \<le> r then bitlen \<lfloor>r\<rfloor> - 1 else - bitlen (\<lceil>1 / r\<rceil> - 1))"

definition round_even :: "rat \<Rightarrow> int" where
  "round_even x =
     (let n = \<lfloor>x\<rfloor>; f = x - of_int n
      in if f < 1/2 then n else if 1/2 < f then n + 1 else if even n then n else n + 1)"

definition quantum :: "rat \<Rightarrow> int" where
  "quantum r = max (expo \<bar>r\<bar> - 52) (-1074)"

definition rnd :: "rat \<Rightarrow> rat" where
  "rnd r = (if r = 0 then 0 else of_int (round_even (r / 2 powi quantum r)) * 2 powi quantum r)"

subsection \<open>The binary exponent\<close>

lemma bitlen_bounds_rat:
  assumes "0 < (n::int)"
  shows "2 powi (bitlen n - 1) \<le> (of_int n :: rat)" and "(of_int n :: rat) < 2 powi bitlen n"
proof -
  have pos: "0 < bitlen n"
    using assms bitlen_nonneg [of n] bitlen_eq_zero_iff [of n] by linarith
  have b: "2 ^ nat (bitlen n - 1) \<le> n" "n < 2 ^ nat (bitlen n)"
    using bitlen_bounds [of n] assms by simp_all
  have "of_int (2 ^ nat (bitlen n - 1)) \<le> (of_int n :: rat)"
    using b(1) by (simp only: of_int_le_iff)
  then show "2 powi (bitlen n - 1) \<le> (of_int n :: rat)"
    using pos by (simp add: power_int_def)
  have "(of_int n :: rat) < of_int (2 ^ nat (bitlen n))"
    using b(2) by (simp only: of_int_less_iff)
  then show "(of_int n :: rat) < 2 powi bitlen n"
    using pos by (simp add: power_int_def)
qed

lemma expo_bounds:
  assumes r: "0 < (r::rat)"
  shows "2 powi expo r \<le> r" and "r < 2 powi (expo r + 1)"
proof -
  have "2 powi expo r \<le> r \<and> r < 2 powi (expo r + 1)"
  proof (cases "1 \<le> r")
    case True
    then have fl: "0 < \<lfloor>r\<rfloor>" by (simp add: le_floor_iff)
    have "2 powi (bitlen \<lfloor>r\<rfloor> - 1) \<le> r"
      using bitlen_bounds_rat(1) [OF fl] of_int_floor_le [of r] by linarith
    moreover have "r < 2 powi bitlen \<lfloor>r\<rfloor>"
    proof -
      have "0 \<le> bitlen \<lfloor>r\<rfloor>" by (simp add: bitlen_nonneg)
      then have eq: "(2::rat) powi bitlen \<lfloor>r\<rfloor> = of_int (2 ^ nat (bitlen \<lfloor>r\<rfloor>))"
        by (simp add: power_int_def)
      have "\<lfloor>r\<rfloor> < 2 ^ nat (bitlen \<lfloor>r\<rfloor>)"
        using bitlen_bounds [of "\<lfloor>r\<rfloor>"] fl by simp
      then show ?thesis
        unfolding eq by (simp add: floor_less_iff)
    qed
    ultimately show ?thesis using True by (simp add: expo_def)
  next
    case False
    define m where "m = \<lceil>1 / r\<rceil> - 1"
    have "1 < 1 / r" using False r by (simp add: field_simps)
    then have m: "0 < m" by (simp add: m_def less_ceiling_iff)
    have lo: "of_int m < 1 / r" by (simp add: m_def) linarith
    have hi: "1 / r \<le> of_int m + 1" by (simp add: m_def)
    have nn: "0 \<le> bitlen m" by (rule bitlen_nonneg)
    have eq: "(2::rat) powi bitlen m = of_int (2 ^ nat (bitlen m))"
      using nn by (simp add: power_int_def)
    have "m + 1 \<le> 2 ^ nat (bitlen m)"
      using bitlen_bounds [of m] m by simp
    then have "(of_int (m + 1) :: rat) \<le> of_int (2 ^ nat (bitlen m))"
      by (simp only: of_int_le_iff)
    with hi have "1 / r \<le> 2 powi bitlen m" unfolding eq by simp
    then have a: "2 powi (- bitlen m) \<le> r"
      using r by (simp add: power_int_minus field_simps)
    have "2 powi (bitlen m - 1) < 1 / r"
      using bitlen_bounds_rat(1) [OF m] lo by linarith
    then have "r * 2 powi (bitlen m - 1) < 1"
      using r by (simp add: field_simps)
    moreover have "(2::rat) powi (- bitlen m + 1) = 1 / 2 powi (bitlen m - 1)"
      by (simp add: power_int_diff power_int_add power_int_minus field_simps)
    moreover have "(0::rat) < 2 powi (bitlen m - 1)" by simp
    ultimately have "r < 2 powi (- bitlen m + 1)"
      by (simp only: pos_less_divide_eq)
    with a False show ?thesis by (simp add: expo_def m_def)
  qed
  then show "2 powi expo r \<le> r" "r < 2 powi (expo r + 1)" by auto
qed

lemma powi_less_iff: "(2::rat) powi a < 2 powi b \<longleftrightarrow> a < b"
  using power_int_strict_increasing [of a b "2::rat"] power_int_increasing [of b a "2::rat"]
  by (cases "a < b") auto

lemma powi_le_iff: "(2::rat) powi a \<le> 2 powi b \<longleftrightarrow> a \<le> b"
  using powi_less_iff [of b a] by auto

lemma expo_less: "0 < r \<Longrightarrow> r < 2 powi e \<Longrightarrow> expo r < e"
  using expo_bounds(1) [of r] powi_less_iff [of "expo r" e] by linarith

lemma expo_mono: "0 < r \<Longrightarrow> r \<le> s \<Longrightarrow> expo r \<le> expo s"
  using expo_less [of r "expo s + 1"] expo_bounds(2) [of s] by linarith

lemma quantum_mono: "0 < r \<Longrightarrow> r \<le> s \<Longrightarrow> quantum r \<le> quantum s"
  using expo_mono [of r s] by (simp add: quantum_def)

lemma quantum_minus [simp]: "quantum (- r) = quantum r"
  by (simp add: quantum_def)

subsection \<open>Rounding to the nearest integer\<close>

lemma round_even_of_int [simp]: "round_even (of_int n) = n"
  by (simp add: round_even_def)

lemma round_even_near: "\<bar>of_int (round_even x) - x\<bar> \<le> 1/2"
proof -
  have "0 \<le> x - of_int \<lfloor>x\<rfloor>" "x - of_int \<lfloor>x\<rfloor> < 1" by linarith+
  then show ?thesis
    unfolding round_even_def Let_def by (simp add: abs_if split: if_splits) linarith
qed

lemma round_even_mono: "x \<le> y \<Longrightarrow> round_even x \<le> round_even y"
proof -
  assume le: "x \<le> y"
  then have fl: "\<lfloor>x\<rfloor> \<le> \<lfloor>y\<rfloor>" by (rule floor_mono)
  show ?thesis
  proof (cases "\<lfloor>x\<rfloor> = \<lfloor>y\<rfloor>")
    case True
    with le show ?thesis by (auto simp: round_even_def Let_def)
  next
    case False
    with fl have "\<lfloor>x\<rfloor> + 1 \<le> \<lfloor>y\<rfloor>" by simp
    moreover have "round_even x \<le> \<lfloor>x\<rfloor> + 1" "\<lfloor>y\<rfloor> \<le> round_even y"
      by (auto simp: round_even_def Let_def)
    ultimately show ?thesis by linarith
  qed
qed

lemma round_even_minus: "round_even (- x) = - round_even x"
proof (cases "x = of_int \<lfloor>x\<rfloor>")
  case True
  then obtain n where "x = of_int n" by blast
  then show ?thesis using round_even_of_int [of "- n"] by simp
next
  case False
  then have fl: "\<lfloor>- x\<rfloor> = - \<lfloor>x\<rfloor> - 1"
    by (intro floor_unique) (simp_all, linarith+)
  show ?thesis
    by (auto simp: round_even_def Let_def fl)
qed

lemma round_even_le: "x \<le> of_int n \<Longrightarrow> round_even x \<le> n"
  using round_even_mono [of x "of_int n"] by simp

lemma round_even_ge: "of_int n \<le> x \<Longrightarrow> n \<le> round_even x"
  using round_even_mono [of "of_int n" x] by simp

subsection \<open>Rounding a rational\<close>

lemma rnd_0 [simp]: "rnd 0 = 0"
  by (simp add: rnd_def)

lemma rnd_minus [simp]: "rnd (- r) = - rnd r"
  by (simp add: rnd_def round_even_minus)

lemma powi_nonneg_int: "0 \<le> k \<Longrightarrow> (2::rat) powi k = of_int (2 ^ nat k)"
  by (simp add: power_int_def)

text \<open>A power of two that is a multiple of the quantum separates rounded values.\<close>

lemma rnd_le_powi:
  assumes "0 < r" "r \<le> 2 powi e" "quantum r \<le> e"
  shows "rnd r \<le> 2 powi e"
proof -
  let ?q = "quantum r"
  have "r / 2 powi ?q \<le> 2 powi (e - ?q)"
    using assms(2) by (simp add: power_int_diff divide_right_mono)
  also have "\<dots> = of_int (2 ^ nat (e - ?q))"
    using assms(3) by (simp add: powi_nonneg_int)
  finally have "round_even (r / 2 powi ?q) \<le> 2 ^ nat (e - ?q)"
    by (rule round_even_le)
  then have "(of_int (round_even (r / 2 powi ?q)) :: rat) \<le> 2 powi (e - ?q)"
    using assms(3) by (simp only: powi_nonneg_int of_int_le_iff)
  then have "of_int (round_even (r / 2 powi ?q)) * 2 powi ?q \<le> (2::rat) powi (e - ?q) * 2 powi ?q"
    by (simp add: mult_right_mono)
  then show ?thesis
    using assms(1) by (simp add: rnd_def flip: power_int_add)
qed

lemma rnd_ge_powi:
  assumes "2 powi e \<le> r" "quantum r \<le> e"
  shows "2 powi e \<le> rnd r"
proof -
  let ?q = "quantum r"
  have pos: "0 < r" using assms(1) zero_less_power_int [of "2::rat" e] by linarith
  have "of_int (2 ^ nat (e - ?q)) = (2::rat) powi (e - ?q)"
    using assms(2) by (simp add: powi_nonneg_int)
  also have "\<dots> \<le> r / 2 powi ?q"
    using assms(1) by (simp add: power_int_diff divide_right_mono)
  finally have "2 ^ nat (e - ?q) \<le> round_even (r / 2 powi ?q)"
    by (rule round_even_ge)
  then have "(2::rat) powi (e - ?q) \<le> of_int (round_even (r / 2 powi ?q))"
    using assms(2) by (simp only: powi_nonneg_int of_int_le_iff)
  then have "(2::rat) powi (e - ?q) * 2 powi ?q \<le> of_int (round_even (r / 2 powi ?q)) * 2 powi ?q"
    by (simp add: mult_right_mono)
  then show ?thesis
    using pos by (simp add: rnd_def flip: power_int_add)
qed

lemma rnd_nonneg: "0 \<le> r \<Longrightarrow> 0 \<le> rnd r"
  using round_even_ge [of 0 "r / 2 powi quantum r"] by (simp add: rnd_def)

lemma rnd_mono_pos:
  assumes "0 < r" "r \<le> s"
  shows "rnd r \<le> rnd s"
proof (cases "quantum r = quantum s")
  case True
  have "r / 2 powi quantum r \<le> s / 2 powi quantum r"
    using assms by (simp add: divide_right_mono)
  then have "round_even (r / 2 powi quantum r) \<le> round_even (s / 2 powi quantum r)"
    by (rule round_even_mono)
  with assms True show ?thesis
    by (simp add: rnd_def mult_right_mono)
next
  case False
  with quantum_mono [OF assms] have q: "quantum r < quantum s" by simp
  then have e: "expo r < expo s" "quantum s = expo s - 52"
    using assms by (auto simp: quantum_def)
  have "r \<le> 2 powi expo s"
    using expo_bounds(2) [OF assms(1)] e(1) powi_le_iff [of "expo r + 1" "expo s"] by linarith
  with assms q e(2) have "rnd r \<le> 2 powi expo s"
    by (intro rnd_le_powi) auto
  also have "\<dots> \<le> rnd s"
    using assms e(2) expo_bounds(1) [of s] by (intro rnd_ge_powi) auto
  finally show ?thesis .
qed

theorem rnd_mono: "r \<le> s \<Longrightarrow> rnd r \<le> rnd s"
proof -
  assume le: "r \<le> s"
  consider "0 < r" | "r \<le> 0" "0 \<le> s" | "s < 0" by linarith
  then show ?thesis
  proof cases
    case 1
    then show ?thesis using le by (rule rnd_mono_pos)
  next
    case 2
    then show ?thesis using rnd_nonneg [of "- r"] rnd_nonneg [of s] by simp
  next
    case 3
    then show ?thesis using rnd_mono_pos [of "- s" "- r"] le by simp
  qed
qed

text \<open>Values with at most 53 significant bits above the smallest quantum are exact.\<close>

lemma rnd_exact_strict:
  assumes "v = of_int n * 2 powi q" "\<bar>n\<bar> < 2 ^ 53" "-1074 \<le> q"
  shows "rnd v = v"
proof (cases "n = 0")
  case True
  with assms show ?thesis by simp
next
  case False
  have "\<bar>v\<bar> = of_int \<bar>n\<bar> * 2 powi q"
    using assms(1) by (simp add: abs_mult)
  moreover have "(of_int \<bar>n\<bar> :: rat) < of_int (2 ^ 53)"
    using assms(2) by (simp only: of_int_less_iff)
  ultimately have "\<bar>v\<bar> < 2 powi 53 * 2 powi q"
    by (simp add: mult_strict_right_mono)
  then have "\<bar>v\<bar> < 2 powi (q + 53)"
    by (simp add: power_int_add mult.commute)
  moreover have "0 < \<bar>v\<bar>" using False assms(1) by simp
  ultimately have "expo \<bar>v\<bar> < q + 53" by (intro expo_less)
  then have le: "quantum v \<le> q" using assms(3) by (simp add: quantum_def)
  have "v / 2 powi quantum v = of_int n * 2 powi (q - quantum v)"
    using assms(1) by (simp add: power_int_diff)
  also have "\<dots> = of_int (n * 2 ^ nat (q - quantum v))"
    using le by (simp add: powi_nonneg_int)
  finally have m: "v / 2 powi quantum v = of_int (n * 2 ^ nat (q - quantum v))" .
  have "rnd v = v / 2 powi quantum v * 2 powi quantum v"
    unfolding rnd_def m round_even_of_int using False assms(1) by simp
  then show ?thesis by simp
qed

lemma rnd_exact:
  assumes "v = of_int n * 2 powi q" "\<bar>n\<bar> \<le> 2 ^ 53" "-1074 \<le> q"
  shows "rnd v = v"
proof (cases "\<bar>n\<bar> = 2 ^ 53")
  case True
  then have n: "n = 2 ^ 53 \<or> n = - (2 ^ 53)" by linarith
  have pow: "(2::rat) powi (q + 1) = 2 * 2 powi q" by (simp add: power_int_add)
  have "v = of_int (n div 2) * 2 powi (q + 1)"
    unfolding pow assms(1) using n by auto
  moreover have "\<bar>n div 2\<bar> < 2 ^ 53" using n by auto
  ultimately show ?thesis
    using assms(3) by (intro rnd_exact_strict [of v "n div 2" "q + 1"]) simp_all
next
  case False
  with assms show ?thesis by (intro rnd_exact_strict) auto
qed

lemma rnd_of_int [simp]: "\<bar>n\<bar> \<le> 2 ^ 53 \<Longrightarrow> rnd (of_int n) = of_int n"
  by (rule rnd_exact [of _ n 0]) simp_all

lemma rnd_1 [simp]: "rnd 1 = 1"
  using rnd_of_int [of 1] by simp

theorem rnd_idem [simp]: "rnd (rnd r) = rnd r"
proof (cases "r = 0")
  case False
  let ?q = "quantum r"
  have "\<bar>r\<bar> < 2 powi (expo \<bar>r\<bar> + 1)"
    using False by (intro expo_bounds) simp
  also have "\<dots> \<le> 2 powi (?q + 53)"
    by (simp add: powi_le_iff quantum_def)
  finally have b: "\<bar>r\<bar> \<le> 2 powi ?q * 2 ^ 53"
    by (simp add: power_int_add)
  have "r / 2 powi ?q \<le> of_int (2 ^ 53)" "of_int (- (2 ^ 53)) \<le> r / 2 powi ?q"
    using b by (simp_all add: field_simps abs_le_iff)
  then have "\<bar>round_even (r / 2 powi ?q)\<bar> \<le> 2 ^ 53"
    using round_even_le [of "r / 2 powi ?q" "2 ^ 53"] round_even_ge [of "- (2 ^ 53)" "r / 2 powi ?q"]
    by linarith
  then show ?thesis
    using False by (intro rnd_exact [of _ "round_even (r / 2 powi ?q)" ?q])
      (simp_all add: rnd_def quantum_def)
qed simp

text \<open>The rounding error is at most half the quantum.\<close>

lemma rnd_error: "\<bar>rnd r - r\<bar> \<le> 2 powi quantum r / 2"
proof (cases "r = 0")
  case False
  let ?q = "quantum r"
  have "rnd r - r = (of_int (round_even (r / 2 powi ?q)) - r / 2 powi ?q) * 2 powi ?q"
    using False by (simp add: rnd_def left_diff_distrib)
  then have "\<bar>rnd r - r\<bar> = \<bar>of_int (round_even (r / 2 powi ?q)) - r / 2 powi ?q\<bar> * 2 powi ?q"
    by (simp add: abs_mult)
  also have "\<dots> \<le> 1/2 * 2 powi ?q"
    by (intro mult_right_mono round_even_near) simp
  finally show ?thesis by simp
qed simp

text \<open>Half a unit in the last place above one still rounds to one.\<close>

lemma rnd_le_1: "r \<le> 1 + 1 / 2 ^ 53 \<Longrightarrow> rnd r \<le> 1"
proof -
  assume "r \<le> 1 + 1 / 2 ^ 53"
  then have "rnd r \<le> rnd (1 + 1 / 2 ^ 53)" by (rule rnd_mono)
  also have "rnd (1 + 1 / 2 ^ 53) = 1" by code_simp
  finally show ?thesis .
qed

section \<open>The type float64\<close>

datatype f64 = Fin rat | PInf | NInf | NaN

text \<open>The float64 nearest to a rational: what a constant or a conversion denotes.\<close>

definition f64_of :: "rat \<Rightarrow> f64" where
  "f64_of r =
     (let v = rnd r
      in if 2 ^ 1024 \<le> v then PInf else if v \<le> - (2 ^ 1024) then NInf else Fin v)"

definition f64_of_int :: "int \<Rightarrow> f64" where
  "f64_of_int n = f64_of (of_int n)"

definition wf_f64 :: "f64 \<Rightarrow> bool" where
  "wf_f64 x = (case x of Fin v \<Rightarrow> rnd v = v \<and> \<bar>v\<bar> < 2 ^ 1024 | _ \<Rightarrow> True)"

fun fneg :: "f64 \<Rightarrow> f64" where
  "fneg (Fin a) = Fin (- a)"
| "fneg PInf = NInf"
| "fneg NInf = PInf"
| "fneg NaN = NaN"

fun fadd :: "f64 \<Rightarrow> f64 \<Rightarrow> f64" where
  "fadd (Fin a) (Fin b) = f64_of (a + b)"
| "fadd NaN _ = NaN"
| "fadd _ NaN = NaN"
| "fadd PInf NInf = NaN"
| "fadd NInf PInf = NaN"
| "fadd PInf _ = PInf"
| "fadd _ PInf = PInf"
| "fadd NInf _ = NInf"
| "fadd _ NInf = NInf"

definition fsub :: "f64 \<Rightarrow> f64 \<Rightarrow> f64" where
  "fsub x y = fadd x (fneg y)"

definition signed_inf :: "rat \<Rightarrow> f64" where
  "signed_inf s = (if 0 < s then PInf else if s < 0 then NInf else NaN)"

fun f64_sgn :: "f64 \<Rightarrow> rat" where
  "f64_sgn (Fin a) = sgn a"
| "f64_sgn PInf = 1"
| "f64_sgn NInf = - 1"
| "f64_sgn NaN = 0"

fun fmul :: "f64 \<Rightarrow> f64 \<Rightarrow> f64" where
  "fmul (Fin a) (Fin b) = f64_of (a * b)"
| "fmul NaN _ = NaN"
| "fmul _ NaN = NaN"
| "fmul x y = signed_inf (f64_sgn x * f64_sgn y)"

fun fdiv :: "f64 \<Rightarrow> f64 \<Rightarrow> f64" where
  "fdiv (Fin a) (Fin b) = (if b = 0 then signed_inf a else f64_of (a / b))"
| "fdiv NaN _ = NaN"
| "fdiv _ NaN = NaN"
| "fdiv (Fin a) _ = Fin 0"
| "fdiv x (Fin b) = (if b = 0 then x else signed_inf (f64_sgn x * sgn b))"
| "fdiv _ _ = NaN"

text \<open>Comparisons: every comparison with a NaN is false.\<close>

fun flt :: "f64 \<Rightarrow> f64 \<Rightarrow> bool" where
  "flt (Fin a) (Fin b) \<longleftrightarrow> a < b"
| "flt NaN _ \<longleftrightarrow> False"
| "flt _ NaN \<longleftrightarrow> False"
| "flt PInf _ \<longleftrightarrow> False"
| "flt _ PInf \<longleftrightarrow> True"
| "flt NInf (Fin _) \<longleftrightarrow> True"
| "flt _ NInf \<longleftrightarrow> False"

definition feq :: "f64 \<Rightarrow> f64 \<Rightarrow> bool" where
  "feq x y \<longleftrightarrow> x \<noteq> NaN \<and> x = y"

definition fle :: "f64 \<Rightarrow> f64 \<Rightarrow> bool" where
  "fle x y \<longleftrightarrow> flt x y \<or> feq x y"

text \<open>
  \<open>int(x)\<close>: truncation towards zero. Out of the range of \<open>int64\<close> the result is
  implementation-defined in Go; amd64 yields the smallest integer.
\<close>

definition f64_trunc :: "f64 \<Rightarrow> int" where
  "f64_trunc x =
     (case x of
        Fin v \<Rightarrow>
          (let n = (if 0 \<le> v then \<lfloor>v\<rfloor> else \<lceil>v\<rceil>)
           in if - (2 ^ 63) \<le> n \<and> n < 2 ^ 63 then n else - (2 ^ 63))
      | _ \<Rightarrow> - (2 ^ 63))"

text \<open>\<open>math.Ceil\<close> and \<open>math.Min\<close>.\<close>

fun fceil :: "f64 \<Rightarrow> f64" where
  "fceil (Fin v) = f64_of_int \<lceil>v\<rceil>"
| "fceil x = x"

definition fmin :: "f64 \<Rightarrow> f64 \<Rightarrow> f64" where
  "fmin x y =
     (if x = NInf \<or> y = NInf then NInf
      else if x = NaN \<or> y = NaN then NaN
      else if flt x y then x else y)"

lemma fle_Fin [simp, f64_simps]: "fle (Fin a) (Fin b) \<longleftrightarrow> a \<le> b"
  by (auto simp: fle_def feq_def)

lemma feq_Fin [simp, f64_simps]: "feq (Fin a) (Fin b) \<longleftrightarrow> a = b"
  by (auto simp: feq_def)

lemma feq_special [simp, f64_simps]:
  "\<not> feq NaN x" "\<not> feq x NaN" "\<not> feq (Fin a) PInf" "\<not> feq (Fin a) NInf"
  by (auto simp: feq_def)

lemma flt_irrefl [simp]: "\<not> flt x x"
  by (cases x) auto

lemma flt_NaN [simp, f64_simps]: "\<not> flt NaN x" "\<not> flt x NaN"
  by (cases x; simp)+

lemma fle_special [simp, f64_simps]: "\<not> fle NaN x" "\<not> fle x NaN"
  by (auto simp: fle_def)

subsection \<open>Every operation yields a double\<close>

lemma wf_f64_special [simp]: "wf_f64 PInf" "wf_f64 NInf" "wf_f64 NaN"
  by (simp_all add: wf_f64_def)

lemma wf_f64_of [simp]: "wf_f64 (f64_of r)"
  by (auto simp: f64_of_def wf_f64_def Let_def abs_less_iff)

lemma wf_fneg [simp]: "wf_f64 (fneg x) \<longleftrightarrow> wf_f64 x"
  by (cases x) (simp_all add: wf_f64_def)

lemma wf_signed_inf [simp]: "wf_f64 (signed_inf s)"
  by (simp add: signed_inf_def)

lemma wf_fadd [simp]: "wf_f64 (fadd x y)"
  by (cases "(x, y)" rule: fadd.cases) simp_all

lemma wf_fsub [simp]: "wf_f64 (fsub x y)"
  by (simp add: fsub_def)

lemma wf_fmul [simp]: "wf_f64 (fmul x y)"
  by (cases "(x, y)" rule: fmul.cases) simp_all

lemma wf_Fin_0 [simp]: "wf_f64 (Fin 0)" "wf_f64 (Fin 1)"
  by (simp_all add: wf_f64_def)

lemma wf_fdiv [simp]: "wf_f64 x \<Longrightarrow> wf_f64 (fdiv x y)"
  by (cases "(x, y)" rule: fdiv.cases) simp_all

lemma wf_fceil [simp]: "wf_f64 x \<Longrightarrow> wf_f64 (fceil x)"
  by (cases x) (simp_all add: f64_of_int_def)

lemma wf_fmin [simp]: "wf_f64 x \<Longrightarrow> wf_f64 y \<Longrightarrow> wf_f64 (fmin x y)"
  by (simp add: fmin_def)

subsection \<open>Results in the range of the exact doubles\<close>

lemma rnd_bound: "\<bar>r\<bar> \<le> 2 ^ 53 \<Longrightarrow> \<bar>rnd r\<bar> \<le> 2 ^ 53"
  using rnd_mono [of r "2 ^ 53"] rnd_mono [of "- (2 ^ 53)" r]
    rnd_of_int [of "2 ^ 53"] rnd_of_int [of "- (2 ^ 53)"]
  by (simp add: abs_le_iff)

lemma f64_of_small: "\<bar>r\<bar> \<le> 2 ^ 53 \<Longrightarrow> f64_of r = Fin (rnd r)"
  using rnd_bound [of r] by (auto simp: f64_of_def Let_def abs_le_iff)

lemma f64_of_int_small: "\<bar>n\<bar> \<le> 2 ^ 53 \<Longrightarrow> f64_of_int n = Fin (of_int n)"
proof -
  assume n: "\<bar>n\<bar> \<le> 2 ^ 53"
  then have "\<bar>of_int n :: rat\<bar> \<le> of_int (2 ^ 53)"
    by (simp only: of_int_le_iff flip: of_int_abs)
  with n show ?thesis
    by (simp add: f64_of_int_def f64_of_small)
qed

end
