(* ===== verification/Net_Addr.thy ===== *)
theory Net_Addr
  imports FB_Prelude
begin

text \<open>
  What the sources use of Go's \<open>net\<close> package: IP addresses as byte slices (four bytes, or sixteen
  with IPv4 addresses mapped into IPv6; a nil address is the empty list), \<open>IP.To4\<close>, \<open>IP.Equal\<close>,
  and the textual form of a UDP address, which the tunnel uses as the key of its path tables.
  Zones of link-local IPv6 addresses are left out.
\<close>

record udp_addr =
  ua_IP :: bytes
  ua_Port :: nat

definition v4InV6Prefix :: bytes where
  "v4InV6Prefix = [0, 0, 0, 0, 0, 0, 0, 0, 0, 0, 0xff, 0xff]"

definition To4 :: "bytes \<Rightarrow> bytes" where
  "To4 ip =
     (if length ip = 4 then ip
      else if length ip = 16 \<and> take 12 ip = v4InV6Prefix then drop 12 ip
      else [])"

definition IP_Equal :: "bytes \<Rightarrow> bytes \<Rightarrow> bool" where
  "IP_Equal ip x \<longleftrightarrow>
     (if length ip = length x then ip = x
      else if length ip = 4 \<and> length x = 16 then take 12 x = v4InV6Prefix \<and> ip = drop 12 x
      else if length ip = 16 \<and> length x = 4 then take 12 ip = v4InV6Prefix \<and> drop 12 ip = x
      else False)"

definition IPv4zero :: bytes where
  "IPv4zero = v4InV6Prefix @ [0, 0, 0, 0]"

definition IsUnspecified :: "bytes \<Rightarrow> bool" where
  "IsUnspecified ip \<longleftrightarrow> IP_Equal ip IPv4zero \<or> IP_Equal ip (make_bytes 16)"

section \<open>Text\<close>

text \<open>\<open>strconv.Itoa\<close> of a number that is not negative, and lower-case hexadecimal digits.\<close>

fun itoa :: "nat \<Rightarrow> string" where
  "itoa n = (if n < 10 then [char_of (48 + n)] else itoa (n div 10) @ [char_of (48 + n mod 10)])"

definition hex_digit :: "nat \<Rightarrow> char" where
  "hex_digit d = (if d < 10 then char_of (48 + d) else char_of (87 + d))"

fun hex_str :: "nat \<Rightarrow> string" where
  "hex_str n = (if n < 16 then [hex_digit n] else hex_str (n div 16) @ [hex_digit (n mod 16)])"

declare itoa.simps [simp del] hex_str.simps [simp del]

fun join :: "char \<Rightarrow> string list \<Rightarrow> string" where
  "join sep [] = []"
| "join sep [s] = s"
| "join sep (s # ss) = s @ sep # join sep ss"

text \<open>The first longest run of at least two zero groups of an IPv6 address.\<close>

definition zero_run :: "u16 list \<Rightarrow> (nat \<times> nat) option" where
  "zero_run gs =
     foldl (\<lambda>best i. let j = i + length (takeWhile (\<lambda>g. g = 0) (drop i gs));
                         cur = (case best of None \<Rightarrow> 0 | Some (s, e) \<Rightarrow> e - s)
                     in if 2 \<le> j - i \<and> cur < j - i then Some (i, j) else best) None [0..<8]"

definition v6_string :: "bytes \<Rightarrow> string" where
  "v6_string ip =
     (let gs = map (\<lambda>i. get_u16 ip (2 * i)) [0..<8];
          hex = map (hex_str \<circ> unat) gs
      in case zero_run gs of
           None \<Rightarrow> join CHR '':'' hex
         | Some (s, e) \<Rightarrow> join CHR '':'' (take s hex) @ ''::'' @ join CHR '':'' (drop e hex))"

definition IP_String :: "bytes \<Rightarrow> string" where
  "IP_String ip =
     (if ip = [] then ''<nil>''
      else if To4 ip \<noteq> [] then join CHR ''.'' (map (itoa \<circ> unat) (To4 ip))
      else if length ip = 16 then v6_string ip
      else CHR ''?'' # concat (map (\<lambda>b. [hex_digit (unat b div 16), hex_digit (unat b mod 16)]) ip))"

definition JoinHostPort :: "string \<Rightarrow> string \<Rightarrow> string" where
  "JoinHostPort host port =
     (if CHR '':'' \<in> set host then CHR ''['' # host @ '']:'' @ port else host @ CHR '':'' # port)"

definition UDPAddr_String :: "udp_addr \<Rightarrow> string" where
  "UDPAddr_String a =
     JoinHostPort (if ua_IP a = [] then [] else IP_String (ua_IP a)) (itoa (ua_Port a))"

lemma To4_v4 [simp]: "length ip = 4 \<Longrightarrow> To4 ip = ip"
  by (simp add: To4_def)

lemma length_To4: "To4 ip \<noteq> [] \<Longrightarrow> length (To4 ip) = 4"
  by (auto simp: To4_def split: if_splits)

lemma To4_To4 [simp]: "To4 (To4 ip) = To4 ip"
  by (cases "To4 ip = []") (simp_all add: length_To4, simp add: To4_def)

lemma IP_Equal_refl [simp]: "IP_Equal ip ip"
  by (simp add: IP_Equal_def)

end
