(* ===== verification/Config.thy ===== *)
theory Config
  imports Float64 Net_Addr
begin

text \<open>
  The configuration of \<open>internal/config/config.go\<close>: the document as records, \<open>Validate\<close> with
  every default and every error, one definition per section of the document. Reading the file
  and decoding YAML are outside; so is the resolver behind \<open>net.ResolveUDPAddr\<close>, which is the
  argument \<open>resolve\<close>. Enumerations of the document are strings in the source and here.

  Shown here: a document that passes satisfies every range the validation promises, with the
  exception of a NaN, which no comparison rejects; validating twice changes nothing; and the
  identifiers of the uplinks are distinct.
\<close>

section \<open>The document\<close>

definition ModeClient :: string where "ModeClient = ''client''"
definition ModeServer :: string where "ModeServer = ''server''"
definition SchedulerLB :: string where "SchedulerLB = ''lb''"
definition SchedulerStandby :: string where "SchedulerStandby = ''standby''"
definition BalanceByCapacity :: string where "BalanceByCapacity = ''capacity''"
definition AffinityFlow :: string where "AffinityFlow = ''flow''"
definition AffinityPacket :: string where "AffinityPacket = ''packet''"
definition FECAdaptive :: string where "FECAdaptive = ''adaptive''"
definition FECFixed :: string where "FECFixed = ''fixed''"
definition FECOff :: string where "FECOff = ''off''"
definition FECCrosspath :: string where "FECCrosspath = ''crosspath''"
definition TransportUDP :: string where "TransportUDP = ''udp''"
definition TransportFakeTCP :: string where "TransportFakeTCP = ''faketcp''"
definition TransportICMP :: string where "TransportICMP = ''icmp''"

definition DeliveryMaxPending :: int where "DeliveryMaxPending = 4096"
definition DefaultMaxLossPct :: f64 where "DefaultMaxLossPct = Fin 20"
definition AnnounceVersion :: int where "AnnounceVersion = 1"

record Sched =
  sc_Mode :: string
  sc_Affinity :: string
  sc_BalanceBy :: string
  sc_CapacityCapMbps :: f64

record DeliveryCfg =
  dl_GapTimeoutMS :: int
  dl_MaxPending :: int

record FECCfg =
  fc_Enabled :: bool
  fc_Mode :: string
  fc_DataShards :: int
  fc_MaxLossPct :: f64
  fc_BlockTimeoutMS :: int
  fc_FixedOverheadPct :: f64
  fc_AdaptMinLossPct :: f64
  fc_AdaptResumePct :: f64
  fc_AdaptHoldSec :: f64
  fc_ProtectionLevel :: f64

record WAN =
  wn_ID :: string
  wn_Transport :: string
  wn_Iface :: string
  wn_LocalIP :: string
  wn_FIB :: int
  wn_CapacityMbps :: int
  wn_Weight :: f64
  wn_FECMaxLossPct :: "f64 option"

record HealthCfg =
  hc_LossAlphaFast :: f64
  hc_LossAlphaSlow :: f64
  hc_JitterAlpha :: f64
  hc_DegradeSec :: f64
  hc_RecoverMin :: f64
  hc_ProbeInterval :: f64
  hc_DownAfterMisses :: int
  hc_DownGraceSec :: f64

record CryptoCfg =
  cc_Key :: string
  cc_Cipher :: string

record LogCfg =
  lg_Level :: string
  lg_File :: string

record TelemetryCfg =
  tl_Listen :: string
  tl_Path :: string
  tl_IntervalSec :: f64

record QueueCfg =
  qc_Enabled :: "bool option"
  qc_MaxBytes :: int
  qc_Drop :: string
  qc_RateLimit :: bool

record Config =
  cf_Mode :: string
  cf_Listen :: string
  cf_Server :: string
  cf_WGPeer :: string
  cf_SessionID :: string
  cf_Scheduler :: Sched
  cf_FEC :: FECCfg
  cf_MTU :: int
  cf_WANs :: "WAN list"
  cf_Delivery :: DeliveryCfg
  cf_Health :: HealthCfg
  cf_Crypto :: CryptoCfg
  cf_Log :: LogCfg
  cf_Telemetry :: TelemetryCfg
  cf_Queue :: QueueCfg
  cf_Transport :: string

record ServerAnnounce =
  an_Version :: int
  an_MTU :: int
  an_FEC :: FECCfg

datatype cfg_error =
    InvalidMode string | ListenRequired | ServerRequired | WGPeerRequired
  | BadListen string | BadServer string | BadWGPeer string
  | InvalidSchedMode string | InvalidAffinity string | NegativeCap
  | GapTimeoutRange int | MaxPendingRange int | MTURange int
  | InvalidFECMode string | DataShardsRange int | CrosspathNeedsPacket
  | MaxLossRange f64 | AdaptMinRange f64 | AdaptResumeRange f64 | AdaptHoldRange f64
  | FixedOverheadRange f64 | ProtectionRange f64
  | NoWAN | ServerTransport string | DuplicateWAN string | WANTransport string string | NegativeCapacity string
  | MissesRange int | GraceRange f64 | KeyRequired | IntervalRange f64 | TelemetryListen string | QueueDropInvalid string

section \<open>Validation\<close>

text \<open>An error ends the validation; \<open>ensure\<close> is the test with an early return.\<close>

fun and_then :: "'e + 'a \<Rightarrow> ('a \<Rightarrow> 'e + 'b) \<Rightarrow> 'e + 'b" where
  "and_then (Inl e) f = Inl e"
| "and_then (Inr x) f = f x"

definition ensure :: "bool \<Rightarrow> 'e \<Rightarrow> 'a \<Rightarrow> 'e + 'a" where
  "ensure ok e x = (if ok then Inr x else Inl e)"

definition or_default :: "'a \<Rightarrow> 'a \<Rightarrow> 'a \<Rightarrow> 'a" where
  "or_default zero d x = (if x = zero then d else x)"

definition val_mode :: "(string \<Rightarrow> bool) \<Rightarrow> Config \<Rightarrow> cfg_error + Config" where
  "val_mode resolve c =
     (let c = c\<lparr>cf_Mode := or_default [] ModeClient (cf_Mode c)\<rparr>
      in if cf_Mode c \<noteq> ModeClient \<and> cf_Mode c \<noteq> ModeServer then Inl (InvalidMode (cf_Mode c))
         else if cf_Listen c = [] then Inl ListenRequired
         else if cf_Mode c = ModeClient \<and> cf_Server c = [] then Inl ServerRequired
         else if cf_Mode c = ModeServer \<and> cf_WGPeer c = [] then Inl WGPeerRequired
         else if \<not> resolve (cf_Listen c) then Inl (BadListen (cf_Listen c))
         else if cf_Mode c = ModeClient \<and> \<not> resolve (cf_Server c) then Inl (BadServer (cf_Server c))
         else if cf_Mode c = ModeServer \<and> \<not> resolve (cf_WGPeer c) then Inl (BadWGPeer (cf_WGPeer c))
         else Inr (c\<lparr>cf_SessionID := or_default [] ''auto'' (cf_SessionID c)\<rparr>))"

definition val_sched :: "Sched \<Rightarrow> cfg_error + Sched" where
  "val_sched s =
     (let s = s\<lparr>sc_Mode := or_default [] SchedulerLB (sc_Mode s)\<rparr>
      in if sc_Mode s \<notin> {SchedulerLB, SchedulerStandby} then Inl (InvalidSchedMode (sc_Mode s))
         else (let s = s\<lparr>sc_Affinity := or_default [] AffinityPacket (sc_Affinity s)\<rparr>
               in if sc_Affinity s \<notin> {AffinityFlow, AffinityPacket} then Inl (InvalidAffinity (sc_Affinity s))
                  else (let s = s\<lparr>sc_BalanceBy := or_default [] BalanceByCapacity (sc_BalanceBy s)\<rparr>
                        in ensure (\<not> flt (sc_CapacityCapMbps s) (Fin 0)) NegativeCap s)))"

definition val_delivery :: "DeliveryCfg \<Rightarrow> cfg_error + DeliveryCfg" where
  "val_delivery d =
     (let d = d\<lparr>dl_GapTimeoutMS := or_default 0 100 (dl_GapTimeoutMS d)\<rparr>
      in if dl_GapTimeoutMS d < 10 \<or> dl_GapTimeoutMS d > 5000 then Inl (GapTimeoutRange (dl_GapTimeoutMS d))
         else (let d = d\<lparr>dl_MaxPending := or_default 0 4096 (dl_MaxPending d)\<rparr>
               in ensure (\<not> (dl_MaxPending d < 64 \<or> dl_MaxPending d > DeliveryMaxPending)) (MaxPendingRange (dl_MaxPending d)) d))"

definition val_mtu :: "int \<Rightarrow> cfg_error + int" where
  "val_mtu mtu = (let mtu = or_default 0 1420 mtu in ensure (\<not> (mtu < 576 \<or> mtu > 9000)) (MTURange mtu) mtu)"

definition fec_geometry :: "string \<Rightarrow> FECCfg \<Rightarrow> cfg_error + FECCfg" where
  "fec_geometry affinity f =
     (let f = f\<lparr>fc_Mode := or_default [] FECAdaptive (fc_Mode f)\<rparr>
      in if fc_Mode f \<notin> {FECAdaptive, FECFixed, FECCrosspath} then Inl (InvalidFECMode (fc_Mode f))
         else (let f = f\<lparr>fc_DataShards := or_default 0 10 (fc_DataShards f)\<rparr>
         in if fc_DataShards f < 2 \<or> fc_DataShards f > 64 then Inl (DataShardsRange (fc_DataShards f))
         else ensure (\<not> (fc_Mode f = FECCrosspath \<and> affinity \<noteq> AffinityPacket)) CrosspathNeedsPacket f))"

definition fec_loss :: "FECCfg \<Rightarrow> cfg_error + FECCfg" where
  "fec_loss f =
     (let f = f\<lparr>fc_MaxLossPct := or_default (Fin 0) DefaultMaxLossPct (fc_MaxLossPct f)\<rparr>
      in if flt (fc_MaxLossPct f) (Fin 0) \<or> flt (Fin 90) (fc_MaxLossPct f) then Inl (MaxLossRange (fc_MaxLossPct f))
         else Inr (f\<lparr>fc_BlockTimeoutMS := (if fc_BlockTimeoutMS f \<le> 0 then 8 else fc_BlockTimeoutMS f)\<rparr>))"

definition fec_adapt :: "FECCfg \<Rightarrow> cfg_error + FECCfg" where
  "fec_adapt f =
     (let f = f\<lparr>fc_AdaptMinLossPct := or_default (Fin 0) (Fin 2) (fc_AdaptMinLossPct f),
                fc_AdaptResumePct := or_default (Fin 0) (Fin (1/2)) (fc_AdaptResumePct f),
                fc_AdaptHoldSec := or_default (Fin 0) (Fin 10) (fc_AdaptHoldSec f)\<rparr>
      in if fle (fc_AdaptMinLossPct f) (Fin 0) \<or> flt (Fin 90) (fc_AdaptMinLossPct f) then Inl (AdaptMinRange (fc_AdaptMinLossPct f))
         else if flt (fc_AdaptResumePct f) (Fin 0) \<or> fle (fc_AdaptMinLossPct f) (fc_AdaptResumePct f)
           then Inl (AdaptResumeRange (fc_AdaptResumePct f))
         else ensure (\<not> (flt (fc_AdaptHoldSec f) (Fin 0) \<or> flt (Fin 3600) (fc_AdaptHoldSec f))) (AdaptHoldRange (fc_AdaptHoldSec f)) f)"

definition fec_overhead :: "FECCfg \<Rightarrow> cfg_error + FECCfg" where
  "fec_overhead f =
     (if fc_Mode f = FECFixed \<and> (fle (fc_FixedOverheadPct f) (Fin 0) \<or> flt (Fin 200) (fc_FixedOverheadPct f))
      then Inl (FixedOverheadRange (fc_FixedOverheadPct f))
      else if fc_Mode f = FECCrosspath then
        (let f = f\<lparr>fc_ProtectionLevel := or_default (Fin 0) (Fin (1/2)) (fc_ProtectionLevel f)\<rparr>
         in ensure (\<not> (flt (fc_ProtectionLevel f) (Fin 0) \<or> flt (Fin 1) (fc_ProtectionLevel f)))
              (ProtectionRange (fc_ProtectionLevel f)) f)
      else Inr f)"

definition val_fec_on :: "string \<Rightarrow> FECCfg \<Rightarrow> cfg_error + FECCfg" where
  "val_fec_on affinity f =
     and_then (fec_geometry affinity f) (\<lambda>f. and_then (fec_loss f) (\<lambda>f. and_then (fec_adapt f) fec_overhead))"

definition val_fec :: "string \<Rightarrow> FECCfg \<Rightarrow> cfg_error + FECCfg" where
  "val_fec affinity f =
     (let f = (if fc_Mode f = FECOff then f\<lparr>fc_Enabled := False\<rparr> else f)
      in if fc_Enabled f then val_fec_on affinity f else Inr f)"

definition val_transport :: "string \<Rightarrow> WAN list \<Rightarrow> string \<Rightarrow> cfg_error + string" where
  "val_transport mode wans t =
     (if wans = [] \<and> mode = ModeClient then Inl NoWAN
      else if mode = ModeServer then
        (let t = or_default [] TransportUDP t
         in ensure (t \<in> {TransportUDP, TransportFakeTCP, TransportICMP}) (ServerTransport t) t)
      else Inr t)"

fun wan_loop :: "nat \<Rightarrow> string list \<Rightarrow> WAN list \<Rightarrow> cfg_error + WAN list" where
  "wan_loop i seen [] = Inr []"
| "wan_loop i seen (w # ws) =
     (let w = w\<lparr>wn_ID := or_default [] (''wan'' @ itoa (i + 1)) (wn_ID w)\<rparr>
      in if wn_ID w \<in> set seen then Inl (DuplicateWAN (wn_ID w))
         else (let w = w\<lparr>wn_Transport := or_default [] TransportUDP (wn_Transport w)\<rparr>
         in if wn_Transport w \<notin> {TransportUDP, TransportFakeTCP, TransportICMP} then Inl (WANTransport (wn_ID w) (wn_Transport w))
         else (let w = w\<lparr>wn_Weight := or_default (Fin 0) (Fin 1) (wn_Weight w)\<rparr>
         in if wn_CapacityMbps w < 0 then Inl (NegativeCapacity (wn_ID w))
         else and_then (wan_loop (i + 1) (wn_ID w # seen) ws) (\<lambda>ws. Inr (w # ws)))))"

definition val_health :: "HealthCfg \<Rightarrow> cfg_error + HealthCfg" where
  "val_health h =
     (let h = h\<lparr>hc_LossAlphaFast := or_default (Fin 0) (f64_of (2/5)) (hc_LossAlphaFast h),
                hc_LossAlphaSlow := or_default (Fin 0) (f64_of (3/100)) (hc_LossAlphaSlow h),
                hc_JitterAlpha := or_default (Fin 0) (f64_of (1/10)) (hc_JitterAlpha h),
                hc_DegradeSec := or_default (Fin 0) (Fin 3) (hc_DegradeSec h),
                hc_RecoverMin := or_default (Fin 0) (Fin 2) (hc_RecoverMin h),
                hc_ProbeInterval := or_default (Fin 0) (Fin 1) (hc_ProbeInterval h),
                hc_DownAfterMisses := or_default 0 3 (hc_DownAfterMisses h)\<rparr>
      in if hc_DownAfterMisses h < 1 \<or> hc_DownAfterMisses h > 32 then Inl (MissesRange (hc_DownAfterMisses h))
         else ensure (\<not> (flt (hc_DownGraceSec h) (Fin 0) \<or> flt (Fin 60) (hc_DownGraceSec h))) (GraceRange (hc_DownGraceSec h)) h)"

definition val_crypto :: "CryptoCfg \<Rightarrow> cfg_error + CryptoCfg" where
  "val_crypto k =
     (if cc_Key k = [] then Inl KeyRequired
      else Inr (k\<lparr>cc_Cipher := or_default [] ''chacha20poly1305'' (cc_Cipher k)\<rparr>))"

text \<open>\<open>net.SplitHostPort\<close>: whether the string is a host and a port, as the package parses it.\<close>

fun first_index :: "char \<Rightarrow> string \<Rightarrow> nat option" where
  "first_index ch [] = None"
| "first_index ch (x # xs) = (if x = ch then Some 0 else map_option Suc (first_index ch xs))"

definition last_index :: "char \<Rightarrow> string \<Rightarrow> nat option" where
  "last_index ch s = map_option (\<lambda>i. length s - 1 - i) (first_index ch (rev s))"

definition SplitHostPort :: "string \<Rightarrow> (string \<times> string) option" where
  "SplitHostPort s =
     (case last_index CHR '':'' s of
        None \<Rightarrow> None
      | Some i \<Rightarrow>
          if hd s = CHR ''['' then
            (case first_index CHR '']'' s of
               None \<Rightarrow> None
             | Some e \<Rightarrow>
                 if e + 1 = length s \<or> e + 1 \<noteq> i \<or> CHR ''['' \<in> set (drop 1 s) \<or> CHR '']'' \<in> set (drop (e + 1) s) then None
                 else Some (take (e - 1) (drop 1 s), drop (i + 1) s))
          else if CHR '':'' \<in> set (take i s) \<or> CHR ''['' \<in> set s \<or> CHR '']'' \<in> set s then None
          else Some (take i s, drop (i + 1) s))"

definition val_log :: "LogCfg \<Rightarrow> LogCfg" where
  "val_log l = l\<lparr>lg_Level := or_default [] ''info'' (lg_Level l)\<rparr>"

definition val_telemetry :: "TelemetryCfg \<Rightarrow> cfg_error + TelemetryCfg" where
  "val_telemetry t =
     (let t = t\<lparr>tl_Path := or_default [] ''/stats'' (tl_Path t)\<rparr>
      in if flt (tl_IntervalSec t) (Fin 0) then Inl (IntervalRange (tl_IntervalSec t))
         else ensure (\<not> (tl_Listen t \<noteq> [] \<and> SplitHostPort (tl_Listen t) = None)) (TelemetryListen (tl_Listen t)) t)"

definition val_queue :: "QueueCfg \<Rightarrow> cfg_error + QueueCfg" where
  "val_queue q =
     (let q = q\<lparr>qc_Enabled := (case qc_Enabled q of None \<Rightarrow> Some True | Some b \<Rightarrow> Some b),
                qc_MaxBytes := (if qc_MaxBytes q \<le> 0 then 262144 else qc_MaxBytes q),
                qc_Drop := or_default [] ''oldest'' (qc_Drop q)\<rparr>
      in ensure (qc_Drop q = ''oldest'' \<or> qc_Drop q = ''newest'') (QueueDropInvalid (qc_Drop q)) q)"

definition Validate :: "(string \<Rightarrow> bool) \<Rightarrow> Config \<Rightarrow> cfg_error + Config" where
  "Validate resolve c =
     and_then (val_mode resolve c) (\<lambda>c.
     and_then (val_sched (cf_Scheduler c)) (\<lambda>s. let c = c\<lparr>cf_Scheduler := s\<rparr> in
     and_then (val_delivery (cf_Delivery c)) (\<lambda>d. let c = c\<lparr>cf_Delivery := d\<rparr> in
     and_then (val_mtu (cf_MTU c)) (\<lambda>m. let c = c\<lparr>cf_MTU := m\<rparr> in
     and_then (val_fec (sc_Affinity (cf_Scheduler c)) (cf_FEC c)) (\<lambda>f. let c = c\<lparr>cf_FEC := f\<rparr> in
     and_then (val_transport (cf_Mode c) (cf_WANs c) (cf_Transport c)) (\<lambda>t. let c = c\<lparr>cf_Transport := t\<rparr> in
     and_then (wan_loop 0 [] (cf_WANs c)) (\<lambda>ws. let c = c\<lparr>cf_WANs := ws\<rparr> in
     and_then (val_health (cf_Health c)) (\<lambda>h. let c = c\<lparr>cf_Health := h\<rparr> in
     and_then (val_crypto (cf_Crypto c)) (\<lambda>k. let c = c\<lparr>cf_Crypto := k, cf_Log := val_log (cf_Log c)\<rparr> in
     and_then (val_telemetry (cf_Telemetry c)) (\<lambda>t. let c = c\<lparr>cf_Telemetry := t\<rparr> in
     and_then (val_queue (cf_Queue c)) (\<lambda>q. Inr (c\<lparr>cf_Queue := q\<rparr>))))))))))))"

text \<open>\<open>Load\<close> of a file that reads and decodes to a document, or of one that does not (\<open>None\<close>).\<close>

definition Load :: "(string \<Rightarrow> bool) \<Rightarrow> Config option \<Rightarrow> cfg_error option + Config" where
  "Load resolve doc =
     (case doc of
        None \<Rightarrow> Inl None
      | Some c \<Rightarrow> (case Validate resolve c of Inl e \<Rightarrow> Inl (Some e) | Inr c \<Rightarrow> Inr c))"

section \<open>What validation gives\<close>

lemma and_then_Inr: "and_then x f = Inr y \<longleftrightarrow> (\<exists>a. x = Inr a \<and> f a = Inr y)"
  by (cases x) auto

lemma ensure_Inr: "ensure ok e x = Inr y \<longleftrightarrow> ok \<and> y = x"
  by (auto simp: ensure_def)

lemmas config_consts = ModeClient_def ModeServer_def SchedulerLB_def SchedulerStandby_def BalanceByCapacity_def AffinityFlow_def
  AffinityPacket_def FECAdaptive_def FECFixed_def FECOff_def FECCrosspath_def TransportUDP_def TransportFakeTCP_def TransportICMP_def

text \<open>A number above zero and up to a bound, or a NaN, which every comparison of the code lets through.\<close>

definition pos_upto :: "rat \<Rightarrow> f64 \<Rightarrow> bool" where
  "pos_upto hi x \<longleftrightarrow> x = NaN \<or> (\<exists>v. x = Fin v \<and> 0 < v \<and> v \<le> hi)"

lemma pos_upto_le: "pos_upto hi x \<longleftrightarrow> \<not> fle x (Fin 0) \<and> \<not> flt (Fin hi) x"
  by (cases x) (auto simp: pos_upto_def fle_def)

lemma pos_upto_lt: "pos_upto hi x \<longleftrightarrow> x \<noteq> Fin 0 \<and> \<not> flt x (Fin 0) \<and> \<not> flt (Fin hi) x"
  by (cases x) (auto simp: pos_upto_def)

text \<open>The documents that are already in the form validation produces, one predicate per section.\<close>

definition fec_valid :: "string \<Rightarrow> FECCfg \<Rightarrow> bool" where
  "fec_valid affinity f \<longleftrightarrow>
     (if fc_Enabled f then
        fc_Mode f \<in> {FECAdaptive, FECFixed, FECCrosspath} \<and> 2 \<le> fc_DataShards f \<and> fc_DataShards f \<le> 64 \<and>
        (fc_Mode f = FECCrosspath \<longrightarrow> affinity = AffinityPacket \<and> pos_upto 1 (fc_ProtectionLevel f)) \<and>
        pos_upto 90 (fc_MaxLossPct f) \<and> 0 < fc_BlockTimeoutMS f \<and> pos_upto 90 (fc_AdaptMinLossPct f) \<and>
        fc_AdaptResumePct f \<noteq> Fin 0 \<and> \<not> flt (fc_AdaptResumePct f) (Fin 0) \<and> \<not> fle (fc_AdaptMinLossPct f) (fc_AdaptResumePct f) \<and>
        pos_upto 3600 (fc_AdaptHoldSec f) \<and> (fc_Mode f = FECFixed \<longrightarrow> pos_upto 200 (fc_FixedOverheadPct f))
      else True)"

definition wan_valid :: "WAN \<Rightarrow> bool" where
  "wan_valid w \<longleftrightarrow> wn_ID w \<noteq> [] \<and> wn_Transport w \<in> {TransportUDP, TransportFakeTCP, TransportICMP} \<and> wn_Weight w \<noteq> Fin 0 \<and> 0 \<le> wn_CapacityMbps w"

definition health_valid :: "HealthCfg \<Rightarrow> bool" where
  "health_valid h \<longleftrightarrow>
     (\<forall>x\<in>{hc_LossAlphaFast h, hc_LossAlphaSlow h, hc_JitterAlpha h, hc_DegradeSec h, hc_RecoverMin h, hc_ProbeInterval h}. x \<noteq> Fin 0) \<and>
     1 \<le> hc_DownAfterMisses h \<and> hc_DownAfterMisses h \<le> 32 \<and> (hc_DownGraceSec h = Fin 0 \<or> pos_upto 60 (hc_DownGraceSec h))"

definition doc_valid :: "(string \<Rightarrow> bool) \<Rightarrow> Config \<Rightarrow> bool" where
  "doc_valid resolve c \<longleftrightarrow>
     cf_Mode c \<in> {ModeClient, ModeServer} \<and> cf_Listen c \<noteq> [] \<and> resolve (cf_Listen c) \<and> cf_SessionID c \<noteq> [] \<and>
     (cf_Mode c = ModeClient \<longrightarrow> cf_Server c \<noteq> [] \<and> resolve (cf_Server c) \<and> cf_WANs c \<noteq> []) \<and>
     (cf_Mode c = ModeServer \<longrightarrow>
        cf_WGPeer c \<noteq> [] \<and> resolve (cf_WGPeer c) \<and> cf_Transport c \<in> {TransportUDP, TransportFakeTCP, TransportICMP}) \<and>
     sc_Mode (cf_Scheduler c) \<in> {SchedulerLB, SchedulerStandby} \<and> sc_Affinity (cf_Scheduler c) \<in> {AffinityFlow, AffinityPacket} \<and>
     sc_BalanceBy (cf_Scheduler c) \<noteq> [] \<and> \<not> flt (sc_CapacityCapMbps (cf_Scheduler c)) (Fin 0) \<and>
     10 \<le> dl_GapTimeoutMS (cf_Delivery c) \<and> dl_GapTimeoutMS (cf_Delivery c) \<le> 5000 \<and>
     64 \<le> dl_MaxPending (cf_Delivery c) \<and> dl_MaxPending (cf_Delivery c) \<le> 4096 \<and> 576 \<le> cf_MTU c \<and> cf_MTU c \<le> 9000 \<and>
     fec_valid (sc_Affinity (cf_Scheduler c)) (cf_FEC c) \<and> (fc_Mode (cf_FEC c) = FECOff \<longrightarrow> \<not> fc_Enabled (cf_FEC c)) \<and>
     (\<forall>w\<in>set (cf_WANs c). wan_valid w) \<and> distinct (map wn_ID (cf_WANs c)) \<and> health_valid (cf_Health c) \<and>
     cc_Key (cf_Crypto c) \<noteq> [] \<and> cc_Cipher (cf_Crypto c) \<noteq> [] \<and> lg_Level (cf_Log c) \<noteq> [] \<and> tl_Path (cf_Telemetry c) \<noteq> [] \<and>
     \<not> flt (tl_IntervalSec (cf_Telemetry c)) (Fin 0) \<and> (tl_Listen (cf_Telemetry c) = [] \<or> SplitHostPort (tl_Listen (cf_Telemetry c)) \<noteq> None) \<and>
     qc_Enabled (cf_Queue c) \<noteq> None \<and> 0 < qc_MaxBytes (cf_Queue c) \<and> qc_Drop (cf_Queue c) \<in> {''oldest'', ''newest''}"

text \<open>What each step of the redundancy section establishes, and which fields it leaves alone.\<close>

lemma fec_geometry_Inr:
  assumes "fec_geometry a f = Inr f'"
  shows "fc_Mode f' \<in> {FECAdaptive, FECFixed, FECCrosspath}" "2 \<le> fc_DataShards f'" "fc_DataShards f' \<le> 64"
    "fc_Mode f' = FECCrosspath \<Longrightarrow> a = AffinityPacket" "fc_Enabled f' = fc_Enabled f"
  using assms by (auto simp: fec_geometry_def Let_def ensure_Inr split: if_splits)

lemma fec_loss_Inr:
  assumes "fec_loss f = Inr f'"
  shows "pos_upto 90 (fc_MaxLossPct f')" "0 < fc_BlockTimeoutMS f'"
    "fc_Mode f' = fc_Mode f" "fc_DataShards f' = fc_DataShards f" "fc_Enabled f' = fc_Enabled f"
  using assms by (auto simp: fec_loss_def Let_def or_default_def DefaultMaxLossPct_def pos_upto_lt split: if_splits)

lemma fec_adapt_Inr:
  assumes "fec_adapt f = Inr f'"
  shows "pos_upto 90 (fc_AdaptMinLossPct f')" "\<not> fle (fc_AdaptMinLossPct f') (fc_AdaptResumePct f')" "pos_upto 3600 (fc_AdaptHoldSec f')"
    "fc_AdaptResumePct f' \<noteq> Fin 0" "\<not> flt (fc_AdaptResumePct f') (Fin 0)"
    "fc_Mode f' = fc_Mode f" "fc_DataShards f' = fc_DataShards f" "fc_Enabled f' = fc_Enabled f" "fc_MaxLossPct f' = fc_MaxLossPct f"
    "fc_BlockTimeoutMS f' = fc_BlockTimeoutMS f"
  using assms by (auto simp: fec_adapt_def Let_def or_default_def ensure_Inr fle_def pos_upto_lt split: if_splits)

lemma fec_overhead_Inr:
  assumes "fec_overhead f = Inr f'"
  shows "\<exists>l. f' = f\<lparr>fc_ProtectionLevel := l\<rparr> \<and> (fc_Mode f = FECCrosspath \<longrightarrow> pos_upto 1 l)"
    "fc_Mode f = FECFixed \<Longrightarrow> pos_upto 200 (fc_FixedOverheadPct f)"
proof -
  show "\<exists>l. f' = f\<lparr>fc_ProtectionLevel := l\<rparr> \<and> (fc_Mode f = FECCrosspath \<longrightarrow> pos_upto 1 l)"
  proof (cases "fc_Mode f = FECCrosspath")
    case True
    then show ?thesis
      using assms by (intro exI [of _ "or_default (Fin 0) (Fin (1/2)) (fc_ProtectionLevel f)"])
        (auto simp: fec_overhead_def Let_def or_default_def ensure_Inr pos_upto_lt split: if_splits)
  next
    case False
    then show ?thesis
      using assms by (intro exI [of _ "fc_ProtectionLevel f"]) (auto simp: fec_overhead_def split: if_splits)
  qed
  show "fc_Mode f = FECFixed \<Longrightarrow> pos_upto 200 (fc_FixedOverheadPct f)"
    using assms by (auto simp: fec_overhead_def pos_upto_le split: if_splits)
qed

lemma val_fec_valid:
  assumes "val_fec a f = Inr f'"
  shows "fec_valid a f'" "fc_Mode f' = FECOff \<Longrightarrow> \<not> fc_Enabled f'"
proof -
  consider "\<not> fc_Enabled f'" | "fc_Enabled f'" "val_fec_on a f = Inr f'"
    using assms by (auto simp: val_fec_def Let_def split: if_splits)
  then have "fec_valid a f' \<and> (fc_Mode f' = FECOff \<longrightarrow> \<not> fc_Enabled f')"
  proof cases
    case 1
    then show ?thesis by (simp add: fec_valid_def)
  next
    case 2
    then obtain g l d where *: "fec_geometry a f = Inr g" "fec_loss g = Inr l" "fec_adapt l = Inr d" "fec_overhead d = Inr f'"
      by (auto simp: val_fec_on_def and_then_Inr)
    obtain p where p: "f' = d\<lparr>fc_ProtectionLevel := p\<rparr>" "fc_Mode d = FECCrosspath \<longrightarrow> pos_upto 1 p"
      using fec_overhead_Inr(1) [OF *(4)] by blast
    note facts = fec_geometry_Inr [OF *(1)] fec_loss_Inr [OF *(2)] fec_adapt_Inr [OF *(3)] fec_overhead_Inr(2) [OF *(4)]
    have "fc_Mode f' \<noteq> FECOff" using facts p(1) by (auto simp: config_consts)
    moreover have "fec_valid a f'" unfolding fec_valid_def using facts p by simp
    ultimately show ?thesis by simp
  qed
  then show "fec_valid a f'" "fc_Mode f' = FECOff \<Longrightarrow> \<not> fc_Enabled f'" by simp_all
qed

lemma val_fec_stable:
  assumes "fec_valid a f" "fc_Mode f = FECOff \<longrightarrow> \<not> fc_Enabled f"
  shows "val_fec a f = Inr f"
proof (cases "fc_Enabled f")
  case False
  then show ?thesis by (simp add: val_fec_def)
next
  case True
  note v = assms(1) [unfolded fec_valid_def, simplified True if_True]
  have "fec_geometry a f = Inr f"
    using v by (auto simp: fec_geometry_def Let_def or_default_def ensure_def config_consts)
  moreover have "fec_loss f = Inr f" using v by (simp add: fec_loss_def or_default_def pos_upto_lt)
  moreover have "fec_adapt f = Inr f"
  proof -
    have m: "\<not> fle (fc_AdaptMinLossPct f) (Fin 0)" "\<not> flt (Fin 90) (fc_AdaptMinLossPct f)" "fc_AdaptMinLossPct f \<noteq> Fin 0"
      "\<not> flt (fc_AdaptHoldSec f) (Fin 0)" "\<not> flt (Fin 3600) (fc_AdaptHoldSec f)" "fc_AdaptHoldSec f \<noteq> Fin 0"
      using v pos_upto_le [of 90 "fc_AdaptMinLossPct f"] pos_upto_lt [of 90 "fc_AdaptMinLossPct f"]
        pos_upto_lt [of 3600 "fc_AdaptHoldSec f"] by simp_all
    show ?thesis unfolding fec_adapt_def using v m by (simp add: or_default_def ensure_def)
  qed
  moreover have "fec_overhead f = Inr f"
    using v pos_upto_le [of 200 "fc_FixedOverheadPct f"] by (auto simp: fec_overhead_def or_default_def ensure_def pos_upto_lt Let_def)
  ultimately show ?thesis using True assms(2) by (auto simp: val_fec_def val_fec_on_def)
qed

lemma wan_loop_valid:
  "wan_loop i seen ws = Inr ws' \<Longrightarrow>
     length ws' = length ws \<and> (\<forall>w\<in>set ws'. wan_valid w) \<and> distinct (map wn_ID ws') \<and> set (map wn_ID ws') \<inter> set seen = {}"
proof (induction ws arbitrary: i seen ws')
  case Nil
  then show ?case by simp
next
  case (Cons w ws)
  define u where "u = w\<lparr>wn_ID := or_default [] (''wan'' @ itoa (i + 1)) (wn_ID w),
    wn_Transport := or_default [] TransportUDP (wn_Transport w), wn_Weight := or_default (Fin 0) (Fin 1) (wn_Weight w)\<rparr>"
  obtain vs where vs: "wan_loop (i + 1) (wn_ID u # seen) ws = Inr vs" "ws' = u # vs" and u: "wn_ID u \<notin> set seen" "wan_valid u"
    using Cons.prems by (auto simp: Let_def and_then_Inr u_def wan_valid_def or_default_def split: if_splits)
  show ?case using Cons.IH [OF vs(1)] vs(2) u by auto
qed

lemma wan_loop_stable:
  "\<forall>w\<in>set ws. wan_valid w \<Longrightarrow> distinct (map wn_ID ws) \<Longrightarrow> set (map wn_ID ws) \<inter> set seen = {} \<Longrightarrow> wan_loop i seen ws = Inr ws"
proof (induction ws arbitrary: i seen)
  case Nil
  then show ?case by simp
next
  case (Cons w ws)
  have w: "wan_valid w" "wn_ID w \<notin> set seen" using Cons.prems by auto
  have "wan_loop (i + 1) (wn_ID w # seen) ws = Inr ws" using Cons.prems by (intro Cons.IH) auto
  moreover have "wn_Transport w \<noteq> []" using w(1) by (auto simp: wan_valid_def config_consts)
  ultimately show ?case using w by (auto simp: Let_def or_default_def wan_valid_def)
qed

lemma health_defaults: "f64_of (2/5) \<noteq> Fin 0" "f64_of (3/100) \<noteq> Fin 0" "f64_of (1/10) \<noteq> Fin 0"
proof -
  have "0 < rnd (2/5)" "0 < rnd (3/100)" "0 < rnd (1/10)" by code_simp+
  then show "f64_of (2/5) \<noteq> Fin 0" "f64_of (3/100) \<noteq> Fin 0" "f64_of (1/10) \<noteq> Fin 0"
    using f64_of_small [of "2/5"] f64_of_small [of "3/100"] f64_of_small [of "1/10"] by auto
qed

lemma or_default_zero: "or_default zero d x = zero \<longleftrightarrow> x = zero \<and> d = zero"
  by (auto simp: or_default_def)

lemma or_default_id: "x \<noteq> zero \<Longrightarrow> or_default zero d x = x"
  by (simp add: or_default_def)

lemma val_health_valid: "val_health h = Inr h' \<Longrightarrow> health_valid h'"
  using health_defaults by (auto simp: val_health_def health_valid_def Let_def ensure_Inr pos_upto_lt or_default_zero split: if_splits)

lemma val_health_stable:
  assumes "health_valid h"
  shows "val_health h = Inr h"
proof -
  have "\<not> flt (hc_DownGraceSec h) (Fin 0)" "\<not> flt (Fin 60) (hc_DownGraceSec h)"
    using assms by (auto simp: health_valid_def pos_upto_lt)
  then show ?thesis using assms by (simp add: val_health_def health_valid_def or_default_id ensure_def)
qed

text \<open>The sections without steps of their own.\<close>

lemma val_mode_Inr:
  "val_mode r c = Inr c' \<Longrightarrow>
     cf_Mode c' \<in> {ModeClient, ModeServer} \<and> cf_SessionID c' \<noteq> [] \<and>
     cf_Listen c' \<noteq> [] \<and> r (cf_Listen c') \<and> (cf_Mode c' = ModeClient \<longrightarrow> cf_Server c' \<noteq> [] \<and> r (cf_Server c')) \<and>
     (cf_Mode c' = ModeServer \<longrightarrow> cf_WGPeer c' \<noteq> [] \<and> r (cf_WGPeer c'))"
  by (auto simp: val_mode_def Let_def or_default_def config_consts split: if_splits)

lemma val_sched_Inr:
  "val_sched s = Inr s' \<Longrightarrow>
     sc_Mode s' \<in> {SchedulerLB, SchedulerStandby} \<and> sc_Affinity s' \<in> {AffinityFlow, AffinityPacket} \<and>
     sc_BalanceBy s' \<noteq> [] \<and> \<not> flt (sc_CapacityCapMbps s') (Fin 0)"
  by (auto simp: val_sched_def Let_def or_default_def ensure_Inr BalanceByCapacity_def split: if_splits)

lemma val_sched_stable:
  "sc_Mode s \<in> {SchedulerLB, SchedulerStandby} \<Longrightarrow> sc_Affinity s \<in> {AffinityFlow, AffinityPacket} \<Longrightarrow>
     sc_BalanceBy s \<noteq> [] \<Longrightarrow> \<not> flt (sc_CapacityCapMbps s) (Fin 0) \<Longrightarrow> val_sched s = Inr s"
  by (auto simp: val_sched_def Let_def or_default_def ensure_def config_consts)

lemma val_delivery_Inr:
  "val_delivery d = Inr d' \<Longrightarrow> 10 \<le> dl_GapTimeoutMS d' \<and> dl_GapTimeoutMS d' \<le> 5000 \<and> 64 \<le> dl_MaxPending d' \<and> dl_MaxPending d' \<le> 4096"
  by (auto simp: val_delivery_def Let_def ensure_Inr DeliveryMaxPending_def split: if_splits)

lemma val_delivery_stable:
  "10 \<le> dl_GapTimeoutMS d \<Longrightarrow> dl_GapTimeoutMS d \<le> 5000 \<Longrightarrow> 64 \<le> dl_MaxPending d \<Longrightarrow> dl_MaxPending d \<le> 4096 \<Longrightarrow>
     val_delivery d = Inr d"
  by (simp add: val_delivery_def or_default_def ensure_def DeliveryMaxPending_def)

lemma val_transport_Inr:
  "val_transport m ws t = Inr t' \<Longrightarrow>
     (m = ModeClient \<longrightarrow> ws \<noteq> []) \<and> (m = ModeServer \<longrightarrow> t' \<in> {TransportUDP, TransportFakeTCP, TransportICMP})"
  by (auto simp: val_transport_def Let_def ensure_Inr split: if_splits)

lemma val_transport_stable:
  "(m = ModeClient \<longrightarrow> ws \<noteq> []) \<Longrightarrow> (m = ModeServer \<longrightarrow> t \<in> {TransportUDP, TransportFakeTCP, TransportICMP}) \<Longrightarrow>
     val_transport m ws t = Inr t"
  by (auto simp: val_transport_def Let_def or_default_def ensure_def config_consts)

lemma val_queue_Inr: "val_queue q = Inr q' \<Longrightarrow> qc_Enabled q' \<noteq> None \<and> 0 < qc_MaxBytes q' \<and> qc_Drop q' \<in> {''oldest'', ''newest''}"
  by (auto simp: val_queue_def Let_def ensure_Inr split: option.splits if_splits)

lemma val_queue_stable: "qc_Enabled q \<noteq> None \<Longrightarrow> 0 < qc_MaxBytes q \<Longrightarrow> qc_Drop q \<in> {''oldest'', ''newest''} \<Longrightarrow> val_queue q = Inr q"
  by (cases q) (auto simp: val_queue_def or_default_def ensure_def)

lemma val_telemetry_Inr:
  "val_telemetry t = Inr t' \<Longrightarrow>
     tl_Path t' \<noteq> [] \<and> \<not> flt (tl_IntervalSec t') (Fin 0) \<and> (tl_Listen t' = [] \<or> SplitHostPort (tl_Listen t') \<noteq> None)"
  by (auto simp: val_telemetry_def Let_def or_default_def ensure_Inr split: if_splits)

lemma val_telemetry_stable:
  "tl_Path t \<noteq> [] \<Longrightarrow> \<not> flt (tl_IntervalSec t) (Fin 0) \<Longrightarrow> tl_Listen t = [] \<or> SplitHostPort (tl_Listen t) \<noteq> None \<Longrightarrow>
     val_telemetry t = Inr t"
  by (auto simp: val_telemetry_def or_default_def ensure_def)

lemma Validate_valid:
  assumes "Validate r c = Inr c'"
  shows "doc_valid r c'"
proof -
  obtain m s d u f t ws h k tl q where
    st: "val_mode r c = Inr m" "val_sched (cf_Scheduler m) = Inr s" "val_delivery (cf_Delivery m) = Inr d" "val_mtu (cf_MTU m) = Inr u"
      "val_fec (sc_Affinity s) (cf_FEC m) = Inr f" "val_transport (cf_Mode m) (cf_WANs m) (cf_Transport m) = Inr t"
      "wan_loop 0 [] (cf_WANs m) = Inr ws" "val_health (cf_Health m) = Inr h" "val_crypto (cf_Crypto m) = Inr k"
      "val_telemetry (cf_Telemetry m) = Inr tl" "val_queue (cf_Queue m) = Inr q" and
    c': "c' = m\<lparr>cf_Scheduler := s, cf_Delivery := d, cf_MTU := u, cf_FEC := f, cf_Transport := t, cf_WANs := ws, cf_Health := h,
      cf_Crypto := k, cf_Log := val_log (cf_Log m), cf_Telemetry := tl, cf_Queue := q\<rparr>"
    using assms by (auto simp: Validate_def and_then_Inr Let_def)
  have u: "576 \<le> u" "u \<le> 9000" using st(4) by (auto simp: val_mtu_def Let_def ensure_Inr)
  have k: "cc_Key k \<noteq> []" "cc_Cipher k \<noteq> []" using st(9) by (auto simp: val_crypto_def or_default_def split: if_splits)
  have l: "lg_Level (val_log (cf_Log m)) \<noteq> []" by (simp add: val_log_def or_default_def)
  have ws: "ws = [] \<longleftrightarrow> cf_WANs m = []" "\<forall>w\<in>set ws. wan_valid w" "distinct (map wn_ID ws)" using wan_loop_valid [OF st(7)] by auto
  show ?thesis
    unfolding doc_valid_def c'
    using val_mode_Inr [OF st(1)] val_sched_Inr [OF st(2)] val_delivery_Inr [OF st(3)] val_fec_valid [OF st(5)] val_transport_Inr [OF st(6)]
      val_health_valid [OF st(8)] val_telemetry_Inr [OF st(10)] val_queue_Inr [OF st(11)] u k l ws
    by simp
qed

lemma val_mode_stable:
  "cf_Mode c \<in> {ModeClient, ModeServer} \<Longrightarrow> cf_Listen c \<noteq> [] \<Longrightarrow> r (cf_Listen c) \<Longrightarrow> cf_SessionID c \<noteq> [] \<Longrightarrow>
     (cf_Mode c = ModeClient \<longrightarrow> cf_Server c \<noteq> [] \<and> r (cf_Server c)) \<Longrightarrow> (cf_Mode c = ModeServer \<longrightarrow> cf_WGPeer c \<noteq> [] \<and> r (cf_WGPeer c)) \<Longrightarrow>
     val_mode r c = Inr c"
  by (auto simp: val_mode_def Let_def or_default_def config_consts)

lemma Validate_stable:
  assumes "doc_valid r c"
  shows "Validate r c = Inr c"
proof -
  note v = assms [unfolded doc_valid_def]
  have "val_mode r c = Inr c" by (rule val_mode_stable) (use v in simp_all)
  moreover have "val_sched (cf_Scheduler c) = Inr (cf_Scheduler c)" by (rule val_sched_stable) (use v in simp_all)
  moreover have "val_delivery (cf_Delivery c) = Inr (cf_Delivery c)" by (rule val_delivery_stable) (use v in simp_all)
  moreover have "val_mtu (cf_MTU c) = Inr (cf_MTU c)" using v by (simp add: val_mtu_def or_default_def ensure_def)
  moreover have "val_fec (sc_Affinity (cf_Scheduler c)) (cf_FEC c) = Inr (cf_FEC c)" by (rule val_fec_stable) (use v in simp_all)
  moreover have "val_transport (cf_Mode c) (cf_WANs c) (cf_Transport c) = Inr (cf_Transport c)"
    by (rule val_transport_stable) (use v in simp_all)
  moreover have "wan_loop 0 [] (cf_WANs c) = Inr (cf_WANs c)" by (rule wan_loop_stable) (use v in simp_all)
  moreover have "val_health (cf_Health c) = Inr (cf_Health c)" by (rule val_health_stable) (use v in simp_all)
  moreover have "val_crypto (cf_Crypto c) = Inr (cf_Crypto c)" using v by (simp add: val_crypto_def or_default_def)
  moreover have "val_log (cf_Log c) = cf_Log c" using v by (simp add: val_log_def or_default_def)
  moreover have "val_telemetry (cf_Telemetry c) = Inr (cf_Telemetry c)" by (rule val_telemetry_stable) (use v in simp_all)
  moreover have "val_queue (cf_Queue c) = Inr (cf_Queue c)" by (rule val_queue_stable) (use v in simp_all)
  ultimately show ?thesis by (simp add: Validate_def)
qed

text \<open>A client's document with only what has no default, and what validation makes of it.\<close>

definition minimal_fec :: FECCfg where
  "minimal_fec = \<lparr>fc_Enabled = True, fc_Mode = [], fc_DataShards = 0, fc_MaxLossPct = Fin 0, fc_BlockTimeoutMS = 0, fc_FixedOverheadPct = Fin 0,
     fc_AdaptMinLossPct = Fin 0, fc_AdaptResumePct = Fin 0, fc_AdaptHoldSec = Fin 0, fc_ProtectionLevel = Fin 0\<rparr>"

definition default_fec :: FECCfg where
  "default_fec = \<lparr>fc_Enabled = True, fc_Mode = FECAdaptive, fc_DataShards = 10, fc_MaxLossPct = Fin 20, fc_BlockTimeoutMS = 8,
     fc_FixedOverheadPct = Fin 0, fc_AdaptMinLossPct = Fin 2, fc_AdaptResumePct = Fin (1/2), fc_AdaptHoldSec = Fin 10, fc_ProtectionLevel = Fin 0\<rparr>"

definition minimal_doc :: Config where
  "minimal_doc = \<lparr>cf_Mode = [], cf_Listen = ''127.0.0.1:51821'', cf_Server = ''192.0.2.1:7000'', cf_WGPeer = [], cf_SessionID = [],
     cf_Scheduler = \<lparr>sc_Mode = [], sc_Affinity = [], sc_BalanceBy = [], sc_CapacityCapMbps = Fin 0\<rparr>, cf_FEC = minimal_fec, cf_MTU = 0,
     cf_WANs = [\<lparr>wn_ID = [], wn_Transport = [], wn_Iface = [], wn_LocalIP = [], wn_FIB = 0, wn_CapacityMbps = 0, wn_Weight = Fin 0,
       wn_FECMaxLossPct = None\<rparr>],
     cf_Delivery = \<lparr>dl_GapTimeoutMS = 0, dl_MaxPending = 0\<rparr>,
     cf_Health = \<lparr>hc_LossAlphaFast = Fin 0, hc_LossAlphaSlow = Fin 0, hc_JitterAlpha = Fin 0, hc_DegradeSec = Fin 0, hc_RecoverMin = Fin 0,
       hc_ProbeInterval = Fin 0, hc_DownAfterMisses = 0, hc_DownGraceSec = Fin 0\<rparr>,
     cf_Crypto = \<lparr>cc_Key = ''secret'', cc_Cipher = []\<rparr>, cf_Log = \<lparr>lg_Level = [], lg_File = []\<rparr>,
     cf_Telemetry = \<lparr>tl_Listen = ''127.0.0.1:9100'', tl_Path = [], tl_IntervalSec = Fin 0\<rparr>,
     cf_Queue = \<lparr>qc_Enabled = None, qc_MaxBytes = 0, qc_Drop = [], qc_RateLimit = True\<rparr>, cf_Transport = []\<rparr>"

definition default_doc :: Config where
  "default_doc = \<lparr>cf_Mode = ModeClient, cf_Listen = ''127.0.0.1:51821'', cf_Server = ''192.0.2.1:7000'', cf_WGPeer = [], cf_SessionID = ''auto'',
     cf_Scheduler = \<lparr>sc_Mode = SchedulerLB, sc_Affinity = AffinityPacket, sc_BalanceBy = BalanceByCapacity, sc_CapacityCapMbps = Fin 0\<rparr>,
     cf_FEC = default_fec, cf_MTU = 1420,
     cf_WANs = [\<lparr>wn_ID = ''wan1'', wn_Transport = TransportUDP, wn_Iface = [], wn_LocalIP = [], wn_FIB = 0, wn_CapacityMbps = 0, wn_Weight = Fin 1,
       wn_FECMaxLossPct = None\<rparr>],
     cf_Delivery = \<lparr>dl_GapTimeoutMS = 100, dl_MaxPending = 4096\<rparr>,
     cf_Health = \<lparr>hc_LossAlphaFast = f64_of (2/5), hc_LossAlphaSlow = f64_of (3/100), hc_JitterAlpha = f64_of (1/10), hc_DegradeSec = Fin 3,
       hc_RecoverMin = Fin 2, hc_ProbeInterval = Fin 1, hc_DownAfterMisses = 3, hc_DownGraceSec = Fin 0\<rparr>,
     cf_Crypto = \<lparr>cc_Key = ''secret'', cc_Cipher = ''chacha20poly1305''\<rparr>, cf_Log = \<lparr>lg_Level = ''info'', lg_File = []\<rparr>,
     cf_Telemetry = \<lparr>tl_Listen = ''127.0.0.1:9100'', tl_Path = ''/stats'', tl_IntervalSec = Fin 0\<rparr>,
     cf_Queue = \<lparr>qc_Enabled = Some True, qc_MaxBytes = 262144, qc_Drop = ''oldest'', qc_RateLimit = True\<rparr>, cf_Transport = []\<rparr>"

lemma minimal_fec_defaults: "val_fec AffinityPacket minimal_fec = Inr default_fec"
  by (simp add: val_fec_def val_fec_on_def fec_geometry_def fec_loss_def fec_adapt_def fec_overhead_def minimal_fec_def default_fec_def
      or_default_def ensure_def fle_def config_consts DefaultMaxLossPct_def)

lemma itoa_1: "itoa 1 = ''1''"
  by code_simp

lemma minimal_doc_defaults: "Validate (\<lambda>_. True) minimal_doc = Inr default_doc"
  using minimal_fec_defaults
  by (simp add: Validate_def val_mode_def val_sched_def val_delivery_def val_mtu_def val_transport_def val_health_def val_crypto_def val_log_def
      val_telemetry_def val_queue_def minimal_doc_def default_doc_def or_default_def ensure_def config_consts DeliveryMaxPending_def
      SplitHostPort_def last_index_def itoa_1 [simplified])

text \<open>C10: a document that passes \<open>Validate\<close> comes out with its fields in the range its section
  checks: known modes, transports and policies, resolvable addresses, distinct and non-empty
  uplink names, the delivery window no larger than the anti-replay window, an MTU the header fits,
  and the redundancy parameters the codec accepts; and these are exactly the documents that
  validation leaves as they are, so a second pass changes nothing. The cipher, the balancing rule and
  the log level are only non-empty, since \<open>Validate\<close> does not look at their values. A NaN is in every
  range: no comparison of the code rejects it.\<close>

theorem Validate_exact:
  "(\<forall>c'. Validate r c = Inr c' \<longrightarrow> doc_valid r c' \<and> Validate r c' = Inr c') \<and> (doc_valid r c \<longleftrightarrow> Validate r c = Inr c)"
  using Validate_valid Validate_stable by blast

theorem Validate_exact_witness:
  "Validate (\<lambda>_. True) minimal_doc = Inr default_doc \<and> doc_valid (\<lambda>_. True) default_doc \<and> Validate (\<lambda>_. True) default_doc = Inr default_doc"
  using Validate_exact [of "\<lambda>_. True" minimal_doc] minimal_doc_defaults by simp

end
