(* ===== verification/Frame.thy ===== *)
theory Frame
  imports FB_Prelude
begin

unbundle bit_operations_syntax

text \<open>
  The wire format of \<open>internal/frame/frame.go\<close>: the 28-byte header and the plaintext
  payload. \<open>Encode\<close> writes into a zeroed buffer field by field as the code does;
  \<open>DecodeHeader\<close> and \<open>Decode\<close> return the code's errors as values.

  Shown here: the two round trips (decode after encode, encode after decode up to the
  reserved bytes) and the exact condition for every error.
\<close>

section \<open>Constants and the frame structure\<close>

definition Magic :: u32 where "Magic = 0x464C5842"
definition Version :: u8 where "Version = 0x02"
definition HeaderSize :: nat where "HeaderSize = 28"
definition TagSize :: nat where "TagSize = 16"
definition MaxPayload :: nat where "MaxPayload = 2 ^ 16 - 1"

definition FlagFECParity :: u8 where "FlagFECParity = push_bit 0 1"
definition FlagKeepalive :: u8 where "FlagKeepalive = push_bit 1 1"
definition FlagControl :: u8 where "FlagControl = push_bit 2 1"
definition FlagFirst :: u8 where "FlagFirst = push_bit 3 1"
definition FlagPong :: u8 where "FlagPong = push_bit 4 1"
definition FlagKex :: u8 where "FlagKex = push_bit 5 1"
definition FlagPassSeq :: u8 where "FlagPassSeq = push_bit 6 1"

lemmas flag_defs [go_eval] =
  FlagFECParity_def FlagKeepalive_def FlagControl_def FlagFirst_def FlagPong_def
  FlagKex_def FlagPassSeq_def

lemmas frame_consts [go_eval] =
  Magic_def Version_def HeaderSize_def TagSize_def MaxPayload_def

record frame =
  fVersion :: u8
  fFlags :: u8
  fSessionID :: u64
  fSeq :: u32
  fBlockSeq :: u32
  fPayload :: bytes

text \<open>A composite literal leaves the fields it does not name at their zero value.\<close>

definition zero_frame :: frame where
  "zero_frame = \<lparr>fVersion = 0, fFlags = 0, fSessionID = 0, fSeq = 0, fBlockSeq = 0, fPayload = []\<rparr>"

definition HasFlag :: "frame \<Rightarrow> u8 \<Rightarrow> bool" where
  "HasFlag f flag \<longleftrightarrow> fFlags f AND flag \<noteq> 0"

datatype frame_error =
    PayloadTooLarge nat
  | FrameTooShort
  | BadMagic
  | UnsupportedVersion u8
  | LengthMismatch nat nat

section \<open>Encoding and decoding\<close>

definition Encode :: "frame \<Rightarrow> frame_error + bytes" where
  "Encode f =
     (if MaxPayload < length (fPayload f) then Inl (PayloadTooLarge (length (fPayload f)))
      else
        (let buf = make_bytes (HeaderSize + length (fPayload f));
             buf = copy_at 0 (put_u32 Magic) buf;
             buf = buf[4 := Version];
             buf = buf[5 := fFlags f];
             buf = copy_at 8 (put_u64 (fSessionID f)) buf;
             buf = copy_at 16 (put_u32 (fSeq f)) buf;
             buf = copy_at 20 (put_u32 (fBlockSeq f)) buf;
             buf = copy_at 24 (put_u16 (of_nat (length (fPayload f)))) buf;
             buf = copy_at HeaderSize (fPayload f) buf
         in Inr buf))"

definition DecodeHeader :: "bytes \<Rightarrow> frame_error + frame" where
  "DecodeHeader b =
     (if length b < HeaderSize then Inl FrameTooShort
      else if get_u32 b 0 \<noteq> Magic then Inl BadMagic
      else if b ! 4 \<noteq> Version then Inl (UnsupportedVersion (b ! 4))
      else Inr \<lparr>fVersion = b ! 4, fFlags = b ! 5, fSessionID = get_u64 b 8,
                fSeq = get_u32 b 16, fBlockSeq = get_u32 b 20, fPayload = []\<rparr>)"

definition Decode :: "bytes \<Rightarrow> frame_error + frame" where
  "Decode b =
     (case DecodeHeader b of
        Inl err \<Rightarrow> Inl err
      | Inr f \<Rightarrow>
          (let plen = unat (get_u16 b 24)
           in if length b \<noteq> HeaderSize + plen
              then Inl (LengthMismatch plen (length b - HeaderSize))
              else Inr (f\<lparr>fPayload := take plen (drop HeaderSize b)\<rparr>)))"

section \<open>The shape of an encoded frame\<close>

definition header_bytes :: "frame \<Rightarrow> bytes" where
  "header_bytes f =
     put_u32 Magic @ [Version, fFlags f, 0, 0] @ put_u64 (fSessionID f) @ put_u32 (fSeq f)
     @ put_u32 (fBlockSeq f) @ put_u16 (of_nat (length (fPayload f))) @ [0, 0]"

lemma length_header_bytes [simp, buf_simps]: "length (header_bytes f) = 28"
  by (simp add: header_bytes_def)

text \<open>Writing the fields one after the other yields the header followed by the payload.\<close>

lemma Encode_ok:
  assumes "length (fPayload f) \<le> MaxPayload"
  shows "Encode f = Inr (header_bytes f @ fPayload f)"
proof -
  define p where "p = fPayload f"
  define m :: bytes where "m = put_u32 Magic"
  define sid where "sid = put_u64 (fSessionID f)"
  define sq where "sq = put_u32 (fSeq f)"
  define bs where "bs = put_u32 (fBlockSeq f)"
  define ln :: bytes where "ln = put_u16 (of_nat (length p))"
  have len: "length m = 4" "length sid = 8" "length sq = 4" "length bs = 4" "length ln = 2"
    by (simp_all add: m_def sid_def sq_def bs_def ln_def)
  let ?z = "make_bytes (length p)"
  have b0: "make_bytes (28 + length p) =
      replicate 4 0 @ [0, 0, 0, 0] @ replicate 8 0 @ replicate 4 0 @ replicate 4 0 @ replicate 2 0 @ [0, 0] @ ?z"
    by (simp add: make_bytes_def replicate_add numeral_eq_Suc)
  have b1: "copy_at 0 m (make_bytes (28 + length p)) =
      m @ [0, 0, 0, 0] @ replicate 8 0 @ replicate 4 0 @ replicate 4 0 @ replicate 2 0 @ [0, 0] @ ?z"
    unfolding b0 using copy_at_append [of "[]" 0 m "replicate 4 0"] len by simp
  have b2: "(copy_at 0 m (make_bytes (28 + length p)))[4 := Version, 5 := fFlags f] =
      (m @ [Version, fFlags f, 0, 0]) @ replicate 8 0 @ replicate 4 0 @ replicate 4 0 @ replicate 2 0 @ [0, 0] @ ?z"
    unfolding b1 using len by (simp add: list_update_append)
  have b3: "copy_at 8 sid ((m @ [Version, fFlags f, 0, 0]) @ replicate 8 0 @ replicate 4 0 @ replicate 4 0 @ replicate 2 0 @ [0, 0] @ ?z) =
      (m @ [Version, fFlags f, 0, 0] @ sid) @ replicate 4 0 @ replicate 4 0 @ replicate 2 0 @ [0, 0] @ ?z"
    using copy_at_append [of "m @ [Version, fFlags f, 0, 0]" 8 sid "replicate 8 0"] len by simp
  have b4: "copy_at 16 sq ((m @ [Version, fFlags f, 0, 0] @ sid) @ replicate 4 0 @ replicate 4 0 @ replicate 2 0 @ [0, 0] @ ?z) =
      (m @ [Version, fFlags f, 0, 0] @ sid @ sq) @ replicate 4 0 @ replicate 2 0 @ [0, 0] @ ?z"
    using copy_at_append [of "m @ [Version, fFlags f, 0, 0] @ sid" 16 sq "replicate 4 0"] len by simp
  have b5: "copy_at 20 bs ((m @ [Version, fFlags f, 0, 0] @ sid @ sq) @ replicate 4 0 @ replicate 2 0 @ [0, 0] @ ?z) =
      (m @ [Version, fFlags f, 0, 0] @ sid @ sq @ bs) @ replicate 2 0 @ [0, 0] @ ?z"
    using copy_at_append [of "m @ [Version, fFlags f, 0, 0] @ sid @ sq" 20 bs "replicate 4 0"] len by simp
  have b6: "copy_at 24 ln ((m @ [Version, fFlags f, 0, 0] @ sid @ sq @ bs) @ replicate 2 0 @ [0, 0] @ ?z) =
      (m @ [Version, fFlags f, 0, 0] @ sid @ sq @ bs @ ln @ [0, 0]) @ ?z"
    using copy_at_append [of "m @ [Version, fFlags f, 0, 0] @ sid @ sq @ bs" 24 ln "replicate 2 0"] len by simp
  have b7: "copy_at 28 p ((m @ [Version, fFlags f, 0, 0] @ sid @ sq @ bs @ ln @ [0, 0]) @ ?z) =
      (m @ [Version, fFlags f, 0, 0] @ sid @ sq @ bs @ ln @ [0, 0]) @ p"
    by (rule copy_at_append_end) (simp_all add: len)
  show ?thesis
    unfolding Encode_def Let_def HeaderSize_def
      p_def [symmetric] m_def [symmetric] sid_def [symmetric] sq_def [symmetric] bs_def [symmetric]
      ln_def [symmetric] b2 b3 b4 b5 b6 b7
    using assms by (simp add: header_bytes_def p_def m_def sid_def sq_def bs_def ln_def)
qed

lemma Encode_error:
  "MaxPayload < length (fPayload f) \<Longrightarrow> Encode f = Inl (PayloadTooLarge (length (fPayload f)))"
  by (simp add: Encode_def)

text \<open>Reading the fields of a well-formed header in front of any continuation.\<close>

lemma header_fields:
  "get_u32 (header_bytes f @ xs) 0 = Magic"
  "(header_bytes f @ xs) ! 4 = Version"
  "(header_bytes f @ xs) ! 5 = fFlags f"
  "get_u64 (header_bytes f @ xs) 8 = fSessionID f"
  "get_u32 (header_bytes f @ xs) 16 = fSeq f"
  "get_u32 (header_bytes f @ xs) 20 = fBlockSeq f"
  "get_u16 (header_bytes f @ xs) 24 = of_nat (length (fPayload f))"
proof -
  let ?v = "[Version, fFlags f, 0, 0]"
  show "get_u32 (header_bytes f @ xs) 0 = Magic"
    using get_put_u32 [of "[]" 0 Magic] by (simp add: header_bytes_def)
  show "(header_bytes f @ xs) ! 4 = Version" "(header_bytes f @ xs) ! 5 = fFlags f"
    by (simp_all add: header_bytes_def nth_append)
  show "get_u64 (header_bytes f @ xs) 8 = fSessionID f"
    using get_put_u64 [of "put_u32 Magic @ ?v" 8 "fSessionID f"] by (simp add: header_bytes_def)
  show "get_u32 (header_bytes f @ xs) 16 = fSeq f"
    using get_put_u32 [of "put_u32 Magic @ ?v @ put_u64 (fSessionID f)" 16 "fSeq f"]
    by (simp add: header_bytes_def)
  show "get_u32 (header_bytes f @ xs) 20 = fBlockSeq f"
    using get_put_u32 [of "put_u32 Magic @ ?v @ put_u64 (fSessionID f) @ put_u32 (fSeq f)" 20 "fBlockSeq f"]
    by (simp add: header_bytes_def)
  show "get_u16 (header_bytes f @ xs) 24 = of_nat (length (fPayload f))"
    using get_put_u16 [of "put_u32 Magic @ ?v @ put_u64 (fSessionID f) @ put_u32 (fSeq f) @ put_u32 (fBlockSeq f)" 24]
    by (simp add: header_bytes_def)
qed

lemma DecodeHeader_header_bytes:
  "DecodeHeader (header_bytes f @ xs) = Inr (f\<lparr>fVersion := Version, fPayload := []\<rparr>)"
  by (simp add: DecodeHeader_def HeaderSize_def header_fields)

lemma unat_of_nat_len: "n \<le> MaxPayload \<Longrightarrow> unat (of_nat n :: u16) = n"
  by (simp add: MaxPayload_def unat_of_nat)

lemma Decode_header_bytes:
  "length (fPayload f) \<le> MaxPayload \<Longrightarrow>
     Decode (header_bytes f @ fPayload f) = Inr (f\<lparr>fVersion := Version\<rparr>)"
  by (simp add: Decode_def DecodeHeader_header_bytes HeaderSize_def header_fields unat_of_nat_len)

text \<open>A buffer of at least 28 bytes is its parsed header fields, its reserved bytes and the rest.\<close>

lemma header_split:
  assumes "28 \<le> length b"
  shows "b = put_u32 (get_u32 b 0) @ [b ! 4, b ! 5, b ! 6, b ! 7] @ put_u64 (get_u64 b 8)
             @ put_u32 (get_u32 b 16) @ put_u32 (get_u32 b 20) @ put_u16 (get_u16 b 24)
             @ [b ! 26, b ! 27] @ drop 28 b"
proof -
  have four: "[b ! 4, b ! 5, b ! 6, b ! 7] = take 4 (drop 4 b)"
    and two: "[b ! 26, b ! 27] = take 2 (drop 26 b)"
    using assms by (auto intro!: nth_equalityI simp: nth_Cons' less_Suc_eq numeral_eq_Suc)
  have cut: "take n (drop i b) @ drop (i + n) b = drop i b" for n i
    by (metis add.commute append_take_drop_id drop_drop)
  have "put_u32 (get_u32 b 0) @ [b ! 4, b ! 5, b ! 6, b ! 7] @ put_u64 (get_u64 b 8)
             @ put_u32 (get_u32 b 16) @ put_u32 (get_u32 b 20) @ put_u16 (get_u16 b 24)
             @ [b ! 26, b ! 27] @ drop 28 b = drop 0 b"
    unfolding four two
    using assms cut [of 2 26] cut [of 2 24] cut [of 4 20] cut [of 4 16] cut [of 8 8] cut [of 4 4] cut [of 4 0]
    by (simp add: put_get_u16 put_get_u32 put_get_u64)
  then show ?thesis by simp
qed

lemma Decode_InrD:
  assumes "Decode b = Inr f"
  shows "length b = 28 + length (fPayload f)" and "length (fPayload f) = unat (get_u16 b 24)"
    and "get_u32 b 0 = Magic" and "b ! 4 = Version"
    and "f = \<lparr>fVersion = Version, fFlags = b ! 5, fSessionID = get_u64 b 8, fSeq = get_u32 b 16,
              fBlockSeq = get_u32 b 20, fPayload = drop 28 b\<rparr>"
  using assms
  by (auto simp: Decode_def DecodeHeader_def HeaderSize_def Let_def split: if_splits sum.splits)

lemma DecodeHeader_of_Decode:
  "Decode b = Inr f \<Longrightarrow> DecodeHeader b = Inr (f\<lparr>fPayload := []\<rparr>)"
  by (auto simp: Decode_def DecodeHeader_def Let_def split: if_splits)

section \<open>Properties\<close>

text \<open>C9: Decoding an encoded frame gives the frame back, with the protocol version the encoder
  stamps. The hypothesis is the encoder's own size check.\<close>

theorem Decode_Encode:
  assumes "length (fPayload f) \<le> MaxPayload"
  shows "\<exists>b. Encode f = Inr b \<and> length b = HeaderSize + length (fPayload f)
           \<and> Decode b = Inr (f\<lparr>fVersion := Version\<rparr>)
           \<and> DecodeHeader b = Inr (f\<lparr>fVersion := Version, fPayload := []\<rparr>)"
  using assms
  by (simp add: Encode_ok Decode_header_bytes DecodeHeader_header_bytes HeaderSize_def)

theorem Decode_Encode_witness:
  "Encode (zero_frame\<lparr>fFlags := FlagKeepalive, fSessionID := 7, fSeq := 258, fPayload := [1, 2, 3]\<rparr>)
     = Inr [0x46, 0x4C, 0x58, 0x42, 2, 2, 0, 0, 0, 0, 0, 0, 0, 0, 0, 7, 0, 0, 1, 2, 0, 0, 0, 0, 0, 3, 0, 0, 1, 2, 3]
   \<and> Decode [0x46, 0x4C, 0x58, 0x42, 2, 2, 0, 0, 0, 0, 0, 0, 0, 0, 0, 7, 0, 0, 1, 2, 0, 0, 0, 0, 0, 3, 0, 0, 1, 2, 3]
     = Inr (zero_frame\<lparr>fVersion := 2, fFlags := FlagKeepalive, fSessionID := 7, fSeq := 258, fPayload := [1, 2, 3]\<rparr>)"
proof -
  let ?f = "zero_frame\<lparr>fFlags := FlagKeepalive, fSessionID := 7, fSeq := 258, fPayload := [1, 2, 3]\<rparr>"
  let ?b = "[0x46, 0x4C, 0x58, 0x42, 2, 2, 0, 0, 0, 0, 0, 0, 0, 0, 0, 7, 0, 0, 1, 2, 0, 0, 0, 0, 0, 3, 0, 0, 1, 2, 3] :: bytes"
  have len: "length (fPayload ?f) \<le> MaxPayload" by (simp add: MaxPayload_def)
  then have "Encode ?f = Inr ?b"
    by (simp add: Encode_ok header_bytes_def go_eval zero_frame_def)
  then show ?thesis
    using Decode_Encode [OF len] by (auto simp: Version_def)
qed

text \<open>The encoder accepts exactly what the decoder produces: whatever \<open>Decode\<close> returns is a
  frame within the size limit, and encoding it again reproduces the buffer with the four
  reserved bytes cleared.\<close>

theorem Encode_Decode:
  assumes "Decode b = Inr f"
  shows "Encode f = Inr (b[6 := 0, 7 := 0, 26 := 0, 27 := 0])"
proof -
  note d = Decode_InrD [OF assms]
  have "unat (get_u16 b 24) < 2 ^ 16" using unsigned_less [of "get_u16 b 24"] by simp
  then have len: "length (fPayload f) \<le> MaxPayload"
    using d(2) by (simp add: MaxPayload_def)
  have plen: "of_nat (length (fPayload f)) = get_u16 b 24" using d(2) by simp
  have "header_bytes f @ fPayload f =
      (put_u32 (get_u32 b 0) @ [b ! 4, b ! 5, b ! 6, b ! 7] @ put_u64 (get_u64 b 8)
       @ put_u32 (get_u32 b 16) @ put_u32 (get_u32 b 20) @ put_u16 (get_u16 b 24)
       @ [b ! 26, b ! 27] @ drop 28 b)[6 := 0, 7 := 0, 26 := 0, 27 := 0]"
    unfolding header_bytes_def plen using d(3,4,5)
    by (simp add: list_update_append)
  also have "\<dots> = b[6 := 0, 7 := 0, 26 := 0, 27 := 0]"
    using header_split [of b] d(1) by simp
  finally show ?thesis using Encode_ok [OF len] by simp
qed

theorem Encode_Decode_witness:
  "Decode [0x46, 0x4C, 0x58, 0x42, 2, 64, 9, 9, 0, 0, 0, 0, 0, 0, 0, 7, 0, 0, 1, 2, 0, 0, 0, 5, 0, 1, 9, 9, 77]
     = Inr (zero_frame\<lparr>fVersion := 2, fFlags := 64, fSessionID := 7, fSeq := 258, fBlockSeq := 5, fPayload := [77]\<rparr>)
   \<and> Encode (zero_frame\<lparr>fVersion := 2, fFlags := 64, fSessionID := 7, fSeq := 258, fBlockSeq := 5, fPayload := [77]\<rparr>)
     = Inr [0x46, 0x4C, 0x58, 0x42, 2, 64, 0, 0, 0, 0, 0, 0, 0, 0, 0, 7, 0, 0, 1, 2, 0, 0, 0, 5, 0, 1, 0, 0, 77]"
proof -
  let ?b = "[0x46, 0x4C, 0x58, 0x42, 2, 64, 9, 9, 0, 0, 0, 0, 0, 0, 0, 7, 0, 0, 1, 2, 0, 0, 0, 5, 0, 1, 9, 9, 77] :: bytes"
  have d: "Decode ?b = Inr (zero_frame\<lparr>fVersion := 2, fFlags := 64, fSessionID := 7, fSeq := 258,
      fBlockSeq := 5, fPayload := [77]\<rparr>)"
    by (simp add: Decode_def DecodeHeader_def go_eval zero_frame_def Let_def)
  show ?thesis using d Encode_Decode [OF d] by simp
qed

text \<open>The decoder does not look at the four reserved bytes.\<close>

lemma Decode_reserved: "Decode (b[6 := w, 7 := x, 26 := y, 27 := z]) = Decode b"
proof (cases "28 \<le> length b")
  case True
  let ?b = "b[6 := w, 7 := x, 26 := y, 27 := z]"
  have "get_u32 ?b 0 = get_u32 b 0" "get_u32 ?b 16 = get_u32 b 16" "get_u32 ?b 20 = get_u32 b 20" "get_u64 ?b 8 = get_u64 b 8"
    "get_u16 ?b 24 = get_u16 b 24" by (simp_all add: get_u64_def get_u32_def get_u16_def)
  moreover have "drop 28 ?b = drop 28 b" by (simp add: drop_update_cancel)
  ultimately show ?thesis using True by (simp add: Decode_def DecodeHeader_def HeaderSize_def Let_def)
next
  case False
  then show ?thesis by (simp add: Decode_def DecodeHeader_def HeaderSize_def)
qed

text \<open>C19: Every buffer is classified, every error with its value: \<open>Decode\<close> reports a short buffer, a wrong
  magic, a wrong version with the version found, or a length mismatch with the announced and the
  actual payload length, checked in this order; no other error occurs.  It returns the frame \<open>f\<close>
  exactly when \<open>f\<close> has the protocol version and the buffer is the encoding of \<open>f\<close> up to the four
  reserved bytes.\<close>

theorem Decode_exact:
  "(Decode b = Inl FrameTooShort \<longleftrightarrow> length b < HeaderSize)
   \<and> (Decode b = Inl BadMagic \<longleftrightarrow> HeaderSize \<le> length b \<and> get_u32 b 0 \<noteq> Magic)
   \<and> (Decode b = Inl (UnsupportedVersion v) \<longleftrightarrow>
        HeaderSize \<le> length b \<and> get_u32 b 0 = Magic \<and> b ! 4 \<noteq> Version \<and> v = b ! 4)
   \<and> (Decode b = Inl (LengthMismatch n m) \<longleftrightarrow>
        HeaderSize \<le> length b \<and> get_u32 b 0 = Magic \<and> b ! 4 = Version
        \<and> length b \<noteq> HeaderSize + unat (get_u16 b 24) \<and> n = unat (get_u16 b 24) \<and> m = length b - HeaderSize)
   \<and> Decode b \<noteq> Inl (PayloadTooLarge k)
   \<and> (Decode b = Inr f \<longleftrightarrow> fVersion f = Version \<and> Encode f = Inr (b[6 := 0, 7 := 0, 26 := 0, 27 := 0]))"
proof -
  have "Decode b = Inr f" if v: "fVersion f = Version" and e: "Encode f = Inr (b[6 := 0, 7 := 0, 26 := 0, 27 := 0])"
  proof -
    have "length (fPayload f) \<le> MaxPayload" using e Encode_error [of f] by force
    then have "Decode (b[6 := 0, 7 := 0, 26 := 0, 27 := 0]) = Inr (f\<lparr>fVersion := Version\<rparr>)"
      using e Encode_ok Decode_header_bytes by fastforce
    then show ?thesis using v by (simp add: Decode_reserved)
  qed
  moreover have "fVersion f = Version \<and> Encode f = Inr (b[6 := 0, 7 := 0, 26 := 0, 27 := 0])" if "Decode b = Inr f"
    using Encode_Decode [OF that] Decode_InrD(5) [OF that] by (cases f) simp
  ultimately have "Decode b = Inr f \<longleftrightarrow> fVersion f = Version \<and> Encode f = Inr (b[6 := 0, 7 := 0, 26 := 0, 27 := 0])" by blast
  moreover have "(Decode b = Inl FrameTooShort \<longleftrightarrow> length b < HeaderSize)
   \<and> (Decode b = Inl BadMagic \<longleftrightarrow> HeaderSize \<le> length b \<and> get_u32 b 0 \<noteq> Magic)
   \<and> (Decode b = Inl (UnsupportedVersion v) \<longleftrightarrow> HeaderSize \<le> length b \<and> get_u32 b 0 = Magic \<and> b ! 4 \<noteq> Version \<and> v = b ! 4)"
    by (auto simp: Decode_def DecodeHeader_def Let_def split: if_splits sum.splits)
  moreover have "Decode b \<noteq> Inl (PayloadTooLarge k)" by (auto simp: Decode_def DecodeHeader_def Let_def split: if_splits sum.splits)
  moreover have "Decode b = Inl (LengthMismatch n m) \<longleftrightarrow> HeaderSize \<le> length b \<and> get_u32 b 0 = Magic \<and> b ! 4 = Version
        \<and> length b \<noteq> HeaderSize + unat (get_u16 b 24) \<and> n = unat (get_u16 b 24) \<and> m = length b - HeaderSize"
    by (auto simp: Decode_def DecodeHeader_def Let_def split: if_splits sum.splits)
  ultimately show ?thesis by blast
qed

end
