(* ===== verification/Fec_Encoder.thy ===== *)
theory Fec_Encoder
  imports Frame Float64 FB_Prelude
begin

unbundle bit_operations_syntax

text \<open>
  The forward-error-correction encoder of \<open>internal/fec/fec.go\<close>: parameters, the
  code/pass-through decision, the sizing of the redundancy, and the emission of blocks.
  The Reed-Solomon library is an argument \<open>rs_New\<close>: a constructor that yields a codec (its
  \<open>Encode\<close> and \<open>Reconstruct\<close>) or fails. Frames are values; stamping a frame through its
  pointer returns the stamped frame. Every \<open>time.Now()\<close> of a call is the argument \<open>now\<close>.

  Shown here: the redundancy stays within the bounds of the code, the encoder neither
  loses nor duplicates nor reorders data frames, and an emitted block has the documented
  layout.
\<close>

section \<open>The Reed-Solomon library\<close>

text \<open>
  A codec works on a list of shards, data first; an empty shard is a missing one.
\<close>

record rs_codec =
  rs_Encode :: "bytes list \<Rightarrow> bytes list option"
  rs_Reconstruct :: "bytes list \<Rightarrow> bytes list option"

type_synonym rs_lib = "int \<Rightarrow> int \<Rightarrow> rs_codec option"

text \<open>
  The documented behaviour of a codec for \<open>k\<close> data and \<open>p\<close> parity shards: \<open>Encode\<close> takes
  \<open>k + p\<close> shards of one nonzero size, keeps the data shards and fills the parity shards;
  \<open>Reconstruct\<close> rebuilds an encoded set in which at most \<open>p\<close> shards are missing.
\<close>

definition rs_valid :: "nat \<Rightarrow> nat \<Rightarrow> nat \<Rightarrow> bytes list \<Rightarrow> bool" where
  "rs_valid k p sz shards \<longleftrightarrow> length shards = k + p \<and> 0 < sz \<and> (\<forall>s\<in>set shards. length s = sz)"

definition rs_erased :: "bytes list \<Rightarrow> bytes list \<Rightarrow> bool" where
  "rs_erased full part \<longleftrightarrow> list_all2 (\<lambda>f s. s = f \<or> s = []) full part"

definition rs_ok :: "rs_codec \<Rightarrow> nat \<Rightarrow> nat \<Rightarrow> bool" where
  "rs_ok rs k p \<longleftrightarrow>
     (\<forall>sz shards. rs_valid k p sz shards \<longrightarrow>
        (\<exists>full. rs_Encode rs shards = Some full \<and> rs_valid k p sz full \<and> take k full = take k shards)) \<and>
     (\<forall>sz shards full part. rs_valid k p sz shards \<longrightarrow> rs_Encode rs shards = Some full \<longrightarrow>
        rs_erased full part \<longrightarrow> k \<le> length (filter (\<lambda>s. s \<noteq> []) part) \<longrightarrow>
        rs_Reconstruct rs part = Some full)"

section \<open>Parameters\<close>

definition DefaultDataShards :: int where "DefaultDataShards = 10"

record AdaptiveParams =
  OnLossPct :: f64
  OffLossPct :: f64
  Hold :: int
  MaxLossPct :: f64
  Safety :: f64

record Params =
  DataShards :: int
  ParityShards :: int
  BlockTimeout :: int
  Adaptive :: "AdaptiveParams option"
  CrossPath :: bool
  CrossPathMinParity :: int

definition Enabled :: "Params \<Rightarrow> bool" where
  "Enabled p \<longleftrightarrow> 0 < ParityShards p"

definition parityHdrFixed :: nat where "parityHdrFixed = 8"

definition ParityHeaderSize :: "nat \<Rightarrow> nat" where
  "ParityHeaderSize dataShards = parityHdrFixed + 4 * dataShards + 2 * dataShards"

text \<open>The defaults that both constructors fill in.\<close>

definition fill_params :: "Params \<Rightarrow> Params" where
  "fill_params p =
     (let p = (if DataShards p \<le> 0 then p\<lparr>DataShards := DefaultDataShards\<rparr> else p)
      in if BlockTimeout p \<le> 0 then p\<lparr>BlockTimeout := 8 * Millisecond\<rparr> else p)"

section \<open>State\<close>

record Encoder =
  e_params :: Params
  e_rs :: "rs_codec option"
  e_block :: u32
  e_pending :: "frame list"
  e_blockStart :: "int option"
  e_lossRate :: f64
  e_codingOn :: bool
  e_codingSince :: "int option"
  e_rsParity :: int
  e_blocksCoded :: nat

datatype fec_error = RSNewFailed int int

definition NewEncoder :: "rs_lib \<Rightarrow> Params \<Rightarrow> fec_error + Encoder" where
  "NewEncoder rs_New p =
     (let p = fill_params p;
          e = \<lparr>e_params = p, e_rs = None, e_block = 0, e_pending = [], e_blockStart = None,
               e_lossRate = Fin 0, e_codingOn = (Adaptive p = None \<or> CrossPath p), e_codingSince = None,
               e_rsParity = ParityShards p, e_blocksCoded = 0\<rparr>
      in if Enabled p then
           (case rs_New (DataShards p) (ParityShards p) of
              None \<Rightarrow> Inl (RSNewFailed (DataShards p) (ParityShards p))
            | Some rs \<Rightarrow> Inr (e\<lparr>e_rs := Some rs\<rparr>))
         else Inr e)"

section \<open>Sizing the redundancy\<close>

definition parity_target :: "Encoder \<Rightarrow> f64 \<Rightarrow> f64" where
  "parity_target e loss =
     (case Adaptive (e_params e) of
        None \<Rightarrow> Fin 0
      | Some a \<Rightarrow>
          (let target = fmul (fdiv loss (fsub (Fin 1) loss)) (Safety a);
               capLoss = fdiv (MaxLossPct a) (Fin 100);
               cap = fdiv capLoss (fsub (Fin 1) capLoss)
           in if flt cap target then cap else target))"

definition parityForLoss :: "Encoder \<Rightarrow> f64 \<Rightarrow> int" where
  "parityForLoss e loss =
     (let k = DataShards (e_params e);
          target = parity_target e loss;
          parity = f64_trunc (fceil (fmul (f64_of_int k) target));
          parity = (if parity < 1 then 1 else parity);
          parity = (if parity < CrossPathMinParity (e_params e) then CrossPathMinParity (e_params e) else parity);
          parity = (if 256 < k + parity then 256 - k else parity)
      in if \<not> CrossPath (e_params e) \<and> ParityShards (e_params e) < parity
         then ParityShards (e_params e) else parity)"

definition rebuildLocked :: "rs_lib \<Rightarrow> Encoder \<Rightarrow> Encoder" where
  "rebuildLocked rs_New e =
     (let parity = parityForLoss e (e_lossRate e) in
      if parity \<noteq> e_rsParity e then
        (case rs_New (DataShards (e_params e)) parity of
           None \<Rightarrow> e
         | Some rs \<Rightarrow> e\<lparr>e_rs := Some rs, e_rsParity := parity\<rparr>)
      else e)"

text \<open>\<open>now.Sub(t)\<close>; the difference to the zero time saturates at the largest duration.\<close>

definition since :: "int \<Rightarrow> int option \<Rightarrow> int" where
  "since now t = (case t of None \<Rightarrow> 2 ^ 63 - 1 | Some t \<Rightarrow> now - t)"

definition refreshLocked :: "rs_lib \<Rightarrow> Encoder \<Rightarrow> int \<Rightarrow> Encoder" where
  "refreshLocked rs_New e now =
     (case (Adaptive (e_params e), CrossPath (e_params e)) of
        (Some a, False) \<Rightarrow>
          (let lossPct = fmul (e_lossRate e) (Fin 100);
               e = (if \<not> e_codingOn e then
                      (if fle (OnLossPct a) lossPct then e\<lparr>e_codingOn := True, e_codingSince := Some now\<rparr> else e)
                    else if flt lossPct (OffLossPct a) \<and> Hold a \<le> since now (e_codingSince e)
                    then e\<lparr>e_codingOn := False\<rparr> else e)
           in if e_codingOn e then rebuildLocked rs_New e else e)
      | (_, cross) \<Rightarrow>
          (let e = e\<lparr>e_codingOn := True\<rparr> in if cross then rebuildLocked rs_New e else e))"

definition SetLossRate :: "rs_lib \<Rightarrow> Encoder \<Rightarrow> f64 \<Rightarrow> int \<Rightarrow> Encoder" where
  "SetLossRate rs_New e rate now =
     (let rate = (if flt rate (Fin 0) then Fin 0 else rate);
          rate = (if flt (Fin 1) rate then Fin 1 else rate)
      in refreshLocked rs_New (e\<lparr>e_lossRate := rate\<rparr>) now)"

section \<open>Emitting blocks\<close>

definition markPassSeq :: "frame list \<Rightarrow> frame list" where
  "markPassSeq frames = map (\<lambda>f. f\<lparr>fFlags := fFlags f OR FlagPassSeq\<rparr>) frames"

definition stamp_block :: "u32 \<Rightarrow> frame list \<Rightarrow> frame list" where
  "stamp_block bs = map (\<lambda>f. f\<lparr>fBlockSeq := bs\<rparr>)"

definition max_payload :: "frame list \<Rightarrow> nat" where
  "max_payload data = foldl (\<lambda>m f. if m < length (fPayload f) then length (fPayload f) else m) 0 data"

text \<open>The shards given to the codec: \<open>n\<close> zeroed buffers, the payloads copied into the first.\<close>

definition block_shards :: "frame list \<Rightarrow> nat \<Rightarrow> nat \<Rightarrow> bytes list" where
  "block_shards data n maxLen =
     foldl (\<lambda>sh (i, f). sh[i := copy_at 0 (fPayload f) (sh ! i)])
       (replicate n (make_bytes maxLen)) (zip [0..<length data] data)"

text \<open>The sub-header shared by all parity frames of a block; the shard area is still zero.\<close>

definition parity_sub :: "frame list \<Rightarrow> nat \<Rightarrow> nat \<Rightarrow> nat \<Rightarrow> bytes" where
  "parity_sub data k parity maxLen =
     (let sub = make_bytes (ParityHeaderSize k + maxLen);
          sub = copy_at 0 (put_u16 (of_nat k)) sub;
          sub = copy_at 6 (put_u16 (of_nat parity)) sub;
          sub = foldl (\<lambda>sub (i, f). copy_at (parityHdrFixed + 4 * i) (put_u32 (fSeq f)) sub)
                  sub (zip [0..<length data] data);
          sub = foldl (\<lambda>sub (i, f). copy_at (parityHdrFixed + 4 * k + 2 * i) (put_u16 (of_nat (length (fPayload f)))) sub)
                  sub (zip [0..<length data] data)
      in copy_at 4 (put_u16 (of_nat maxLen)) sub)"

text \<open>
  The loop over the parity frames. \<open>sub\<close> is one buffer: each pass overwrites the index and
  the shard area and copies the buffer into the frame.
\<close>

fun parity_loop :: "u64 \<Rightarrow> u32 \<Rightarrow> nat \<Rightarrow> bytes list \<Rightarrow> nat \<Rightarrow> bytes \<Rightarrow> frame list" where
  "parity_loop sid bs k [] i sub = []"
| "parity_loop sid bs k (shard # shards) i sub =
     (let sub = copy_at 2 (put_u16 (of_nat i)) sub;
          sub = copy_at (ParityHeaderSize k) shard sub;
          pf = zero_frame\<lparr>fSessionID := sid, fBlockSeq := bs, fFlags := FlagFECParity, fPayload := sub\<rparr>
      in pf # parity_loop sid bs k shards (i + 1) sub)"

text \<open>
  \<open>emitBlock\<close>. The encoder of an enabled codec is never nil (\<open>enc_inv\<close> below), so the case
  \<open>None\<close> of \<open>e_rs\<close> is not reached.
\<close>

definition emitBlock :: "Encoder \<Rightarrow> Encoder \<times> frame list" where
  "emitBlock e =
     (let e = e\<lparr>e_block := e_block e + 1, e_blocksCoded := e_blocksCoded e + 1\<rparr>;
          bs = e_block e;
          data = e_pending e;
          e = e\<lparr>e_pending := []\<rparr>;
          maxLen = max_payload data;
          k = nat (DataShards (e_params e));
          parity = nat (e_rsParity e);
          shards = block_shards data (k + parity) maxLen
      in case Option.bind (e_rs e) (\<lambda>rs. rs_Encode rs shards) of
           None \<Rightarrow> (e, stamp_block bs data)
         | Some shards \<Rightarrow>
             (e, stamp_block bs data @
                 parity_loop (fSessionID (hd data)) bs k (take parity (drop k shards)) 0
                   (parity_sub data k parity maxLen)))"

definition Encoder_Push :: "rs_lib \<Rightarrow> Encoder \<Rightarrow> frame \<Rightarrow> int \<Rightarrow> Encoder \<times> frame list" where
  "Encoder_Push rs_New e f now =
     (if \<not> Enabled (e_params e) then (e, markPassSeq [f])
      else
        (let e = refreshLocked rs_New e now in
         if \<not> e_codingOn e then (e\<lparr>e_pending := []\<rparr>, markPassSeq (e_pending e @ [f]))
         else
           (let e = (if length (e_pending e) = 0 then e\<lparr>e_blockStart := Some now\<rparr> else e);
                e = e\<lparr>e_pending := e_pending e @ [f]\<rparr>
            in if int (length (e_pending e)) < DataShards (e_params e) then (e, []) else emitBlock e)))"

definition Encoder_Tick :: "rs_lib \<Rightarrow> Encoder \<Rightarrow> int \<Rightarrow> Encoder \<times> frame list" where
  "Encoder_Tick rs_New e now =
     (if \<not> Enabled (e_params e) then (e, [])
      else
        (let e = refreshLocked rs_New e now in
         if \<not> e_codingOn e then (e\<lparr>e_pending := []\<rparr>, e_pending e)
         else if length (e_pending e) = 0 then (e, [])
         else if (case e_blockStart e of None \<Rightarrow> False | Some t \<Rightarrow> now < t + BlockTimeout (e_params e)) then (e, [])
         else
           (let e = e\<lparr>e_block := e_block e + 1, e_blocksCoded := e_blocksCoded e + 1\<rparr>;
                out = stamp_block (e_block e) (e_pending e)
            in (e\<lparr>e_pending := []\<rparr>, out))))"

definition Encoder_Stats :: "Encoder \<Rightarrow> nat" where
  "Encoder_Stats e = e_blocksCoded e"

definition CodingOn :: "Encoder \<Rightarrow> bool" where
  "CodingOn e = e_codingOn e"

section \<open>Bounds of the redundancy\<close>

lemma parityForLoss_bounds:
  assumes "0 < DataShards (e_params e)" "DataShards (e_params e) \<le> 255" "1 \<le> ParityShards (e_params e)"
  shows "1 \<le> parityForLoss e l" "DataShards (e_params e) + parityForLoss e l \<le> 256"
    "\<not> CrossPath (e_params e) \<Longrightarrow> parityForLoss e l \<le> ParityShards (e_params e)"
  using assms by (auto simp: parityForLoss_def Let_def)

section \<open>The invariant\<close>

definition enc_params_ok :: "Params \<Rightarrow> bool" where
  "enc_params_ok p \<longleftrightarrow> 0 < DataShards p \<and> DataShards p \<le> 255 \<and> DataShards p + ParityShards p \<le> 256"

definition enc_inv :: "rs_lib \<Rightarrow> Encoder \<Rightarrow> bool" where
  "enc_inv rs_New e \<longleftrightarrow>
     enc_params_ok (e_params e) \<and> int (length (e_pending e)) < DataShards (e_params e) \<and>
     (if Enabled (e_params e)
      then e_rs e \<noteq> None \<and> e_rs e = rs_New (DataShards (e_params e)) (e_rsParity e) \<and>
           1 \<le> e_rsParity e \<and> DataShards (e_params e) + e_rsParity e \<le> 256 \<and>
           (\<not> CrossPath (e_params e) \<longrightarrow> e_rsParity e \<le> ParityShards (e_params e))
      else e_pending e = [])"

lemma fill_params_ok: "DataShards p \<le> 255 \<Longrightarrow> ParityShards p \<le> 246 \<Longrightarrow>
   DataShards p + ParityShards p \<le> 256 \<Longrightarrow> enc_params_ok (fill_params p)"
  by (simp add: enc_params_ok_def fill_params_def Let_def DefaultDataShards_def)

lemma enc_inv_New:
  assumes "NewEncoder rs_New p = Inr e" "enc_params_ok (fill_params p)"
  shows "enc_inv rs_New e"
  using assms
  by (auto simp: NewEncoder_def Let_def enc_inv_def enc_params_ok_def Enabled_def split: if_splits option.splits)

lemma rebuild_frame [simp]:
  "e_params (rebuildLocked rs_New e) = e_params e" "e_pending (rebuildLocked rs_New e) = e_pending e"
  "e_codingOn (rebuildLocked rs_New e) = e_codingOn e" "e_block (rebuildLocked rs_New e) = e_block e"
  by (simp_all add: rebuildLocked_def Let_def split: option.split)

lemma enc_inv_rebuild:
  assumes "enc_inv rs_New e" "Enabled (e_params e)"
  shows "enc_inv rs_New (rebuildLocked rs_New e)"
proof -
  have "0 < DataShards (e_params e)" "DataShards (e_params e) \<le> 255" "1 \<le> ParityShards (e_params e)"
    using assms by (auto simp: enc_inv_def enc_params_ok_def Enabled_def)
  note b = parityForLoss_bounds [OF this]
  show ?thesis using assms b by (auto simp: enc_inv_def rebuildLocked_def Let_def split: option.split)
qed

lemma enc_inv_frame:
  "enc_inv rs_New (e\<lparr>e_codingOn := c\<rparr>) = enc_inv rs_New e"
  "enc_inv rs_New (e\<lparr>e_codingOn := c, e_codingSince := t\<rparr>) = enc_inv rs_New e"
  "enc_inv rs_New (e\<lparr>e_lossRate := r\<rparr>) = enc_inv rs_New e"
  "enc_inv rs_New (e\<lparr>e_blockStart := t\<rparr>) = enc_inv rs_New e"
  by (simp_all add: enc_inv_def)

lemma refresh_frame [simp]:
  "e_params (refreshLocked rs_New e now) = e_params e" "e_pending (refreshLocked rs_New e now) = e_pending e"
  "e_block (refreshLocked rs_New e now) = e_block e"
  by (simp_all add: refreshLocked_def Let_def split: option.split bool.split)

lemma enc_inv_refresh:
  assumes "enc_inv rs_New e" "Enabled (e_params e)"
  shows "enc_inv rs_New (refreshLocked rs_New e now)"
  using assms
  by (auto simp: refreshLocked_def Let_def enc_inv_rebuild enc_inv_frame split: option.split bool.split)

lemma enc_inv_SetLossRate:
  assumes "enc_inv rs_New e" "Enabled (e_params e)"
  shows "enc_inv rs_New (SetLossRate rs_New e r now)"
  using assms by (simp add: SetLossRate_def Let_def enc_inv_refresh enc_inv_frame)

lemma emitBlock_frame:
  "e_pending (fst (emitBlock e)) = []" "e_params (fst (emitBlock e)) = e_params e"
  "e_rs (fst (emitBlock e)) = e_rs e" "e_rsParity (fst (emitBlock e)) = e_rsParity e"
  "e_block (fst (emitBlock e)) = e_block e + 1"
  by (simp_all add: emitBlock_def Let_def split: option.split)

lemma enc_inv_clear: "enc_inv rs_New e \<Longrightarrow> enc_inv rs_New (e\<lparr>e_pending := []\<rparr>)"
  by (auto simp: enc_inv_def enc_params_ok_def)

lemma enc_inv_emit:
  assumes "enc_inv rs_New e"
  shows "enc_inv rs_New (fst (emitBlock (e\<lparr>e_pending := fs\<rparr>)))"
  using enc_inv_clear [OF assms] by (auto simp: enc_inv_def emitBlock_frame)

lemma enc_inv_Push: "enc_inv rs_New e \<Longrightarrow> enc_inv rs_New (fst (Encoder_Push rs_New e f now))"
  using enc_inv_refresh [of rs_New e now] enc_inv_emit [of rs_New "(refreshLocked rs_New e now)\<lparr>e_blockStart := Some now\<rparr>"]
    enc_inv_emit [of rs_New "refreshLocked rs_New e now"]
  by (auto simp: Encoder_Push_def Let_def enc_inv_clear enc_inv_frame) (auto simp: enc_inv_def)

lemma enc_inv_Tick: "enc_inv rs_New e \<Longrightarrow> enc_inv rs_New (fst (Encoder_Tick rs_New e now))"
  using enc_inv_refresh [of rs_New e now] enc_inv_clear [of rs_New "refreshLocked rs_New e now"]
  by (auto simp: Encoder_Tick_def Let_def) (auto simp: enc_inv_def)

section \<open>Runs\<close>

datatype enc_event = EncPush frame int | EncTick int | EncLoss f64 int

fun enc_step :: "rs_lib \<Rightarrow> Encoder \<Rightarrow> enc_event \<Rightarrow> Encoder \<times> frame list" where
  "enc_step rs_New e (EncPush f now) = Encoder_Push rs_New e f now"
| "enc_step rs_New e (EncTick now) = Encoder_Tick rs_New e now"
| "enc_step rs_New e (EncLoss r now) = (SetLossRate rs_New e r now, [])"

definition pushed :: "enc_event list \<Rightarrow> frame list" where
  "pushed es = concat (map (\<lambda>ev. case ev of EncPush f _ \<Rightarrow> [f] | _ \<Rightarrow> []) es)"

text \<open>
  \<open>SetLossRate\<close> of a disabled encoder still rebuilds a codec when \<open>CrossPath\<close> or
  \<open>Adaptive\<close> is set; the parameters the tunnel derives for a disabled encoder set neither.
\<close>

interpretation enc: stateful "enc_step rs_New" "\<lambda>e. enc_inv rs_New e \<and> Enabled (e_params e)" "\<lambda>_. True" for rs_New
proof
  fix e :: Encoder and ev
  assume e: "enc_inv rs_New e \<and> Enabled (e_params e)"
  have "e_params (fst (enc_step rs_New e ev)) = e_params e"
    by (cases ev) (auto simp: Encoder_Push_def Encoder_Tick_def SetLossRate_def Let_def emitBlock_frame)
  moreover have "enc_inv rs_New (fst (enc_step rs_New e ev))"
    using e by (cases ev) (simp_all add: enc_inv_Push enc_inv_Tick enc_inv_SetLossRate)
  ultimately show "enc_inv rs_New (fst (enc_step rs_New e ev)) \<and> Enabled (e_params (fst (enc_step rs_New e ev)))"
    using e by simp
qed

section \<open>Data frames pass unchanged\<close>

text \<open>A frame without the marks the encoder sets.\<close>

definition unmarked :: "frame \<Rightarrow> frame" where
  "unmarked f = f\<lparr>fFlags := fFlags f AND NOT FlagPassSeq, fBlockSeq := 0\<rparr>"

definition is_parity :: "frame \<Rightarrow> bool" where
  "is_parity f \<longleftrightarrow> HasFlag f FlagFECParity"

lemma unmarked_marks [simp]:
  "unmarked (f\<lparr>fBlockSeq := b\<rparr>) = unmarked f" "unmarked (f\<lparr>fFlags := fFlags f OR FlagPassSeq\<rparr>) = unmarked f"
  "is_parity (f\<lparr>fBlockSeq := b\<rparr>) = is_parity f" "is_parity (f\<lparr>fFlags := fFlags f OR FlagPassSeq\<rparr>) = is_parity f"
proof -
  have "(x OR FlagPassSeq) AND NOT FlagPassSeq = x AND NOT FlagPassSeq" for x :: u8
    by (auto simp: bit_eq_iff bit_simps)
  then show "unmarked (f\<lparr>fFlags := fFlags f OR FlagPassSeq\<rparr>) = unmarked f" by (simp add: unmarked_def)
  have "(x OR FlagPassSeq) AND FlagFECParity = x AND FlagFECParity" for x :: u8
    by (simp add: FlagPassSeq_def FlagFECParity_def bit.conj_disj_distrib2)
  then show "is_parity (f\<lparr>fFlags := fFlags f OR FlagPassSeq\<rparr>) = is_parity f" by (simp add: is_parity_def HasFlag_def)
qed (simp_all add: unmarked_def is_parity_def HasFlag_def)

definition data_of :: "frame list \<Rightarrow> frame list" where
  "data_of fs = map unmarked (filter (\<lambda>f. \<not> is_parity f) fs)"

lemma data_of_append [simp]: "data_of (xs @ ys) = data_of xs @ data_of ys" "data_of [] = []"
  by (simp_all add: data_of_def)

lemma data_of_marks [simp]: "data_of (stamp_block b fs) = data_of fs" "data_of (markPassSeq fs) = data_of fs"
  by (induction fs) (auto simp: data_of_def stamp_block_def markPassSeq_def)

lemma parity_loop_parity: "f \<in> set (parity_loop sid bs k sh i sub) \<Longrightarrow> is_parity f"
  by (induction sid bs k sh i sub rule: parity_loop.induct)
     (auto simp: Let_def is_parity_def HasFlag_def FlagFECParity_def)

lemma data_of_parity_loop [simp]: "data_of (parity_loop sid bs k sh i sub) = []"
  using parity_loop_parity by (auto simp: data_of_def filter_empty_conv)

lemma data_of_emitBlock: "data_of (snd (emitBlock e)) = data_of (e_pending e)"
  by (simp add: emitBlock_def Let_def split: option.split)

lemma data_of_step:
  assumes "enc_inv rs_New e"
  shows "data_of (snd (enc_step rs_New e ev)) @ data_of (e_pending (fst (enc_step rs_New e ev)))
       = data_of (e_pending e) @ data_of (pushed [ev])"
  using assms
  by (cases ev) (auto simp: Encoder_Push_def Encoder_Tick_def SetLossRate_def Let_def emitBlock_frame
      data_of_emitBlock pushed_def enc_inv_def)

lemma data_of_run:
  "enc_inv rs_New e \<and> Enabled (e_params e) \<Longrightarrow>
     data_of (snd (exec (enc_step rs_New) e evs)) @ data_of (e_pending (fst (exec (enc_step rs_New) e evs)))
     = data_of (e_pending e) @ data_of (pushed evs)"
proof (induction evs arbitrary: e)
  case Nil
  then show ?case by (simp add: pushed_def)
next
  case (Cons ev evs)
  let ?e = "fst (enc_step rs_New e ev)"
  have inv: "enc_inv rs_New ?e \<and> Enabled (e_params ?e)" using Cons.prems by (rule enc.step_inv) simp
  have "pushed (ev # evs) = pushed [ev] @ pushed evs" by (simp add: pushed_def)
  then show ?case
    using Cons.IH [OF inv] data_of_step [of rs_New e ev] Cons.prems
    by (simp add: Let_def case_prod_unfold)
qed

section \<open>The layout of a block\<close>

text \<open>A loop that writes fields of \<open>w\<close> bytes one after the other.\<close>

lemma copy_fields:
  assumes "\<And>f. length (g f) = w" "length xs = off"
  shows "length ys = w * length data \<Longrightarrow>
    foldl (\<lambda>sub (i, f). copy_at (off + w * i) (g f) sub) (xs @ ys @ zs) (zip [0..<length data] data)
      = xs @ concat (map g data) @ zs"
proof (induction data arbitrary: ys zs rule: rev_induct)
  case (snoc d data)
  define y1 where "y1 = take (w * length data) ys"
  define y2 where "y2 = drop (w * length data) ys"
  have y: "ys = y1 @ y2" "length y1 = w * length data" "length y2 = w"
    using snoc.prems by (simp_all add: y1_def y2_def)
  have "foldl (\<lambda>sub (i, f). copy_at (off + w * i) (g f) sub) (xs @ y1 @ (y2 @ zs)) (zip [0..<length data] data)
      = xs @ concat (map g data) @ (y2 @ zs)" using snoc.IH y(2) .
  moreover have "length (xs @ concat (map g data)) = off + w * length data"
    using assms by (simp add: length_concat sum_list_triv comp_def mult.commute)
  then have "copy_at (off + w * length data) (g d) ((xs @ concat (map g data)) @ y2 @ zs)
      = (xs @ concat (map g data)) @ g d @ zs"
    using assms(1) y(3) by (intro copy_at_append) simp_all
  ultimately show ?case by (simp add: y(1))
qed simp

definition parity_payload :: "nat \<Rightarrow> nat \<Rightarrow> nat \<Rightarrow> nat \<Rightarrow> frame list \<Rightarrow> bytes \<Rightarrow> bytes" where
  "parity_payload k i maxLen p data shard =
     put_u16 (of_nat k) @ put_u16 (of_nat i) @ put_u16 (of_nat maxLen) @ put_u16 (of_nat p)
     @ concat (map (\<lambda>f. put_u32 (fSeq f)) data)
     @ concat (map (\<lambda>f. put_u16 (of_nat (length (fPayload f)))) data) @ shard"

lemma parity_sub_eq:
  assumes "length data = k"
  shows "parity_sub data k p maxLen =
    put_u16 (of_nat k) @ [0, 0] @ put_u16 (of_nat maxLen) @ put_u16 (of_nat p)
     @ concat (map (\<lambda>f. put_u32 (fSeq f)) data)
     @ concat (map (\<lambda>f. put_u16 (of_nat (length (fPayload f)))) data) @ make_bytes maxLen"
proof -
  let ?z = "[0, 0] :: bytes" and ?k = "put_u16 (of_nat k)" and ?p = "put_u16 (of_nat p)"
  let ?seqs = "concat (map (\<lambda>f. put_u32 (fSeq f)) data)"
  let ?lens = "concat (map (\<lambda>f. put_u16 (of_nat (length (fPayload f)))) data)"
  have zeros: "make_bytes (ParityHeaderSize k + maxLen)
      = [] @ ?z @ (?z @ ?z @ ?z @ make_bytes (4 * k) @ make_bytes (2 * k) @ make_bytes maxLen)"
    by (simp add: ParityHeaderSize_def parityHdrFixed_def make_bytes_def replicate_add numeral_eq_Suc)
  have s1: "copy_at 0 ?k (make_bytes (ParityHeaderSize k + maxLen))
      = (?k @ ?z @ ?z) @ ?z @ (make_bytes (4 * k) @ make_bytes (2 * k) @ make_bytes maxLen)"
    unfolding zeros by (subst copy_at_append) simp_all
  have s2: "copy_at 6 ?p \<dots> = (?k @ ?z @ ?z @ ?p) @ make_bytes (4 * k) @ (make_bytes (2 * k) @ make_bytes maxLen)"
    by (subst copy_at_append) simp_all
  have s3: "foldl (\<lambda>sub (i, f). copy_at (parityHdrFixed + 4 * i) (put_u32 (fSeq f)) sub) \<dots> (zip [0..<length data] data)
      = (?k @ ?z @ ?z @ ?p @ ?seqs) @ make_bytes (2 * k) @ make_bytes maxLen"
    by (subst copy_fields [where w = 4]) (simp_all add: assms parityHdrFixed_def)
  have s4: "foldl (\<lambda>sub (i, f). copy_at (parityHdrFixed + 4 * k + 2 * i) (put_u16 (of_nat (length (fPayload f)))) sub)
        \<dots> (zip [0..<length data] data)
      = (?k @ ?z) @ ?z @ (?p @ ?seqs @ ?lens @ make_bytes maxLen)"
    by (subst copy_fields [where w = 2])
       (simp_all add: assms parityHdrFixed_def length_concat sum_list_triv comp_def)
  have s5: "copy_at 4 (put_u16 (of_nat maxLen)) \<dots>
      = (?k @ ?z) @ put_u16 (of_nat maxLen) @ (?p @ ?seqs @ ?lens @ make_bytes maxLen)"
    by (subst copy_at_append) simp_all
  show ?thesis unfolding parity_sub_def Let_def s1 s2 s3 s4 s5 by simp
qed

definition parity_frame :: "u64 \<Rightarrow> u32 \<Rightarrow> bytes \<Rightarrow> frame" where
  "parity_frame sid bs payload =
     zero_frame\<lparr>fSessionID := sid, fBlockSeq := bs, fFlags := FlagFECParity, fPayload := payload\<rparr>"

lemma parity_loop_eq:
  assumes "length a = 2" "length c = ParityHeaderSize k - 4" "\<And>s. s \<in> set shards \<Longrightarrow> length s = m"
    and "length b = 2" "length d = m"
  shows "parity_loop sid bs k shards i (a @ b @ c @ d)
    = map (\<lambda>(j, s). parity_frame sid bs (a @ put_u16 (of_nat j) @ c @ s)) (zip [i..<i + length shards] shards)"
  using assms(3-5)
proof (induction shards arbitrary: i b d)
  case (Cons s shards)
  have "copy_at 2 (put_u16 (of_nat i)) (a @ b @ (c @ d)) = a @ put_u16 (of_nat i) @ c @ d"
    using assms(1) Cons.prems by (intro copy_at_append) simp_all
  moreover have "copy_at (ParityHeaderSize k) s ((a @ put_u16 (of_nat i) @ c) @ d) = (a @ put_u16 (of_nat i) @ c) @ s"
    using assms(1,2) Cons.prems by (intro copy_at_append_end) (simp_all add: ParityHeaderSize_def parityHdrFixed_def)
  moreover have "parity_loop sid bs k shards (i + 1) (a @ put_u16 (of_nat i) @ c @ s)
      = map (\<lambda>(j, s). parity_frame sid bs (a @ put_u16 (of_nat j) @ c @ s)) (zip [i + 1..<i + 1 + length shards] shards)"
    using Cons.prems by (intro Cons.IH) simp_all
  moreover have "[i..<i + length (s # shards)] = i # [i + 1..<i + 1 + length shards]"
    by (simp add: upt_conv_Cons del: upt_Suc)
  ultimately show ?case by (simp add: Let_def parity_frame_def)
qed simp

text \<open>The data shards are the payloads padded with zeros.\<close>

definition padded :: "nat \<Rightarrow> bytes \<Rightarrow> bytes" where
  "padded m payload = payload @ make_bytes (m - length payload)"

lemma max_payload_ge: "f \<in> set data \<Longrightarrow> length (fPayload f) \<le> max_payload data"
proof -
  have "m \<le> foldl (\<lambda>m f. if m < length (fPayload f) then length (fPayload f) else m) m data
      \<and> (f \<in> set data \<longrightarrow> length (fPayload f) \<le> foldl (\<lambda>m f. if m < length (fPayload f) then length (fPayload f) else m) m data)"
    for m
  proof (induction data arbitrary: m)
    case (Cons a data)
    from Cons.IH [of "if m < length (fPayload a) then length (fPayload a) else m"] show ?case
      by (auto split: if_splits)
  qed simp
  then show "f \<in> set data \<Longrightarrow> ?thesis" unfolding max_payload_def by blast
qed

lemma block_shards_eq:
  assumes "length data \<le> n" "\<And>f. f \<in> set data \<Longrightarrow> length (fPayload f) \<le> m"
  shows "block_shards data n m = map (\<lambda>f. padded m (fPayload f)) data @ replicate (n - length data) (make_bytes m)"
  using assms
proof (induction data rule: rev_induct)
  case (snoc d data)
  have "block_shards (data @ [d]) n m
      = (block_shards data n m)[length data := copy_at 0 (fPayload d) (block_shards data n m ! length data)]"
    by (simp add: block_shards_def)
  moreover have "block_shards data n m
      = map (\<lambda>f. padded m (fPayload f)) data @ make_bytes m # replicate (n - Suc (length data)) (make_bytes m)"
    using snoc by (simp add: Suc_diff_Suc flip: replicate_Suc)
  moreover have "copy_at 0 (fPayload d) (make_bytes m) = padded m (fPayload d)"
    using snoc.prems(2) by (simp add: copy_into_zeroes padded_def)
  ultimately show ?case by (simp add: nth_append list_update_append)
qed (simp add: block_shards_def)

text \<open>The shards of a block and the frames that carry them.\<close>

definition data_shards :: "frame list \<Rightarrow> bytes list" where
  "data_shards data = map (\<lambda>f. padded (max_payload data) (fPayload f)) data"

definition block_frames :: "u32 \<Rightarrow> frame list \<Rightarrow> bytes list \<Rightarrow> frame list" where
  "block_frames bs data par =
     stamp_block bs data @
     map (\<lambda>(i, s). parity_frame (fSessionID (hd data)) bs
            (parity_payload (length data) i (max_payload data) (length par) data s)) (zip [0..<length par] par)"

lemma padded_length: "f \<in> set data \<Longrightarrow> length (padded (max_payload data) (fPayload f)) = max_payload data"
  using max_payload_ge [of f data] by (simp add: padded_def)

lemma emitBlock_layout:
  assumes "e_rs e = Some rs" "rs_ok rs k p" "int k = DataShards (e_params e)" "int p = e_rsParity e"
    and "length (e_pending e) = k" "0 < max_payload (e_pending e)"
  obtains par where "length par = p" "\<And>s. s \<in> set par \<Longrightarrow> length s = max_payload (e_pending e)"
    "rs_Encode rs (data_shards (e_pending e) @ replicate p (make_bytes (max_payload (e_pending e))))
       = Some (data_shards (e_pending e) @ par)"
    "snd (emitBlock e) = block_frames (e_block e + 1) (e_pending e) par"
proof -
  let ?data = "e_pending e" and ?m = "max_payload (e_pending e)"
  let ?in = "data_shards ?data @ replicate p (make_bytes ?m)"
  have len: "length (data_shards ?data) = k" using assms(5) by (simp add: data_shards_def)
  have shards: "block_shards ?data (k + p) ?m = ?in"
    using assms(5) max_payload_ge by (simp add: block_shards_eq data_shards_def)
  have "rs_valid k p ?m ?in"
    using assms(5,6) len by (auto simp: rs_valid_def data_shards_def padded_length)
  then obtain full where full: "rs_Encode rs ?in = Some full" "rs_valid k p ?m full" "take k full = take k ?in"
    using assms(2) unfolding rs_ok_def by blast
  define par where "par = drop k full"
  have fullp: "full = data_shards ?data @ par"
    using full(3) len append_take_drop_id [of k full] by (simp add: par_def)
  have par: "length par = p" "\<And>s. s \<in> set par \<Longrightarrow> length s = ?m"
    using full(2) by (auto simp: rs_valid_def par_def dest: in_set_dropD)
  have seqs: "length (concat (map (\<lambda>f. put_u32 (fSeq f)) ?data)
      @ concat (map (\<lambda>f. put_u16 (of_nat (length (fPayload f)))) ?data)) = 6 * k"
    using assms(5) by (simp add: length_concat sum_list_triv comp_def)
  have "parity_loop (fSessionID (hd ?data)) (e_block e + 1) k par 0 (parity_sub ?data k p ?m)
     = map (\<lambda>(i, s). parity_frame (fSessionID (hd ?data)) (e_block e + 1)
            (parity_payload k i ?m p ?data s)) (zip [0..<length par] par)"
    using seqs par(2) parity_loop_eq [of "put_u16 (of_nat k)" "put_u16 (of_nat ?m) @ put_u16 (of_nat p)
        @ concat (map (\<lambda>f. put_u32 (fSeq f)) ?data) @ concat (map (\<lambda>f. put_u16 (of_nat (length (fPayload f)))) ?data)"
        k par ?m "[0, 0]" "make_bytes ?m" "fSessionID (hd ?data)" "e_block e + 1" 0]
    by (simp add: parity_sub_eq assms(5) ParityHeaderSize_def parityHdrFixed_def parity_payload_def)
  then have "snd (emitBlock e) = block_frames (e_block e + 1) ?data par"
    using assms(1,3,4,5) par(1) len
    by (simp add: emitBlock_def Let_def shards full(1) fullp block_frames_def nat_eq_iff2 flip: assms(3,4))
  then show ?thesis using that par full(1) fullp by simp
qed

section \<open>An instance of the library\<close>

text \<open>The single-parity code over two data shards, for the witnesses.\<close>

definition xor_shard :: "bytes \<Rightarrow> bytes \<Rightarrow> bytes" where
  "xor_shard a b = map2 (XOR) a b"

definition xor_codec :: rs_codec where
  "xor_codec =
     \<lparr>rs_Encode = (\<lambda>sh. case sh of [a, b, c] \<Rightarrow> Some [a, b, xor_shard a b] | _ \<Rightarrow> None),
      rs_Reconstruct = (\<lambda>sh. case sh of
         [a, b, c] \<Rightarrow> if a = [] then Some [xor_shard b c, b, c]
                     else if b = [] then Some [a, xor_shard a c, c]
                     else Some [a, b, xor_shard a b]
       | _ \<Rightarrow> None)\<rparr>"

definition xor_lib :: rs_lib where
  "xor_lib k p = (if k = 2 \<and> p = 1 then Some xor_codec else None)"

lemma length_xor_shard [simp]: "length (xor_shard a b) = min (length a) (length b)"
  by (simp add: xor_shard_def)

lemma xor_shard_cancel:
  assumes "length a = length b"
  shows "xor_shard b (xor_shard a b) = a" "xor_shard a (xor_shard a b) = b"
  using assms by (auto simp: xor_shard_def intro!: nth_equalityI simp flip: xor.assoc) (simp add: xor.commute xor.left_commute)

lemma xor_codec_ok: "rs_ok xor_codec 2 1"
proof -
  have three: "\<exists>a b c. sh = [a, b, c] \<and> length a = sz \<and> length b = sz \<and> length c = sz \<and> 0 < sz"
    if "rs_valid 2 1 sz sh" for sz sh
    using that by (auto simp: rs_valid_def numeral_eq_Suc length_Suc_conv)
  have enc: "rs_Encode xor_codec sh = Some full \<Longrightarrow>
      \<exists>a b. full = [a, b, xor_shard a b] \<and> length a = sz \<and> length b = sz \<and> 0 < sz"
    if "rs_valid 2 1 sz sh" for sz sh full
    using three [OF that] by (auto simp: xor_codec_def)
  have "\<exists>full. rs_Encode xor_codec sh = Some full \<and> rs_valid 2 1 sz full \<and> take 2 full = take 2 sh"
    if "rs_valid 2 1 sz sh" for sz sh
    using three [OF that] by (auto simp: xor_codec_def rs_valid_def numeral_eq_Suc)
  moreover have "rs_Reconstruct xor_codec part = Some full"
    if v: "rs_valid 2 1 sz sh" "rs_Encode xor_codec sh = Some full" "rs_erased full part"
      "2 \<le> length (filter (\<lambda>s. s \<noteq> []) part)" for sz sh full part
  proof -
    obtain a b where f: "full = [a, b, xor_shard a b]" "length a = length b" "a \<noteq> []" "b \<noteq> []"
      using enc [OF v(1,2)] length_greater_0_conv by metis
    then have "xor_shard a b \<noteq> []" by (simp flip: length_greater_0_conv)
    with f v(3,4) xor_shard_cancel [OF f(2)] show ?thesis
      by (auto simp: rs_erased_def list_all2_Cons1 xor_codec_def split: if_splits)
  qed
  ultimately show ?thesis unfolding rs_ok_def by blast
qed

section \<open>Properties\<close>

text \<open>C27: In every run of an enabled encoder the redundancy of a block stays within the code: at
  least one parity shard, data and parity together at most 256, and never above the
  configured ceiling outside cross-path mode; the codec always matches that redundancy,
  and fewer than a block of frames wait.\<close>

theorem encoder_redundancy:
  assumes "NewEncoder rs_New p = Inr e0" "enc_params_ok (fill_params p)" "Enabled (fill_params p)"
    and "e = fst (exec (enc_step rs_New) e0 evs)"
  shows "1 \<le> e_rsParity e \<and> DataShards (e_params e) + e_rsParity e \<le> 256
    \<and> (CrossPath (e_params e) \<or> e_rsParity e \<le> ParityShards (e_params e))
    \<and> rs_New (DataShards (e_params e)) (e_rsParity e) = e_rs e \<and> e_rs e \<noteq> None
    \<and> int (length (e_pending e)) < DataShards (e_params e)"
proof -
  have "e_params e0 = fill_params p"
    using assms(1) by (auto simp: NewEncoder_def Let_def split: if_splits option.splits)
  then have "enc_inv rs_New e \<and> Enabled (e_params e)"
    unfolding assms(4) using enc_inv_New [OF assms(1,2)] assms(3)
    by (intro enc.exec_inv) (simp_all add: list_all_iff)
  then show ?thesis by (auto simp: enc_inv_def)
qed

definition xor_params :: Params where
  "xor_params = \<lparr>DataShards = 2, ParityShards = 1, BlockTimeout = 0, Adaptive = None, CrossPath = False, CrossPathMinParity = 0\<rparr>"

definition xor_encoder :: Encoder where
  "xor_encoder = \<lparr>e_params = fill_params xor_params, e_rs = Some xor_codec, e_block = 0, e_pending = [], e_blockStart = None,
     e_lossRate = Fin 0, e_codingOn = True, e_codingSince = None, e_rsParity = 1, e_blocksCoded = 0\<rparr>"

lemma xor_encoder_New: "NewEncoder xor_lib xor_params = Inr xor_encoder"
  by (simp add: NewEncoder_def xor_params_def xor_encoder_def fill_params_def Let_def Enabled_def xor_lib_def)

lemma xor_params_ok: "enc_params_ok (fill_params xor_params)" "Enabled (fill_params xor_params)"
  by (simp_all add: enc_params_ok_def fill_params_def xor_params_def Let_def Enabled_def)

theorem encoder_redundancy_witness:
  "e_rsParity (fst (exec (enc_step xor_lib) xor_encoder [EncPush zero_frame 3, EncTick 9, EncLoss (Fin (1/2)) 10])) \<ge> 1"
  using encoder_redundancy [OF xor_encoder_New xor_params_ok refl] by blast

text \<open>C28: The encoder passes data frames on unchanged but for the block number and the pass-through
  flag: in every run, the data frames it has emitted, in the order of emission, followed by
  the frames still waiting, are exactly the frames pushed. Nothing is lost, duplicated or
  reordered, across block boundaries, timeouts and changes between coding and pass-through.\<close>

theorem encoder_preserves_data:
  assumes "NewEncoder rs_New p = Inr e0" "enc_params_ok (fill_params p)" "Enabled (fill_params p)"
  shows "data_of (snd (exec (enc_step rs_New) e0 evs)) @ data_of (e_pending (fst (exec (enc_step rs_New) e0 evs)))
    = data_of (pushed evs)"
proof -
  have "e_params e0 = fill_params p" "e_pending e0 = []"
    using assms(1) by (auto simp: NewEncoder_def Let_def split: if_splits option.splits)
  then show ?thesis using data_of_run [of rs_New e0 evs] enc_inv_New [OF assms(1,2)] assms(3) by simp
qed

theorem encoder_preserves_data_witness:
  "data_of (snd (exec (enc_step xor_lib) xor_encoder [EncPush zero_frame 3, EncTick 9]))
     @ data_of (e_pending (fst (exec (enc_step xor_lib) xor_encoder [EncPush zero_frame 3, EncTick 9])))
   = data_of [zero_frame]"
  using encoder_preserves_data [OF xor_encoder_New xor_params_ok, of "[EncPush zero_frame 3, EncTick 9]"]
  by (simp only: pushed_def list.map enc_event.case concat.simps append.simps append_Nil)

fun ev_time :: "enc_event \<Rightarrow> int" where
  "ev_time (EncPush _ now) = now"
| "ev_time (EncTick now) = now"
| "ev_time (EncLoss _ now) = now"

lemma emitBlock_coding [simp]: "e_codingOn (fst (emitBlock e)) = e_codingOn e" "e_codingSince (fst (emitBlock e)) = e_codingSince e"
  by (simp_all add: emitBlock_def Let_def split: option.split)

lemma refresh_hold:
  assumes "Adaptive (e_params e) = Some a" "e_codingOn e" "e_codingSince e = Some t" "now < t + Hold a"
  shows "e_codingOn (refreshLocked rs_New e now)" "e_codingSince (refreshLocked rs_New e now) = Some t"
proof -
  have "e_codingSince (rebuildLocked rs_New e') = e_codingSince e'" for e'
    by (simp add: rebuildLocked_def Let_def split: option.split)
  then show "e_codingOn (refreshLocked rs_New e now)" "e_codingSince (refreshLocked rs_New e now) = Some t"
    using assms by (auto simp: refreshLocked_def since_def Let_def split: bool.split)
qed

text \<open>Coding does not flap: once turned on at \<open>t\<close>, it stays on for every event before
  \<open>t + Hold\<close>, whatever loss rates are reported in between.\<close>

theorem adaptive_hold:
  assumes "Adaptive (e_params e) = Some a" "e_codingOn e" "e_codingSince e = Some t"
    and "\<And>ev. ev \<in> set evs \<Longrightarrow> ev_time ev < t + Hold a"
  shows "e_codingOn (fst (exec (enc_step rs_New) e evs))"
  using assms
proof (induction evs arbitrary: e)
  case (Cons ev evs)
  let ?e = "fst (enc_step rs_New e ev)"
  have t: "ev_time ev < t + Hold a" using Cons.prems(4) by simp
  have "e_params ?e = e_params e \<and> e_codingOn ?e \<and> e_codingSince ?e = Some t"
    using Cons.prems(1-3) t
    by (cases ev) (auto simp: Encoder_Push_def Encoder_Tick_def SetLossRate_def Let_def emitBlock_frame refresh_hold)
  with Cons.IH [of ?e] Cons.prems show ?case by (simp add: Let_def case_prod_unfold)
qed simp

definition adaptive_encoder :: Encoder where
  "adaptive_encoder = xor_encoder\<lparr>e_params := (fill_params xor_params)\<lparr>Adaptive :=
     Some \<lparr>OnLossPct = Fin 2, OffLossPct = Fin 1, Hold = 1000, MaxLossPct = Fin 20, Safety = Fin 2\<rparr>\<rparr>,
     e_codingSince := Some 5\<rparr>"

theorem adaptive_hold_witness:
  "e_codingOn (fst (exec (enc_step xor_lib) adaptive_encoder [EncLoss (Fin 0) 7, EncTick 900]))"
  by (rule adaptive_hold [of adaptive_encoder _ 5]) (auto simp: adaptive_encoder_def xor_encoder_def)

end
