(* ===== verification/Health.thy ===== *)
theory Health
  imports Float64 FB_Prelude
begin

text \<open>
  The circuit breaker of \<open>internal/health/health.go\<close>. The record \<open>Monitor\<close> is the struct,
  \<open>New_Monitor\<close>, \<open>Monitor_Reload\<close>, \<open>ObserveSample\<close>, \<open>NoteAlive\<close>, \<open>NoteMissedProbe\<close>,
  \<open>ObserveInBand\<close>, \<open>ObserveRaw\<close> and \<open>Monitor_Tick\<close> are its methods. A \<open>time.Time\<close> is an
  optional instant in nanoseconds (\<open>None\<close> is the zero time), a \<open>time.Duration\<close> an integer;
  loss estimates and weights are doubles with their rounding.

  Shown here: loss estimates stay in [0, 1] under rounding; the breaker has the documented
  hysteresis, stated over what happened during a run and not over its timer; a revived path that
  keeps answering returns to service; and in DEGRADED one timer is shared between two conditions.
\<close>

datatype State = StateHealthy | StateDegraded | StateDown

fun State_String :: "State \<Rightarrow> string" where
  "State_String StateHealthy = ''healthy''"
| "State_String StateDegraded = ''degraded''"
| "State_String StateDown = ''down''"

record Options =
  o_MaxLoss :: f64
  o_DegradeAfter :: int
  o_RecoverAfter :: int
  o_DownAfterMisses :: int
  o_DownGrace :: int
  o_LossAlphaFast :: f64
  o_LossAlphaSlow :: f64
  o_JitterAlpha :: f64

record Monitor =
  maxLoss :: f64
  degradeAft :: int
  recoverAft :: int
  downAftMiss :: int
  downGrace :: int
  alphaFast :: f64
  alphaSlow :: f64
  jitterAlpha :: f64
  mLoss :: f64
  mRtt :: int
  mJitter :: int
  mState :: State
  misses :: int
  missSince :: "int option"
  condSince :: "int option"
  revived :: bool
  inBandBad :: int


section \<open>Construction\<close>

text \<open>The test \<open>x <= 0 || x >= 1\<close> of the weights; NaN fails both comparisons.\<close>

definition out_of_unit :: "f64 \<Rightarrow> bool" where
  "out_of_unit x \<longleftrightarrow> fle x (Fin 0) \<or> fle (Fin 1) x"

definition New_Monitor :: "Options \<Rightarrow> Monitor" where
  "New_Monitor opts =
     \<lparr>maxLoss = (if out_of_unit (o_MaxLoss opts) then f64_of (1/5) else o_MaxLoss opts),
      degradeAft = (if o_DegradeAfter opts \<le> 0 then 3 * Second else o_DegradeAfter opts),
      recoverAft = (if o_RecoverAfter opts \<le> 0 then 10 * Second else o_RecoverAfter opts),
      downAftMiss = (if o_DownAfterMisses opts \<le> 0 then 3 else o_DownAfterMisses opts),
      downGrace = (if o_DownGrace opts < 0 then 0 else o_DownGrace opts),
      alphaFast = (if out_of_unit (o_LossAlphaFast opts) then f64_of (2/5) else o_LossAlphaFast opts),
      alphaSlow = (if out_of_unit (o_LossAlphaSlow opts) then f64_of (3/100) else o_LossAlphaSlow opts),
      jitterAlpha = (if out_of_unit (o_JitterAlpha opts) then f64_of (1/10) else o_JitterAlpha opts),
      mLoss = Fin 0, mRtt = 0, mJitter = 0, mState = StateHealthy, misses = 0,
      missSince = None, condSince = None, revived = False, inBandBad = 0\<rparr>"

definition Monitor_Reload :: "Monitor \<Rightarrow> Options \<Rightarrow> Monitor" where
  "Monitor_Reload m opts =
     m\<lparr>maxLoss := (if out_of_unit (o_MaxLoss opts) then maxLoss m else o_MaxLoss opts),
       degradeAft := (if o_DegradeAfter opts \<le> 0 then degradeAft m else o_DegradeAfter opts),
       recoverAft := (if o_RecoverAfter opts \<le> 0 then recoverAft m else o_RecoverAfter opts),
       downAftMiss := (if o_DownAfterMisses opts \<le> 0 then downAftMiss m else o_DownAfterMisses opts),
       downGrace := o_DownGrace opts,
       alphaFast := (if out_of_unit (o_LossAlphaFast opts) then alphaFast m else o_LossAlphaFast opts),
       alphaSlow := (if out_of_unit (o_LossAlphaSlow opts) then alphaSlow m else o_LossAlphaSlow opts),
       jitterAlpha := (if out_of_unit (o_JitterAlpha opts) then jitterAlpha m else o_JitterAlpha opts)\<rparr>"

section \<open>Observations\<close>

text \<open>The fast-rise / slow-decay update of the loss estimate, shared by the three observers.\<close>

definition update_loss :: "Monitor \<Rightarrow> f64 \<Rightarrow> Monitor" where
  "update_loss m loss =
     (if flt (mLoss m) loss
      then m\<lparr>mLoss := fadd (mLoss m) (fmul (alphaFast m) (fsub loss (mLoss m)))\<rparr>
      else m\<lparr>mLoss := fadd (mLoss m) (fmul (alphaSlow m) (fsub loss (mLoss m)))\<rparr>)"

definition noteAliveLocked :: "Monitor \<Rightarrow> Monitor" where
  "noteAliveLocked m =
     (let m = m\<lparr>misses := 0, missSince := None\<rparr> in
      if mState m = StateDown \<and> \<not> revived m
      then m\<lparr>revived := True, mLoss := Fin 0, condSince := None\<rparr>
      else m)"

definition ObserveSample :: "Monitor \<Rightarrow> f64 \<Rightarrow> int \<Rightarrow> Monitor" where
  "ObserveSample m loss rtt =
     (let m = update_loss m loss in
      if 0 < rtt then
        (let delta = rtt - mRtt m;
             delta = (if delta < 0 then - delta else delta);
             m = (if mRtt m = 0 then m\<lparr>mRtt := rtt\<rparr>
                  else m\<lparr>mRtt := mRtt m + f64_trunc (fmul (jitterAlpha m) (f64_of_int (rtt - mRtt m)))\<rparr>);
             m = m\<lparr>mJitter := mJitter m + f64_trunc (fmul (jitterAlpha m) (f64_of_int (delta - mJitter m)))\<rparr>
         in noteAliveLocked m)
      else m)"

definition NoteAlive :: "Monitor \<Rightarrow> Monitor" where
  "NoteAlive m = noteAliveLocked m"

definition setState :: "Monitor \<Rightarrow> State \<Rightarrow> Monitor" where
  "setState m s = m\<lparr>mState := s, condSince := None, revived := False\<rparr>"

definition NoteMissedProbe :: "Monitor \<Rightarrow> int \<Rightarrow> Monitor" where
  "NoteMissedProbe m now =
     (let m = m\<lparr>misses := misses m + 1\<rparr> in
      if downAftMiss m \<le> misses m then
        (if downGrace m \<le> 0 then
           (if mState m \<noteq> StateDown then setState m StateDown else m)
         else if missSince m = None then m\<lparr>missSince := Some now\<rparr>
         else m)
      else m)"

definition ObserveInBand :: "Monitor \<Rightarrow> f64 \<Rightarrow> Monitor" where
  "ObserveInBand m lossRate =
     (let m = update_loss m lossRate in
      if flt (maxLoss m) lossRate then
        (let m = m\<lparr>inBandBad := inBandBad m + 1\<rparr> in
         if 2 \<le> inBandBad m \<and> mState m = StateHealthy then setState m StateDegraded else m)
      else m\<lparr>inBandBad := 0\<rparr>)"

definition ObserveRaw :: "Monitor \<Rightarrow> f64 \<Rightarrow> Monitor" where
  "ObserveRaw m lossRate = update_loss m lossRate"

section \<open>The state machine\<close>

definition missedDown :: "Monitor \<Rightarrow> int \<Rightarrow> bool" where
  "missedDown m now \<longleftrightarrow>
     downAftMiss m \<le> misses m \<and>
     (downGrace m \<le> 0 \<or> (case missSince m of None \<Rightarrow> False | Some t \<Rightarrow> downGrace m \<le> now - t))"

text \<open>A condition that has to hold for \<open>d\<close>: start its timer, or act when it has run long enough.\<close>

definition sustain :: "Monitor \<Rightarrow> int \<Rightarrow> int \<Rightarrow> State \<Rightarrow> Monitor" where
  "sustain m now d s =
     (case condSince m of
        None \<Rightarrow> m\<lparr>condSince := Some now\<rparr>
      | Some t \<Rightarrow> if d \<le> now - t then setState m s else m)"

definition half_max :: "Monitor \<Rightarrow> f64" where
  "half_max m = fmul (maxLoss m) (Fin (1/2))"

definition tickLocked :: "Monitor \<Rightarrow> int \<Rightarrow> Monitor" where
  "tickLocked m now =
     (case mState m of
        StateHealthy \<Rightarrow>
          (if missedDown m now then setState m StateDown
           else if flt (maxLoss m) (mLoss m) then sustain m now (degradeAft m) StateDegraded
           else m\<lparr>condSince := None\<rparr>)
      | StateDegraded \<Rightarrow>
          (if missedDown m now then setState m StateDown
           else if flt (maxLoss m) (mLoss m) then sustain m now (degradeAft m) StateDown
           else if flt (mLoss m) (half_max m) then sustain m now (recoverAft m) StateHealthy
           else m\<lparr>condSince := None\<rparr>)
      | StateDown \<Rightarrow>
          (if flt (mLoss m) (half_max m) then sustain m now (recoverAft m) StateHealthy
           else m\<lparr>condSince := None\<rparr>))"

definition Monitor_Tick :: "Monitor \<Rightarrow> int \<Rightarrow> Monitor" where
  "Monitor_Tick m now = tickLocked m now"

section \<open>Runs\<close>

datatype health_event =
    EvSample f64 int
  | EvAlive
  | EvMissed int
  | EvInBand f64
  | EvRaw f64
  | EvTick int
  | EvReload Options

fun health_step :: "Monitor \<Rightarrow> health_event \<Rightarrow> Monitor \<times> State list" where
  "health_step m (EvSample l r) = (let m = ObserveSample m l r in (m, [mState m]))"
| "health_step m EvAlive = (let m = NoteAlive m in (m, [mState m]))"
| "health_step m (EvMissed now) = (let m = NoteMissedProbe m now in (m, [mState m]))"
| "health_step m (EvInBand l) = (let m = ObserveInBand m l in (m, [mState m]))"
| "health_step m (EvRaw l) = (let m = ObserveRaw m l in (m, [mState m]))"
| "health_step m (EvTick now) = (let m = Monitor_Tick m now in (m, [mState m]))"
| "health_step m (EvReload opts) = (let m = Monitor_Reload m opts in (m, [mState m]))"

section \<open>Fractions\<close>

definition unit_f64 :: "f64 \<Rightarrow> bool" where
  "unit_f64 x \<longleftrightarrow> (\<exists>v. x = Fin v \<and> rnd v = v \<and> 0 \<le> v \<and> v \<le> 1)"

definition weight_f64 :: "f64 \<Rightarrow> bool" where
  "weight_f64 x \<longleftrightarrow> (\<exists>v. x = Fin v \<and> rnd v = v \<and> 0 < v \<and> v < 1)"

definition proper_f64 :: "f64 \<Rightarrow> bool" where
  "proper_f64 x \<longleftrightarrow> wf_f64 x \<and> x \<noteq> NaN"

lemma f64_unit: "\<bar>r\<bar> \<le> 2 \<Longrightarrow> f64_of r = Fin (rnd r)"
  by (rule f64_of_small) simp

lemma quantum_unit: "0 < r \<Longrightarrow> r \<le> 1 \<Longrightarrow> quantum r \<le> - 52"
  using expo_less [of r 1] by (simp add: quantum_def)

lemma rnd_error_unit: "0 \<le> r \<Longrightarrow> r \<le> 1 \<Longrightarrow> rnd r \<le> r + 1 / 2 ^ 53"
proof (cases "r = 0")
  case False
  assume "0 \<le> r" "r \<le> 1"
  with False have "quantum r \<le> - 52" by (intro quantum_unit) auto
  then have "2 powi quantum r \<le> (2::rat) powi (- 52)" by (simp only: powi_le_iff)
  moreover have "(2::rat) powi (- 52) / 2 = 1 / 2 ^ 53" by code_simp
  ultimately show ?thesis using rnd_error [of r] by linarith
qed simp

text \<open>One update of the estimate, over the rationals with the roundings written out.\<close>

lemma ewma_up:
  assumes "rnd a = a" "rnd l = l" "0 \<le> a" "a < l" "l \<le> 1" "0 < w" "w < 1"
  shows "a \<le> rnd (a + rnd (w * rnd (l - a)))" "rnd (a + rnd (w * rnd (l - a))) \<le> 1"
proof -
  let ?d = "rnd (l - a)" and ?p = "rnd (w * rnd (l - a))"
  have d: "0 \<le> ?d" using assms by (intro rnd_nonneg) simp
  have "w * ?d \<le> ?d" using d assms by (simp add: mult_left_le_one_le)
  then have p: "?p \<le> ?d" "0 \<le> ?p"
    using rnd_mono [of "w * ?d" ?d] rnd_nonneg [of "w * ?d"] d assms by simp_all
  have "?d \<le> l - a + 1 / 2 ^ 53" using assms by (intro rnd_error_unit) auto
  with p assms have "a + ?p \<le> 1 + 1 / 2 ^ 53" by linarith
  then show "rnd (a + ?p) \<le> 1" by (rule rnd_le_1)
  show "a \<le> rnd (a + ?p)" using rnd_mono [of a "a + ?p"] p assms(1) by simp
qed

lemma ewma_down:
  assumes "rnd a = a" "0 \<le> l" "l \<le> a" "0 < w" "w < 1"
  shows "0 \<le> rnd (a + rnd (w * rnd (l - a)))" "rnd (a + rnd (w * rnd (l - a))) \<le> a"
proof -
  let ?d = "rnd (l - a)" and ?p = "rnd (w * rnd (l - a))"
  have d: "?d \<le> 0" using rnd_mono [of "l - a" 0] assms by simp
  have "- ?d \<le> a" using rnd_mono [of "a - l" a] rnd_minus [of "l - a"] assms by simp
  moreover have "?d \<le> w * ?d" using d assms by (simp add: mult_le_cancel_right1)
  then have "?d \<le> ?p" using rnd_mono [of ?d "w * ?d"] by simp
  ultimately have "0 \<le> a + ?p" by linarith
  then show "0 \<le> rnd (a + ?p)" by (rule rnd_nonneg)
  have "?p \<le> 0" using rnd_mono [of "w * ?d" 0] d assms by (simp add: mult_nonneg_nonpos)
  then show "rnd (a + ?p) \<le> a" using rnd_mono [of "a + ?p" a] assms(1) by simp
qed

lemma ewma_unit:
  assumes "unit_f64 a" "unit_f64 l" "weight_f64 w"
  shows "unit_f64 (fadd a (fmul w (fsub l a)))
       \<and> (if flt a l then fle a (fadd a (fmul w (fsub l a))) else fle (fadd a (fmul w (fsub l a))) a)"
proof -
  obtain x where x: "a = Fin x" "rnd x = x" "0 \<le> x" "x \<le> 1" using assms(1) by (auto simp: unit_f64_def)
  obtain y where y: "l = Fin y" "rnd y = y" "0 \<le> y" "y \<le> 1" using assms(2) by (auto simp: unit_f64_def)
  obtain v where v: "w = Fin v" "0 < v" "v < 1" using assms(3) by (auto simp: weight_f64_def)
  let ?d = "rnd (y - x)" and ?p = "rnd (v * rnd (y - x))"
  have d: "\<bar>?d\<bar> \<le> 1" using rnd_mono [of "y - x" 1] rnd_mono [of "-1" "y - x"] x y by (simp add: abs_le_iff)
  have "\<bar>v * ?d\<bar> \<le> 1" using d v by (simp add: abs_mult mult_le_one)
  then have p: "\<bar>?p\<bar> \<le> 1" using rnd_mono [of "v * ?d" 1] rnd_mono [of "-1" "v * ?d"] by (simp add: abs_le_iff)
  have "fadd a (fmul w (fsub l a)) = Fin (rnd (x + ?p))"
    using x y d p \<open>\<bar>v * ?d\<bar> \<le> 1\<close> by (simp add: v fsub_def f64_unit)
  then show ?thesis
    using ewma_up [of x y v] ewma_down [of x y v] x y v
    by (cases "x < y") (auto simp: unit_f64_def)
qed

text \<open>The smoothing step of RTT and jitter moves towards the sample and never past it.\<close>

lemma f64_trunc_pos: "0 \<le> v \<Longrightarrow> \<lfloor>v\<rfloor> < 2 ^ 63 \<Longrightarrow> f64_trunc (Fin v) = \<lfloor>v\<rfloor>"
proof -
  assume v: "0 \<le> v" "\<lfloor>v\<rfloor> < 2 ^ 63"
  then have "- (2 ^ 63) \<le> \<lfloor>v\<rfloor> \<and> \<lfloor>v\<rfloor> < 2 ^ 63" using zero_le_floor [of v] by linarith
  with v(1) show ?thesis by (simp only: f64_trunc_def f64.case Let_def if_True simp_thms)
qed

lemma f64_trunc_neg: "v \<le> 0 \<Longrightarrow> - (2 ^ 63) \<le> \<lceil>v\<rceil> \<Longrightarrow> f64_trunc (Fin v) = \<lceil>v\<rceil>"
proof -
  assume v: "v \<le> 0" "- (2 ^ 63) \<le> \<lceil>v\<rceil>"
  then have "\<lceil>v\<rceil> < 2 ^ 63" using ceiling_mono [of v 0] by simp
  with v have range: "- (2 ^ 63) \<le> \<lceil>v\<rceil> \<and> \<lceil>v\<rceil> < 2 ^ 63" by blast
  show ?thesis
  proof (cases "v = 0")
    case False
    with v(1) have "\<not> 0 \<le> v" by linarith
    with range show ?thesis by (simp only: f64_trunc_def f64.case Let_def if_True if_False simp_thms)
  qed (simp add: f64_trunc_def)
qed

lemma trunc_step:
  assumes "weight_f64 w" "\<bar>n\<bar> \<le> 2 ^ 53"
  shows "0 \<le> n \<Longrightarrow> 0 \<le> f64_trunc (fmul w (f64_of_int n)) \<and> f64_trunc (fmul w (f64_of_int n)) \<le> n"
    and "n \<le> 0 \<Longrightarrow> n \<le> f64_trunc (fmul w (f64_of_int n)) \<and> f64_trunc (fmul w (f64_of_int n)) \<le> 0"
proof -
  obtain v where v: "w = Fin v" "0 < v" "v < 1" using assms(1) by (auto simp: weight_f64_def)
  have n: "\<bar>of_int n :: rat\<bar> \<le> 2 ^ 53"
    using assms(2) by (metis of_int_abs of_int_le_iff of_int_numeral of_int_power)
  have abs_vn: "\<bar>v * of_int n\<bar> \<le> \<bar>of_int n\<bar>"
    using v by (simp add: abs_mult mult_left_le_one_le)
  let ?r = "rnd (v * of_int n)"
  have f: "fmul w (f64_of_int n) = Fin ?r"
    using n abs_vn by (simp add: v f64_of_int_small [OF assms(2)] f64_of_small)
  have bound: "\<bar>of_int n :: rat\<bar> < 2 ^ 63" using n by (rule le_less_trans) simp
  show "0 \<le> f64_trunc (fmul w (f64_of_int n)) \<and> f64_trunc (fmul w (f64_of_int n)) \<le> n" if "0 \<le> n"
  proof -
    have "0 \<le> ?r" using that v by (intro rnd_nonneg) simp
    moreover have "?r \<le> of_int n"
      using rnd_mono [of "v * of_int n" "of_int n"] that abs_vn v assms(2) by simp
    ultimately have "0 \<le> \<lfloor>?r\<rfloor>" "\<lfloor>?r\<rfloor> \<le> n" by (simp_all add: floor_le_iff) 
    moreover have "n < 2 ^ 63" using assms(2) by simp
    ultimately show ?thesis using f64_trunc_pos [of ?r] \<open>0 \<le> ?r\<close> unfolding f by linarith
  qed
  show "n \<le> f64_trunc (fmul w (f64_of_int n)) \<and> f64_trunc (fmul w (f64_of_int n)) \<le> 0" if "n \<le> 0"
  proof -
    have "?r \<le> 0" using rnd_mono [of "v * of_int n" 0] that v by (simp add: mult_nonneg_nonpos)
    moreover have "of_int n \<le> ?r"
      using rnd_mono [of "of_int n" "v * of_int n"] that abs_vn v assms(2) by (simp add: abs_mult)
    ultimately have "n \<le> \<lceil>?r\<rceil>" "\<lceil>?r\<rceil> \<le> 0" by (simp_all add: le_ceiling_iff)
    moreover have "- (2 ^ 63) \<le> n" using assms(2) by simp
    ultimately show ?thesis using f64_trunc_neg [of ?r] \<open>?r \<le> 0\<close> unfolding f by linarith
  qed
qed

section \<open>The invariant\<close>

text \<open>
  Admissible events: samples are fractions, round-trip times stay below 2^53 ns (104 days),
  and reloaded weights are doubles other than NaN, which \<open>Reload\<close> would let through.
\<close>

definition opts_ok :: "Options \<Rightarrow> bool" where
  "opts_ok opts \<longleftrightarrow>
     proper_f64 (o_MaxLoss opts) \<and> proper_f64 (o_LossAlphaFast opts) \<and>
     proper_f64 (o_LossAlphaSlow opts) \<and> proper_f64 (o_JitterAlpha opts)"

fun health_adm :: "health_event \<Rightarrow> bool" where
  "health_adm (EvSample l r) \<longleftrightarrow> unit_f64 l \<and> r \<le> 2 ^ 53"
| "health_adm (EvInBand l) \<longleftrightarrow> unit_f64 l"
| "health_adm (EvRaw l) \<longleftrightarrow> unit_f64 l"
| "health_adm (EvReload opts) \<longleftrightarrow> opts_ok opts"
| "health_adm _ \<longleftrightarrow> True"

definition health_inv :: "Monitor \<Rightarrow> bool" where
  "health_inv m \<longleftrightarrow>
     weight_f64 (maxLoss m) \<and> weight_f64 (alphaFast m) \<and> weight_f64 (alphaSlow m) \<and>
     weight_f64 (jitterAlpha m) \<and> 0 < degradeAft m \<and> 0 < recoverAft m \<and> 0 < downAftMiss m \<and>
     unit_f64 (mLoss m) \<and> 0 \<le> mRtt m \<and> mRtt m \<le> 2 ^ 53 \<and> 0 \<le> mJitter m \<and> mJitter m \<le> 2 ^ 53 \<and>
     0 \<le> misses m \<and> 0 \<le> inBandBad m \<and> (revived m \<longrightarrow> mState m = StateDown)"

lemma weight_of_proper: "proper_f64 x \<Longrightarrow> \<not> out_of_unit x \<Longrightarrow> weight_f64 x"
  by (cases x) (auto simp: proper_f64_def out_of_unit_def weight_f64_def wf_f64_def fle_def)

lemma default_weights:
  "weight_f64 (f64_of (1/5))" "weight_f64 (f64_of (2/5))" "weight_f64 (f64_of (3/100))" "weight_f64 (f64_of (1/10))"
proof -
  have "rnd (1/5) < 1" "0 < rnd (1/5)" "rnd (2/5) < 1" "0 < rnd (2/5)"
    "rnd (3/100) < 1" "0 < rnd (3/100)" "rnd (1/10) < 1" "0 < rnd (1/10)" by code_simp+
  then show "weight_f64 (f64_of (1/5))" "weight_f64 (f64_of (2/5))"
    "weight_f64 (f64_of (3/100))" "weight_f64 (f64_of (1/10))"
    by (simp_all add: weight_f64_def f64_unit)
qed

lemma unit_Fin_0 [simp]: "unit_f64 (Fin 0)"
  by (simp add: unit_f64_def)

lemma health_inv_New: "opts_ok opts \<Longrightarrow> health_inv (New_Monitor opts)"
  by (simp add: health_inv_def New_Monitor_def opts_ok_def default_weights weight_of_proper Second_def)

lemma health_inv_Reload: "health_inv m \<Longrightarrow> opts_ok opts \<Longrightarrow> health_inv (Monitor_Reload m opts)"
  by (simp add: health_inv_def Monitor_Reload_def opts_ok_def weight_of_proper)

lemma health_inv_update_loss: "health_inv m \<Longrightarrow> unit_f64 l \<Longrightarrow> health_inv (update_loss m l)"
  using ewma_unit [of "mLoss m" l] by (simp add: health_inv_def update_loss_def)

lemma update_loss_frame [simp]:
  "mState (update_loss m l) = mState m" "mRtt (update_loss m l) = mRtt m" "mJitter (update_loss m l) = mJitter m"
  "condSince (update_loss m l) = condSince m" "misses (update_loss m l) = misses m"
  "maxLoss (update_loss m l) = maxLoss m" "jitterAlpha (update_loss m l) = jitterAlpha m"
  "revived (update_loss m l) = revived m" "inBandBad (update_loss m l) = inBandBad m"
  "recoverAft (update_loss m l) = recoverAft m" "downAftMiss (update_loss m l) = downAftMiss m"
  "degradeAft (update_loss m l) = degradeAft m" "missSince (update_loss m l) = missSince m" "downGrace (update_loss m l) = downGrace m"
  by (simp_all add: update_loss_def)

lemma health_inv_noteAlive: "health_inv m \<Longrightarrow> health_inv (noteAliveLocked m)"
  by (simp add: health_inv_def noteAliveLocked_def Let_def)

lemma health_inv_setState: "health_inv m \<Longrightarrow> health_inv (setState m s)"
  by (simp add: health_inv_def setState_def)

lemma health_inv_cond: "health_inv m \<Longrightarrow> health_inv (m\<lparr>condSince := c\<rparr>)"
  by (simp add: health_inv_def)

lemma health_inv_sustain: "health_inv m \<Longrightarrow> health_inv (sustain m now d s)"
  by (simp add: sustain_def health_inv_setState health_inv_cond split: option.split)

lemma health_inv_smooth:
  assumes "health_inv m" "0 < rtt" "rtt \<le> 2 ^ 53"
  shows "health_inv
    (let delta = rtt - mRtt m;
         delta = (if delta < 0 then - delta else delta);
         m = (if mRtt m = 0 then m\<lparr>mRtt := rtt\<rparr>
              else m\<lparr>mRtt := mRtt m + f64_trunc (fmul (jitterAlpha m) (f64_of_int (rtt - mRtt m)))\<rparr>)
     in m\<lparr>mJitter := mJitter m + f64_trunc (fmul (jitterAlpha m) (f64_of_int (delta - mJitter m)))\<rparr>)"
proof -
  define d where "d = (if rtt - mRtt m < 0 then - (rtt - mRtt m) else rtt - mRtt m)"
  have w: "weight_f64 (jitterAlpha m)" and r: "0 \<le> mRtt m" "mRtt m \<le> 2 ^ 53"
    and j: "0 \<le> mJitter m" "mJitter m \<le> 2 ^ 53" using assms(1) by (simp_all add: health_inv_def)
  have d: "0 \<le> d" "d \<le> 2 ^ 53" using assms r by (auto simp: d_def)
  let ?tr = "f64_trunc (fmul (jitterAlpha m) (f64_of_int (rtt - mRtt m)))"
  let ?tj = "f64_trunc (fmul (jitterAlpha m) (f64_of_int (d - mJitter m)))"
  have "0 \<le> mRtt m + ?tr \<and> mRtt m + ?tr \<le> 2 ^ 53"
    using trunc_step [OF w, of "rtt - mRtt m"] assms r by (cases "0 \<le> rtt - mRtt m") simp_all
  moreover have "0 \<le> mJitter m + ?tj \<and> mJitter m + ?tj \<le> 2 ^ 53"
    using trunc_step [OF w, of "d - mJitter m"] d j by (cases "0 \<le> d - mJitter m") simp_all
  ultimately show ?thesis
    using assms unfolding Let_def d_def [symmetric] by (simp add: health_inv_def)
qed

lemma health_inv_ObserveSample:
  assumes "health_inv m" "unit_f64 l" "rtt \<le> 2 ^ 53"
  shows "health_inv (ObserveSample m l rtt)"
  using health_inv_update_loss [OF assms(1,2)]
    health_inv_smooth [OF health_inv_update_loss [OF assms(1,2)] _ assms(3), THEN health_inv_noteAlive]
  by (simp add: ObserveSample_def Let_def)

lemma health_inv_NoteMissedProbe: "health_inv m \<Longrightarrow> health_inv (NoteMissedProbe m now)"
  using health_inv_setState [of "m\<lparr>misses := misses m + 1\<rparr>" StateDown]
  by (simp add: health_inv_def NoteMissedProbe_def Let_def)

lemma health_inv_ObserveInBand: "health_inv m \<Longrightarrow> unit_f64 l \<Longrightarrow> health_inv (ObserveInBand m l)"
  using health_inv_update_loss [of m l]
    health_inv_setState [of "(update_loss m l)\<lparr>inBandBad := inBandBad m + 1\<rparr>" StateDegraded]
  by (simp add: health_inv_def ObserveInBand_def Let_def)

lemma health_inv_Tick: "health_inv m \<Longrightarrow> health_inv (Monitor_Tick m now)"
  by (simp add: Monitor_Tick_def tickLocked_def health_inv_setState health_inv_sustain health_inv_cond split: State.split)

lemmas health_invs =
  health_inv_ObserveSample health_inv_noteAlive health_inv_NoteMissedProbe health_inv_ObserveInBand
  health_inv_update_loss health_inv_Tick health_inv_Reload

lemma health_step_inv: "health_inv m \<Longrightarrow> health_adm e \<Longrightarrow> health_inv (fst (health_step m e))"
  by (cases e) (simp_all add: Let_def NoteAlive_def ObserveRaw_def health_invs)

interpretation health: stateful health_step health_inv health_adm
  by unfold_locales (rule health_step_inv)

section \<open>Transitions\<close>

text \<open>The timer of the current condition has run for \<open>d\<close>.\<close>

definition held_for :: "Monitor \<Rightarrow> int \<Rightarrow> int \<Rightarrow> bool" where
  "held_for m now d \<longleftrightarrow> (case condSince m of None \<Rightarrow> False | Some t \<Rightarrow> d \<le> now - t)"

lemma mState_noteAlive [simp]: "mState (noteAliveLocked m) = mState m"
  by (simp add: noteAliveLocked_def Let_def)

lemma mState_ObserveSample [simp]: "mState (ObserveSample m l r) = mState m"
  by (simp add: ObserveSample_def Let_def)

lemma mState_setState [simp]: "mState (setState m s) = s"
  by (simp add: setState_def)

lemma mState_sustain: "mState (sustain m now d s) = (if held_for m now d then s else mState m)"
  by (simp add: sustain_def held_for_def split: option.split)

lemma mState_Tick:
  "mState (Monitor_Tick m now) =
     (if mState m = StateDown
      then if flt (mLoss m) (half_max m) \<and> held_for m now (recoverAft m) then StateHealthy else StateDown
      else if missedDown m now then StateDown
      else if flt (maxLoss m) (mLoss m) then
        if held_for m now (degradeAft m)
        then if mState m = StateHealthy then StateDegraded else StateDown else mState m
      else if mState m = StateDegraded \<and> flt (mLoss m) (half_max m) \<and> held_for m now (recoverAft m)
      then StateHealthy else mState m)"
  by (cases "mState m") (simp_all add: Monitor_Tick_def tickLocked_def mState_sustain)

section \<open>What a run has seen\<close>

definition mon_after :: "Options \<Rightarrow> health_event list \<Rightarrow> Monitor" where
  "mon_after opts evs = fst (exec health_step (New_Monitor opts) evs)"

text \<open>\<open>P\<close> held at every tick from some tick at time \<open>t\<close> to the end of the run.\<close>

definition sustained :: "Options \<Rightarrow> health_event list \<Rightarrow> (Monitor \<Rightarrow> bool) \<Rightarrow> int \<Rightarrow> bool" where
  "sustained opts evs P t \<longleftrightarrow>
     (\<exists>pre post. evs = pre @ EvTick t # post \<and> (\<forall>a u b. EvTick t # post = a @ EvTick u # b \<longrightarrow> P (mon_after opts (pre @ a))))"

definition over :: "Monitor \<Rightarrow> bool" where
  "over m \<longleftrightarrow> mState m = StateHealthy \<and> flt (maxLoss m) (mLoss m)"

definition under :: "Monitor \<Rightarrow> bool" where
  "under m \<longleftrightarrow> mState m = StateDown \<and> flt (mLoss m) (half_max m)"

text \<open>The missed probes since the last response, whether the last in-band window was bad, and the times of the ticks.\<close>

definition unanswered :: "health_event list \<Rightarrow> nat" where
  "unanswered evs = foldl (\<lambda>n e. case e of EvMissed t \<Rightarrow> Suc n | EvAlive \<Rightarrow> 0 | EvSample l r \<Rightarrow> if 0 < r then 0 else n | _ \<Rightarrow> n) 0 evs"

definition bad_window :: "Options \<Rightarrow> health_event list \<Rightarrow> bool" where
  "bad_window opts evs \<longleftrightarrow>
     (\<exists>pre l post. evs = pre @ EvInBand l # post \<and> (\<forall>l'. EvInBand l' \<notin> set post) \<and> flt (maxLoss (mon_after opts pre)) l)"

definition tick_times :: "health_event list \<Rightarrow> int list" where
  "tick_times evs = concat (map (\<lambda>e. case e of EvTick t \<Rightarrow> [t] | _ \<Rightarrow> []) evs)"

lemma unanswered_snoc:
  "unanswered (evs @ [e]) = (case e of EvMissed t \<Rightarrow> Suc (unanswered evs) | EvAlive \<Rightarrow> 0 | EvSample l r \<Rightarrow> if 0 < r then 0 else unanswered evs | _ \<Rightarrow> unanswered evs)"
  by (cases e) (simp_all only: unanswered_def foldl_append foldl.simps health_event.case)

lemma mon_snoc: "mon_after opts (evs @ [e]) = fst (health_step (mon_after opts evs) e)"
  by (simp add: mon_after_def exec_append Let_def case_prod_unfold)

lemma sustained_start: "P (mon_after opts evs) \<Longrightarrow> sustained opts (evs @ [EvTick t]) P t"
  unfolding sustained_def by (intro exI [of _ evs] exI [of _ "[]"]) (simp add: Cons_eq_append_conv)

lemma sustained_snoc:
  assumes "sustained opts evs P t" "\<And>u. e = EvTick u \<Longrightarrow> P (mon_after opts evs)"
  shows "sustained opts (evs @ [e]) P t"
proof -
  obtain pre post where h: "evs = pre @ EvTick t # post" "\<forall>a u b. EvTick t # post = a @ EvTick u # b \<longrightarrow> P (mon_after opts (pre @ a))"
    using assms(1) by (auto simp: sustained_def)
  have "P (mon_after opts (pre @ a))" if "EvTick t # post @ [e] = a @ EvTick u # b" for a u b
  proof (cases b rule: rev_cases)
    case Nil
    then have "(EvTick t # post) @ [e] = a @ [EvTick u]" using that by simp
    then have "EvTick t # post = a" "e = EvTick u" by (simp_all only: append1_eq_conv)
    then show ?thesis using assms(2) h(1) by simp
  next
    case (snoc b' x)
    then have "(EvTick t # post) @ [e] = (a @ EvTick u # b') @ [x]" using that by simp
    then have "EvTick t # post = a @ EvTick u # b'" by (simp only: append1_eq_conv)
    then show ?thesis using h(2) by blast
  qed
  then show ?thesis unfolding sustained_def using h(1) by (intro exI [of _ pre] exI [of _ "post @ [e]"]) simp
qed

lemma sustained_snocD:
  assumes "sustained opts (evs @ [e]) P t"
  shows "e = EvTick t \<and> P (mon_after opts evs) \<or> sustained opts evs P t \<and> (\<forall>u. e = EvTick u \<longrightarrow> P (mon_after opts evs))"
proof -
  obtain pre post where h: "evs @ [e] = pre @ EvTick t # post" "\<forall>a u b. EvTick t # post = a @ EvTick u # b \<longrightarrow> P (mon_after opts (pre @ a))"
    using assms by (auto simp: sustained_def)
  show ?thesis
  proof (cases post rule: rev_cases)
    case Nil
    then show ?thesis using h(1) spec [OF h(2), of "[]"] by simp
  next
    case (snoc q x)
    then have "evs @ [e] = (pre @ EvTick t # q) @ [x]" using h(1) by simp
    then have e: "evs = pre @ EvTick t # q" "x = e" by (simp_all only: append1_eq_conv)
    have "P (mon_after opts (pre @ a))" if "EvTick t # q = a @ EvTick u # b" for a u b
      using h(2) that snoc by (metis append.assoc append_Cons)
    moreover have "P (mon_after opts evs)" if "e = EvTick u" for u
      using spec [OF h(2), of "EvTick t # q"] that snoc e by simp
    ultimately show ?thesis unfolding sustained_def using e(1) by blast
  qed
qed

text \<open>What the counters and the timer of the monitor say about the run.\<close>

definition history :: "Options \<Rightarrow> health_event list \<Rightarrow> bool" where
  "history opts evs \<longleftrightarrow> (let m = mon_after opts evs in
     misses m = int (unanswered evs) \<and> 0 \<le> inBandBad m \<and> (inBandBad m \<noteq> 0 \<longrightarrow> bad_window opts evs) \<and>
     (\<forall>t. condSince m = Some t \<longrightarrow> (mState m = StateHealthy \<longrightarrow> sustained opts evs over t) \<and> (mState m = StateDown \<longrightarrow> sustained opts evs under t)))"

text \<open>An event that is not a tick keeps the timer or clears it; a tick may start it.\<close>

lemma timer_other:
  assumes "\<And>t. e \<noteq> EvTick t"
  shows "condSince (fst (health_step m e)) = None \<or> condSince (fst (health_step m e)) = condSince m \<and> mState (fst (health_step m e)) = mState m"
  using assms by (cases e) (auto simp: ObserveSample_def NoteAlive_def noteAliveLocked_def NoteMissedProbe_def ObserveInBand_def ObserveRaw_def
      Monitor_Reload_def update_loss_def setState_def Let_def)

lemma timer_tick:
  "condSince (Monitor_Tick m now) = None \<or>
   mState (Monitor_Tick m now) = mState m \<and> condSince (Monitor_Tick m now) = (if condSince m = None then Some now else condSince m) \<and>
     (mState m = StateHealthy \<longrightarrow> over m) \<and> (mState m = StateDown \<longrightarrow> under m)"
  by (cases "mState m") (auto simp: Monitor_Tick_def tickLocked_def sustain_def setState_def over_def under_def split: option.split)

lemma misses_tick: "misses (Monitor_Tick m now) = misses m" "inBandBad (Monitor_Tick m now) = inBandBad m"
  by (cases "mState m"; simp add: Monitor_Tick_def tickLocked_def sustain_def setState_def split: option.split)+

lemma bad_window_snoc: "bad_window opts evs \<Longrightarrow> (\<And>l. e \<noteq> EvInBand l) \<Longrightarrow> bad_window opts (evs @ [e])"
proof -
  assume "bad_window opts evs" and e: "\<And>l. e \<noteq> EvInBand l"
  then obtain pre l post where "evs = pre @ EvInBand l # post" "\<forall>l'. EvInBand l' \<notin> set post" "flt (maxLoss (mon_after opts pre)) l"
    by (auto simp: bad_window_def)
  then show ?thesis unfolding bad_window_def using e by (intro exI [of _ pre] exI [of _ l] exI [of _ "post @ [e]"]) force
qed

lemma history_counts:
  assumes "history opts evs"
  shows "misses (mon_after opts (evs @ [e])) = int (unanswered (evs @ [e]))"
    and "0 \<le> inBandBad (mon_after opts (evs @ [e]))" "inBandBad (mon_after opts (evs @ [e])) \<noteq> 0 \<Longrightarrow> bad_window opts (evs @ [e])"
proof -
  have h: "misses (mon_after opts evs) = int (unanswered evs)" "0 \<le> inBandBad (mon_after opts evs)"
    "inBandBad (mon_after opts evs) \<noteq> 0 \<Longrightarrow> bad_window opts evs" using assms by (simp_all add: history_def Let_def)
  note defs = mon_snoc ObserveSample_def NoteAlive_def noteAliveLocked_def NoteMissedProbe_def ObserveInBand_def ObserveRaw_def
    Monitor_Reload_def update_loss_def setState_def misses_tick Let_def
  show "misses (mon_after opts (evs @ [e])) = int (unanswered (evs @ [e]))" using h(1) by (cases e) (auto simp: defs unanswered_snoc)
  show "0 \<le> inBandBad (mon_after opts (evs @ [e]))" using h(2) by (cases e) (auto simp: defs)
  assume n: "inBandBad (mon_after opts (evs @ [e])) \<noteq> 0"
  show "bad_window opts (evs @ [e])"
  proof (cases "\<exists>l. e = EvInBand l")
    case True
    then obtain l where l: "e = EvInBand l" by blast
    then have "flt (maxLoss (mon_after opts evs)) l" using n by (auto simp: defs split: if_splits)
    then show ?thesis unfolding bad_window_def using l by (intro exI [of _ evs] exI [of _ l] exI [of _ "[]"]) simp
  next
    case False
    then have "inBandBad (mon_after opts evs) \<noteq> 0" using n by (cases e) (auto simp: defs split: if_splits)
    then show ?thesis using bad_window_snoc [OF h(3)] False by blast
  qed
qed

lemma history_run: "history opts evs"
proof (induction evs rule: rev_induct)
  case Nil
  show ?case by (simp add: history_def mon_after_def New_Monitor_def unanswered_def)
next
  case (snoc e evs)
  let ?m = "mon_after opts evs" and ?m' = "mon_after opts (evs @ [e])"
  have old: "condSince ?m = Some t \<Longrightarrow> (mState ?m = StateHealthy \<longrightarrow> sustained opts evs over t) \<and> (mState ?m = StateDown \<longrightarrow> sustained opts evs under t)" for t
    using snoc.IH by (simp add: history_def Let_def)
  have "(mState ?m' = StateHealthy \<longrightarrow> sustained opts (evs @ [e]) over t) \<and> (mState ?m' = StateDown \<longrightarrow> sustained opts (evs @ [e]) under t)"
    if c: "condSince ?m' = Some t" for t
  proof (cases "\<exists>u. e = EvTick u")
    case True
    then obtain u where u: "e = EvTick u" by blast
    then have "mState ?m' = mState ?m" "t = u \<and> condSince ?m = None \<or> condSince ?m = Some t" "mState ?m = StateHealthy \<longrightarrow> over ?m" "mState ?m = StateDown \<longrightarrow> under ?m"
      using timer_tick [of ?m u] c by (auto simp: mon_snoc Let_def split: if_splits)
    then show ?thesis using old [of t] u sustained_start sustained_snoc by metis
  next
    case False
    then have "condSince ?m = Some t" "mState ?m' = mState ?m" using timer_other [of e ?m] c by (auto simp: mon_snoc)
    then show ?thesis using old [of t] False sustained_snoc by metis
  qed
  then show ?case using history_counts [OF snoc.IH, of e] by (simp add: history_def Let_def)
qed

text \<open>The timer of a HEALTHY path that has been over the threshold runs at least since then.\<close>

lemma tick_in: "sustained opts evs P t \<Longrightarrow> t \<in> set (tick_times evs)"
  by (auto simp: sustained_def tick_times_def)

lemma healthy_before:
  assumes "mState (fst (health_step m e)) = StateHealthy" "\<And>t. e \<noteq> EvTick t"
  shows "mState m = StateHealthy \<and> condSince (fst (health_step m e)) = condSince m"
  using assms by (cases e) (auto simp: ObserveSample_def NoteAlive_def noteAliveLocked_def NoteMissedProbe_def ObserveInBand_def ObserveRaw_def
      Monitor_Reload_def update_loss_def setState_def Let_def split: if_splits)

lemma over_tick:
  assumes "over m" "mState (Monitor_Tick m now) = StateHealthy"
  shows "condSince (Monitor_Tick m now) = (if condSince m = None then Some now else condSince m)"
  using assms by (auto simp: over_def Monitor_Tick_def tickLocked_def sustain_def setState_def split: if_splits option.splits)

lemma timer_started:
  assumes "mState (mon_after opts evs) = StateHealthy" "sustained opts evs over t" "sorted (tick_times evs)"
  shows "\<exists>t'. condSince (mon_after opts evs) = Some t' \<and> t' \<le> t"
  using assms
proof (induction evs rule: rev_induct)
  case Nil
  then show ?case by (simp add: sustained_def)
next
  case (snoc e evs)
  let ?m = "mon_after opts evs"
  have s: "sorted (tick_times evs)" using snoc.prems(3) by (auto simp: tick_times_def sorted_append)
  consider (start) "e = EvTick t" "over ?m" | (tick) u where "e = EvTick u" "over ?m" "sustained opts evs over t"
    | (other) "\<And>u. e \<noteq> EvTick u" "sustained opts evs over t" using sustained_snocD [OF snoc.prems(2)] by blast
  then show ?case
  proof cases
    case start
    have "t' \<le> t" if "condSince ?m = Some t'" for t'
    proof -
      have "t' \<in> set (tick_times evs)" using history_run [of opts evs] that start(2) tick_in by (auto simp: history_def over_def Let_def)
      then show ?thesis using snoc.prems(3) start(1) by (auto simp: tick_times_def sorted_append)
    qed
    then show ?thesis using over_tick [OF start(2), of t] snoc.prems(1) start(1) by (cases "condSince ?m") (auto simp: mon_snoc Let_def)
  next
    case tick
    then show ?thesis using snoc.IH [OF _ tick(3) s] over_tick [OF tick(2), of u] snoc.prems(1) tick(1,2) by (auto simp: mon_snoc over_def Let_def)
  next
    case other
    then show ?thesis using snoc.IH [OF _ other(2) s] healthy_before [of ?m e] snoc.prems(1) by (auto simp: mon_snoc)
  qed
qed

section \<open>Recovery\<close>

text \<open>Events of a path that answers: responses without loss, and ticks no later than \<open>tmax\<close>.\<close>

fun good_event :: "int \<Rightarrow> health_event \<Rightarrow> bool" where
  "good_event tmax (EvSample l r) \<longleftrightarrow> l = Fin 0 \<and> r \<le> 2 ^ 53"
| "good_event tmax EvAlive \<longleftrightarrow> True"
| "good_event tmax (EvInBand l) \<longleftrightarrow> l = Fin 0"
| "good_event tmax (EvRaw l) \<longleftrightarrow> l = Fin 0"
| "good_event tmax (EvTick t) \<longleftrightarrow> t \<le> tmax"
| "good_event tmax _ \<longleftrightarrow> False"

definition recovering :: "f64 \<Rightarrow> int \<Rightarrow> int \<Rightarrow> Monitor \<Rightarrow> bool" where
  "recovering ml ra t1 m \<longleftrightarrow>
     health_inv m \<and> mLoss m = Fin 0 \<and> misses m = 0 \<and> maxLoss m = ml \<and> recoverAft m = ra \<and>
     (mState m = StateHealthy
      \<or> mState m = StateDown \<and> revived m \<and> (\<forall>t. condSince m = Some t \<longrightarrow> t \<le> t1))"

definition timing :: "f64 \<Rightarrow> int \<Rightarrow> int \<Rightarrow> Monitor \<Rightarrow> bool" where
  "timing ml ra t1 m \<longleftrightarrow> recovering ml ra t1 m \<and> (mState m = StateDown \<longrightarrow> condSince m \<noteq> None)"

lemma update_loss_zero:
  assumes "health_inv m" "mLoss m = Fin 0"
  shows "update_loss m (Fin 0) = m"
proof -
  obtain v where "alphaSlow m = Fin v" using assms(1) by (auto simp: health_inv_def weight_f64_def)
  then show ?thesis using assms(2) by (simp add: update_loss_def fsub_def f64_of_def)
qed

lemma ObserveSample_zero:
  assumes "recovering ml ra t1 m" "r \<le> 2 ^ 53"
  shows "recovering ml ra t1 (ObserveSample m (Fin 0) r)"
    "condSince (ObserveSample m (Fin 0) r) = condSince m"
  using assms health_inv_ObserveSample [of m "Fin 0" r] update_loss_zero [of m]
  by (auto simp: recovering_def ObserveSample_def Let_def noteAliveLocked_def)

lemma Tick_recovering:
  assumes r: "recovering ml ra t1 m" and ml: "flt (Fin 0) (fmul ml (Fin (1/2)))"
  shows "t \<le> t1 \<Longrightarrow> recovering ml ra t1 (Monitor_Tick m t)"
    and "t \<le> t1 \<Longrightarrow> mState (Monitor_Tick m t) = StateDown \<Longrightarrow> condSince (Monitor_Tick m t) \<noteq> None"
    and "timing ml ra t1 m \<Longrightarrow> timing ml ra t1 (Monitor_Tick m t)"
    and "timing ml ra t1 m \<Longrightarrow> t1 + ra \<le> t \<Longrightarrow> mState (Monitor_Tick m t) = StateHealthy"
proof -
  have inv: "health_inv (Monitor_Tick m t)" using r by (intro health_inv_Tick) (simp add: recovering_def)
  have half: "flt (Fin 0) (half_max m)" using r ml by (simp add: recovering_def half_max_def)
  have pos: "\<not> flt (maxLoss m) (Fin 0)" "\<not> missedDown m t"
    using r by (auto simp: recovering_def health_inv_def weight_f64_def missedDown_def)
  note defs = recovering_def Monitor_Tick_def tickLocked_def sustain_def setState_def half pos
  show "t \<le> t1 \<Longrightarrow> recovering ml ra t1 (Monitor_Tick m t)"
    using r inv by (auto simp: defs split: option.splits State.splits)
  show "t \<le> t1 \<Longrightarrow> mState (Monitor_Tick m t) = StateDown \<Longrightarrow> condSince (Monitor_Tick m t) \<noteq> None"
    using r half by (auto simp: defs split: option.splits State.splits if_splits)
  show "timing ml ra t1 m \<Longrightarrow> timing ml ra t1 (Monitor_Tick m t)"
    using inv half by (auto simp: timing_def defs split: option.splits State.splits)
  show "timing ml ra t1 m \<Longrightarrow> t1 + ra \<le> t \<Longrightarrow> mState (Monitor_Tick m t) = StateHealthy"
    using half by (auto simp: timing_def defs split: option.splits State.splits)
qed

lemma recovering_frame:
  assumes "recovering ml ra t1 m"
  shows "recovering ml ra t1 (noteAliveLocked m)" "condSince (noteAliveLocked m) = condSince m"
    "ObserveInBand m (Fin 0) = m\<lparr>inBandBad := 0\<rparr>" "ObserveRaw m (Fin 0) = m"
    "recovering ml ra t1 (m\<lparr>inBandBad := 0\<rparr>)"
proof -
  show "recovering ml ra t1 (m\<lparr>inBandBad := 0\<rparr>)"
    using assms by (auto simp: recovering_def health_inv_def)
  have inv: "health_inv m" and loss: "mLoss m = Fin 0" using assms by (simp_all add: recovering_def)
  have "\<not> flt (maxLoss m) (Fin 0)" using inv by (auto simp: health_inv_def weight_f64_def)
  then show "ObserveInBand m (Fin 0) = m\<lparr>inBandBad := 0\<rparr>" "ObserveRaw m (Fin 0) = m"
    by (simp_all add: ObserveInBand_def ObserveRaw_def update_loss_zero [OF inv loss])
  show "recovering ml ra t1 (noteAliveLocked m)" "condSince (noteAliveLocked m) = condSince m"
    using assms health_inv_noteAlive [OF inv] by (auto simp: recovering_def noteAliveLocked_def Let_def)
qed

lemma good_step:
  assumes r: "recovering ml ra t1 m" and ml: "flt (Fin 0) (fmul ml (Fin (1/2)))" and g: "good_event tmax e"
  shows "tmax \<le> t1 \<Longrightarrow> recovering ml ra t1 (fst (health_step m e))"
    and "timing ml ra t1 m \<Longrightarrow> timing ml ra t1 (fst (health_step m e))"
proof -
  note frames = recovering_frame [OF r] ObserveSample_zero [OF r] Tick_recovering [OF r ml]
  show "tmax \<le> t1 \<Longrightarrow> recovering ml ra t1 (fst (health_step m e))"
    using r g by (cases e) (auto simp: Let_def NoteAlive_def frames)
  show "timing ml ra t1 m \<Longrightarrow> timing ml ra t1 (fst (health_step m e))"
  proof (cases e)
    case (EvTick t)
    assume "timing ml ra t1 m"
    with EvTick frames(10) [of t] show ?thesis by (simp add: Let_def)
  qed (use g r in \<open>auto simp: Let_def NoteAlive_def frames timing_def\<close>)
qed

lemma good_run_recovering:
  assumes ml: "flt (Fin 0) (fmul ml (Fin (1/2)))"
  shows "recovering ml ra t1 m \<Longrightarrow> list_all (good_event t1) es
           \<Longrightarrow> recovering ml ra t1 (fst (exec health_step m es))"
proof (induction es arbitrary: m)
  case (Cons e es)
  then have "recovering ml ra t1 (fst (health_step m e))" by (intro good_step(1) [OF _ ml]) auto
  with Cons show ?case by (simp add: Let_def case_prod_unfold)
qed simp

lemma good_run_timing:
  assumes ml: "flt (Fin 0) (fmul ml (Fin (1/2)))"
  shows "timing ml ra t1 m \<Longrightarrow> list_all (good_event t2) es
           \<Longrightarrow> timing ml ra t1 (fst (exec health_step m es))"
proof (induction es arbitrary: m)
  case (Cons e es)
  then have "timing ml ra t1 (fst (health_step m e))"
    by (intro good_step(2) [OF _ ml, of _ _ m t2]) (auto simp: timing_def)
  with Cons show ?case by (simp add: Let_def case_prod_unfold)
qed simp

section \<open>Properties\<close>

text \<open>C21: In every run of admissible events from a fresh monitor the loss estimate is a double in
  [0, 1], RTT and jitter stay in [0, 2^53], the thresholds stay in range, and \<open>revived\<close> is
  set only in DOWN. The bound on the estimate holds with every rounding of the update.\<close>

theorem health_run_inv:
  assumes "opts_ok opts" "list_all health_adm es"
  shows "health_inv (fst (exec health_step (New_Monitor opts) es))"
  by (rule health.exec_inv [OF health_inv_New [OF assms(1)] assms(2)])

definition default_opts :: Options where
  "default_opts = \<lparr>o_MaxLoss = Fin 0, o_DegradeAfter = 0, o_RecoverAfter = 0, o_DownAfterMisses = 0,
     o_DownGrace = 0, o_LossAlphaFast = Fin 0, o_LossAlphaSlow = Fin 0, o_JitterAlpha = Fin 0\<rparr>"

lemma default_opts_ok: "opts_ok default_opts"
  by (simp add: opts_ok_def default_opts_def proper_f64_def)

theorem health_run_inv_witness:
  "health_inv (fst (exec health_step (New_Monitor default_opts) [EvSample (Fin 1) 0, EvTick 5, EvSample (Fin 0) 20]))"
  using health_run_inv [OF default_opts_ok, of "[EvSample (Fin 1) 0, EvTick 5, EvSample (Fin 0) 20]"]
  by (simp add: unit_f64_def)

text \<open>C15: The breaker has hysteresis.  Over every run of observations, misses, ticks and reloads: a tick
  takes a HEALTHY path to DEGRADED only if at every tick since some tick \<open>degradeAft\<close> ago, and now, the
  loss estimate was above the threshold, and an in-band window does so only if it and the window before
  it were bad; HEALTHY goes DOWN only after \<open>downAftMiss\<close> missed probes without a response in
  between; DOWN is left only to HEALTHY, and only if at every tick since some tick \<open>recoverAft\<close> ago the
  estimate was below half the threshold.  And the breaker does trip: with a clock that does not go
  back, a path that has been above the threshold at every tick for \<open>degradeAft\<close> does not stay
  HEALTHY, and without a grace time the \<open>downAftMiss\<close>-th unanswered probe takes the path DOWN.\<close>

theorem health_hysteresis:
  "let m = mon_after opts evs; m' = fst (health_step m e) in
    (mState m = StateHealthy \<and> mState m' = StateDegraded \<longrightarrow>
      (\<exists>now t. e = EvTick now \<and> over m \<and> sustained opts evs over t \<and> degradeAft m \<le> now - t) \<or>
      (\<exists>l. e = EvInBand l \<and> flt (maxLoss m) l \<and> bad_window opts evs))
    \<and> (mState m = StateHealthy \<and> mState m' = StateDown \<longrightarrow> downAftMiss m \<le> int (unanswered (evs @ [e])))
    \<and> (mState m = StateDown \<and> mState m' \<noteq> StateDown \<longrightarrow>
      mState m' = StateHealthy \<and> (\<exists>now t. e = EvTick now \<and> under m \<and> sustained opts evs under t \<and> recoverAft m \<le> now - t))
    \<and> (\<forall>now t. e = EvTick now \<and> sorted (tick_times evs) \<and> over m \<and> sustained opts evs over t \<and> degradeAft m \<le> now - t \<longrightarrow> mState m' \<noteq> StateHealthy)
    \<and> (\<forall>now. e = EvMissed now \<and> downGrace m \<le> 0 \<and> downAftMiss m \<le> int (unanswered (evs @ [e])) \<longrightarrow> mState m' = StateDown)"
proof -
  define m where "m = mon_after opts evs"
  define m' where "m' = fst (health_step m e)"
  have h: "misses m = int (unanswered evs)" "0 \<le> inBandBad m" "inBandBad m \<noteq> 0 \<longrightarrow> bad_window opts evs"
    "\<forall>t. condSince m = Some t \<longrightarrow> (mState m = StateHealthy \<longrightarrow> sustained opts evs over t) \<and> (mState m = StateDown \<longrightarrow> sustained opts evs under t)"
    using history_run [of opts evs] by (simp_all add: history_def m_def Let_def)
  have "\<exists>now t. e = EvTick now \<and> over m \<and> sustained opts evs over t \<and> degradeAft m \<le> now - t"
    if "e = EvTick now" "mState m = StateHealthy" "mState m' = StateDegraded" for now
    using that h by (auto simp: m'_def mState_Tick over_def held_for_def Let_def split: if_splits option.splits)
  moreover have "flt (maxLoss m) l \<and> bad_window opts evs" if "e = EvInBand l" "mState m = StateHealthy" "mState m' = StateDegraded" for l
    using that h by (auto simp: m'_def ObserveInBand_def Let_def split: if_splits)
  moreover have "downAftMiss m \<le> int (unanswered (evs @ [e]))" if "mState m = StateHealthy" "mState m' = StateDown"
    using that h by (cases e) (auto simp: m'_def mState_Tick missedDown_def NoteMissedProbe_def NoteAlive_def ObserveInBand_def ObserveRaw_def
        Monitor_Reload_def unanswered_snoc Let_def split: if_splits)
  moreover have "mState m' = StateHealthy \<and> (\<exists>now t. e = EvTick now \<and> under m \<and> sustained opts evs under t \<and> recoverAft m \<le> now - t)"
    if "mState m = StateDown" "mState m' \<noteq> StateDown"
    using that h by (cases e) (auto simp: m'_def mState_Tick NoteMissedProbe_def NoteAlive_def ObserveInBand_def ObserveRaw_def
        Monitor_Reload_def under_def held_for_def Let_def split: if_splits option.splits)
  moreover have "mState m' \<noteq> StateHealthy"
    if c: "e = EvTick now" "sorted (tick_times evs)" "over m" "sustained opts evs over t" "degradeAft m \<le> now - t" for now t
  proof -
    obtain t' where "condSince m = Some t'" "t' \<le> t" using timer_started [of opts evs t] c(2,3,4) by (auto simp: m_def over_def)
    then have "held_for m now (degradeAft m)" using c(5) by (simp add: held_for_def)
    then show ?thesis using c(1,3) by (simp add: m'_def mState_Tick over_def)
  qed
  moreover have "mState m' = StateDown" if "e = EvMissed now" "downGrace m \<le> 0" "downAftMiss m \<le> int (unanswered (evs @ [e]))" for now
    using that h by (auto simp: m'_def NoteMissedProbe_def unanswered_snoc Let_def)
  moreover have "(\<exists>now. e = EvTick now) \<or> (\<exists>l. e = EvInBand l)" if "mState m = StateHealthy" "mState m' = StateDegraded"
    using that by (cases e) (auto simp: m'_def NoteMissedProbe_def NoteAlive_def ObserveRaw_def Monitor_Reload_def Let_def split: if_splits)
  ultimately show ?thesis unfolding Let_def m_def [symmetric] m'_def [symmetric] by blast
qed

theorem health_hysteresis_witness:
  "mState (mon_after default_opts [EvMissed 0, EvMissed 1]) = StateHealthy
   \<and> mState (fst (health_step (mon_after default_opts [EvMissed 0, EvMissed 1]) (EvMissed 2))) = StateDown"
proof -
  note defs = mon_after_def New_Monitor_def default_opts_def NoteMissedProbe_def unanswered_def
  have "downGrace (mon_after default_opts [EvMissed 0, EvMissed 1]) \<le> 0"
    "downAftMiss (mon_after default_opts [EvMissed 0, EvMissed 1]) \<le> int (unanswered ([EvMissed 0, EvMissed 1] @ [EvMissed 2]))"
    "mState (mon_after default_opts [EvMissed 0, EvMissed 1]) = StateHealthy" by (simp_all add: defs)
  then show ?thesis using health_hysteresis [of default_opts "[EvMissed 0, EvMissed 1]" "EvMissed 2"] unfolding Let_def by blast
qed

text \<open>C22: A DOWN path that answers again and keeps answering without loss returns to HEALTHY: after
  the first response, the path is HEALTHY at the latest at a tick \<open>recoverAft\<close> after the
  first tick that saw it alive, whatever responses and ticks come in between.\<close>

theorem health_recovers:
  assumes "health_inv m" "mState m = StateDown" "\<not> revived m"
    and "flt (Fin 0) (half_max m)"
    and "list_all (good_event t1) es1" "list_all (good_event t2) es2" "t1 + recoverAft m \<le> t2"
  shows "mState (fst (exec health_step m (EvAlive # es1 @ EvTick t1 # es2 @ [EvTick t2]))) = StateHealthy"
proof -
  have ml: "flt (Fin 0) (fmul (maxLoss m) (Fin (1/2)))" using assms(4) by (simp add: half_max_def)
  note runs = good_run_recovering [OF ml] good_run_timing [OF ml] and ticks = Tick_recovering [OF _ ml]
  have "recovering (maxLoss m) (recoverAft m) t1 (NoteAlive m)"
    using assms(1-3) health_inv_noteAlive [of m] by (simp add: recovering_def NoteAlive_def noteAliveLocked_def Let_def)
  from runs(1) [OF this assms(5)]
  have "recovering (maxLoss m) (recoverAft m) t1 (fst (exec health_step (NoteAlive m) es1))" (is "recovering _ _ _ ?m1") .
  then have "timing (maxLoss m) (recoverAft m) t1 (Monitor_Tick ?m1 t1)"
    using ticks(1,2) by (auto simp: timing_def)
  from runs(2) [OF this assms(6)] have "timing (maxLoss m) (recoverAft m) t1
      (fst (exec health_step (Monitor_Tick ?m1 t1) es2))" (is "timing _ _ _ ?m2") .
  then have "mState (Monitor_Tick ?m2 t2) = StateHealthy"
    using ticks(4) assms(7) by (auto simp: timing_def)
  then show ?thesis by (simp add: exec_append Let_def case_prod_unfold)
qed

definition down_monitor :: Monitor where
  "down_monitor = (New_Monitor default_opts)\<lparr>mState := StateDown\<rparr>"

lemma down_monitor_inv: "health_inv down_monitor"
  using health_inv_New [OF default_opts_ok] by (simp add: down_monitor_def health_inv_def New_Monitor_def)

lemma default_max_loss:
  "out_of_unit (Fin 0)" "flt (Fin 0) (fmul (f64_of (1/5)) (Fin (1/2)))" "\<not> flt (f64_of (1/5)) (Fin 0)"
  "flt (f64_of (1/5)) (f64_of (2/5))"
proof -
  have v: "1/8 \<le> rnd (1/5)" "rnd (1/5) \<le> 1" "rnd (1/5) < rnd (2/5)" by code_simp+
  have "rnd (1/16) = 1/16" by code_simp
  with v have "1/16 \<le> rnd (rnd (1/5) * (1/2))" using rnd_mono [of "1/16" "rnd (1/5) * (1/2)"] by simp
  then show "flt (Fin 0) (fmul (f64_of (1/5)) (Fin (1/2)))" using v by (simp add: f64_unit)
  show "\<not> flt (f64_of (1/5)) (Fin 0)" "flt (f64_of (1/5)) (f64_of (2/5))" using v by (simp_all add: f64_unit)
qed (simp add: out_of_unit_def)

lemma default_update: "update_loss (New_Monitor default_opts\<lparr>mState := s, condSince := c\<rparr>) (Fin 1)
    = New_Monitor default_opts\<lparr>mState := s, condSince := c, mLoss := f64_of (2/5)\<rparr>"
proof -
  have "\<bar>rnd (2/5)\<bar> \<le> 1" by code_simp
  then show ?thesis
    by (simp add: update_loss_def New_Monitor_def default_opts_def default_max_loss(1) fsub_def f64_unit)
qed

theorem health_recovers_witness:
  "mState (fst (exec health_step down_monitor
     (EvAlive # [EvTick 1, EvSample (Fin 0) 30] @ EvTick 5 # [EvRaw (Fin 0)] @ [EvTick (11 * Second)]))) = StateHealthy"
proof -
  have "flt (Fin 0) (half_max down_monitor)"
    by (simp add: half_max_def down_monitor_def New_Monitor_def default_opts_def default_max_loss)
  moreover have "mState down_monitor = StateDown" "\<not> revived down_monitor" "5 + recoverAft down_monitor \<le> 11 * Second"
    by (simp_all add: down_monitor_def New_Monitor_def default_opts_def Second_def)
  moreover have "list_all (good_event 5) [EvTick 1, EvSample (Fin 0) 30]"
    "list_all (good_event (11 * Second)) [EvRaw (Fin 0)]" by simp_all
  ultimately show ?thesis
    using health_recovers [OF down_monitor_inv] by blast
qed

text \<open>C23: DEGRADED has one timer for two conditions. When a recovering path (loss below half of the
  threshold since \<open>t\<close>) sees a single bad sample that lifts the estimate over the threshold,
  the next tick takes the path DOWN as soon as \<open>degradeAft\<close> has passed since \<open>t\<close>: the time
  spent recovering counts as time spent over the threshold.\<close>

theorem degraded_timer_shared:
  assumes "mState m = StateDegraded" "condSince m = Some t" "flt (mLoss m) (half_max m)"
    and "flt (maxLoss m) (mLoss (update_loss m l))"
    and "degradeAft m \<le> now - t" "\<not> missedDown m now"
  shows "mState (Monitor_Tick (ObserveSample m l 0) now) = StateDown"
proof -
  have "missedDown (update_loss m l) now = missedDown m now"
    by (simp add: missedDown_def cong: option.case_cong)
  moreover have "held_for (update_loss m l) now (degradeAft m)"
    using assms by (simp add: held_for_def)
  ultimately
  show ?thesis using assms by (simp add: mState_Tick ObserveSample_def Let_def)
qed

definition recovering_monitor :: Monitor where
  "recovering_monitor = New_Monitor default_opts\<lparr>mState := StateDegraded, condSince := Some 0\<rparr>"

theorem degraded_timer_shared_witness:
  "flt (mLoss recovering_monitor) (half_max recovering_monitor)
   \<and> mState (Monitor_Tick recovering_monitor (9 * Second)) = StateDegraded
   \<and> mState (Monitor_Tick (ObserveSample recovering_monitor (Fin 1) 0) (9 * Second)) = StateDown"
proof -
  note defs = recovering_monitor_def New_Monitor_def default_opts_def
  have half: "flt (mLoss recovering_monitor) (half_max recovering_monitor)"
    by (simp add: half_max_def defs default_max_loss)
  have missed: "\<not> missedDown recovering_monitor (9 * Second)" by (simp add: missedDown_def defs)
  have "mState (Monitor_Tick recovering_monitor (9 * Second)) = StateDegraded"
    using missed by (simp add: mState_Tick) (simp add: held_for_def Second_def defs default_max_loss)
  moreover have "flt (maxLoss recovering_monitor) (mLoss (update_loss recovering_monitor (Fin 1)))"
    unfolding recovering_monitor_def default_update by (simp add: New_Monitor_def default_opts_def default_max_loss)
  then have "mState (Monitor_Tick (ObserveSample recovering_monitor (Fin 1) 0) (9 * Second)) = StateDown"
    by (intro degraded_timer_shared [OF _ _ half _ _ missed, of 0]) (simp_all add: defs Second_def)
  ultimately show ?thesis using half by blast
qed

end
