(* ===== verification/Scheduler.thy ===== *)
theory Scheduler
  imports Frame Health
begin

unbundle bit_operations_syntax

text \<open>
  The path scheduler of \<open>internal/scheduler/scheduler.go\<close>. The record \<open>Scheduler\<close> holds the
  paths in configuration order, the keys of the \<open>byID\<close> map, and the consistent-hash ring.
  The objects that \<open>paths\<close> and \<open>byID\<close> share are identified by their path ID: reading or
  writing through a pointer is reading or writing the path with that ID. The number that
  \<open>rng.Float64()\<close> yields is an argument of \<open>Pick\<close>. \<open>ringVer\<close> counts without bound.

  Shown here: a pick is always a usable path and fails exactly when there is none; the
  standby order; consistent hashing moves only the flows of a path that leaves; smooth
  weighted round-robin is exactly fair over a period of integer weights.
\<close>

record SchedOptions =
  so_Mode :: string
  so_Affinity :: string
  so_BalanceBy :: string

definition ModeLB :: string where "ModeLB = ''lb''"
definition ModeStandby :: string where "ModeStandby = ''standby''"
definition AffPacket :: string where "AffPacket = ''packet''"
definition AffFlow :: string where "AffFlow = ''flow''"
definition ByCapacity :: string where "ByCapacity = ''capacity''"
definition ByRound :: string where "ByRound = ''roundrobin''"

definition weightDegraded :: f64 where "weightDegraded = f64_of (1/5)"

record path =
  p_id :: string
  p_capacity :: f64
  p_state :: State
  p_loss :: f64
  p_rr :: f64

record Scheduler =
  s_opts :: SchedOptions
  s_paths :: "path list"
  s_byID :: "string set"
  s_ring :: "u32 list"
  s_ringPaths :: "(u32 \<times> string) list"
  s_lastRingVer :: nat
  s_ringVer :: nat

record PathInfo =
  pi_ID :: string
  pi_CapacityMbps :: f64
  pi_State :: string
  pi_Loss :: f64

section \<open>Path table\<close>

definition Paths :: "Scheduler \<Rightarrow> PathInfo list" where
  "Paths s = map (\<lambda>p. \<lparr>pi_ID = p_id p, pi_CapacityMbps = p_capacity p,
                       pi_State = State_String (p_state p), pi_Loss = p_loss p\<rparr>) (s_paths s)"

definition New_Scheduler :: "SchedOptions \<Rightarrow> Scheduler" where
  "New_Scheduler opts =
     (let opts = (if so_Mode opts = [] then opts\<lparr>so_Mode := ModeLB\<rparr> else opts);
          opts = (if so_Affinity opts = [] then opts\<lparr>so_Affinity := AffPacket\<rparr> else opts);
          opts = (if so_BalanceBy opts = [] then opts\<lparr>so_BalanceBy := ByCapacity\<rparr> else opts)
      in \<lparr>s_opts = opts, s_paths = [], s_byID = {}, s_ring = [], s_ringPaths = [],
          s_lastRingVer = 0, s_ringVer = 0\<rparr>)"

text \<open>Writing through the pointer to the path with a given ID.\<close>

definition upd_path :: "string \<Rightarrow> (path \<Rightarrow> path) \<Rightarrow> Scheduler \<Rightarrow> Scheduler" where
  "upd_path pid f s = s\<lparr>s_paths := map (\<lambda>p. if p_id p = pid then f p else p) (s_paths s)\<rparr>"

definition AddPath :: "Scheduler \<Rightarrow> string \<Rightarrow> f64 \<Rightarrow> Scheduler" where
  "AddPath s pid capacityMbps =
     (if pid \<in> s_byID s then upd_path pid (\<lambda>p. p\<lparr>p_capacity := capacityMbps\<rparr>) s
      else
        (let p = \<lparr>p_id = pid, p_capacity = capacityMbps, p_state = StateHealthy, p_loss = Fin 0, p_rr = Fin 0\<rparr>
         in s\<lparr>s_paths := s_paths s @ [p], s_byID := insert pid (s_byID s), s_ringVer := s_ringVer s + 1\<rparr>))"

fun remove_first :: "string \<Rightarrow> path list \<Rightarrow> path list" where
  "remove_first pid [] = []"
| "remove_first pid (p # ps) = (if p_id p = pid then ps else p # remove_first pid ps)"

definition RemovePath :: "Scheduler \<Rightarrow> string \<Rightarrow> Scheduler" where
  "RemovePath s pid =
     (if pid \<notin> s_byID s then s
      else s\<lparr>s_byID := s_byID s - {pid}, s_paths := remove_first pid (s_paths s), s_ringVer := s_ringVer s + 1\<rparr>)"

definition OnState :: "Scheduler \<Rightarrow> string \<Rightarrow> State \<Rightarrow> f64 \<Rightarrow> Scheduler" where
  "OnState s pid st loss =
     (if pid \<in> s_byID s
      then (upd_path pid (\<lambda>p. p\<lparr>p_state := st, p_loss := loss\<rparr>) s)\<lparr>s_ringVer := s_ringVer s + 1\<rparr>
      else s)"

definition usableLocked :: "Scheduler \<Rightarrow> path list" where
  "usableLocked s = filter (\<lambda>p. p_state p \<noteq> StateDown) (s_paths s)"

definition sched_Healthy :: "Scheduler \<Rightarrow> bool" where
  "sched_Healthy s \<longleftrightarrow> 0 < length (usableLocked s)"

definition weightLocked :: "Scheduler \<Rightarrow> path \<Rightarrow> f64" where
  "weightLocked s p =
     (case p_state p of
        StateDown \<Rightarrow> Fin 0
      | StateDegraded \<Rightarrow> weightDegraded
      | StateHealthy \<Rightarrow>
          (if so_BalanceBy (s_opts s) = ByRound \<or> fle (p_capacity p) (Fin 0) then Fin 1 else p_capacity p))"

section \<open>Weighted picks\<close>

fun weighted_loop :: "Scheduler \<Rightarrow> f64 \<Rightarrow> path list \<Rightarrow> string option" where
  "weighted_loop s r [] = None"
| "weighted_loop s r (p # ps) =
     (let r = fsub r (weightLocked s p)
      in if fle r (Fin 0) then Some (p_id p) else weighted_loop s r ps)"

text \<open>\<open>draw\<close> is what \<open>rng.Float64()\<close> returns.\<close>

definition pickWeightedLocked :: "Scheduler \<Rightarrow> f64 \<Rightarrow> path list \<Rightarrow> string" where
  "pickWeightedLocked s draw usable =
     (let tot = foldl (\<lambda>t p. fadd t (weightLocked s p)) (Fin 0) usable
      in if fle tot (Fin 0) then p_id (hd usable)
         else case weighted_loop s (fmul draw tot) usable of
                Some pid \<Rightarrow> pid
              | None \<Rightarrow> p_id (last usable))"

section \<open>Consistent hashing\<close>

definition fnv1a :: "string \<Rightarrow> u32 \<Rightarrow> u32" where
  "fnv1a pid v =
     (let h = foldl (\<lambda>h c. (h XOR of_char c) * 16777619) 2166136261 pid
      in (h XOR v) * 16777619)"

text \<open>\<open>paths[node] = p.id\<close>: the latest entry of the association list is in front.\<close>

definition path_nodes :: "string \<Rightarrow> (u32 \<times> string) list" where
  "path_nodes pid = map (\<lambda>v. (fnv1a pid (of_nat v), pid)) [0..<64]"

definition ring_nodes :: "path list \<Rightarrow> (u32 \<times> string) list" where
  "ring_nodes usable = concat (map (\<lambda>p. path_nodes (p_id p)) usable)"

definition buildRing :: "Scheduler \<Rightarrow> path list \<Rightarrow> Scheduler" where
  "buildRing s usable =
     (let nodes = ring_nodes usable
      in s\<lparr>s_ring := sort (map fst nodes), s_ringPaths := rev nodes, s_lastRingVer := s_ringVer s\<rparr>)"

text \<open>\<open>sort.Search\<close>: the least index at which the predicate holds, or the length.\<close>

definition sort_Search :: "nat \<Rightarrow> (nat \<Rightarrow> bool) \<Rightarrow> nat" where
  "sort_Search n f = length (takeWhile (\<lambda>i. \<not> f i) [0..<n])"

definition ring_index :: "u32 list \<Rightarrow> u32 \<Rightarrow> nat" where
  "ring_index ring h =
     (let i = sort_Search (length ring) (\<lambda>i. h \<le> ring ! i) in if i = length ring then 0 else i)"

text \<open>A Go map lookup: the zero value for a missing key.\<close>

definition lookup_str :: "(u32 \<times> string) list \<Rightarrow> u32 \<Rightarrow> string" where
  "lookup_str m k = (case map_of m k of None \<Rightarrow> [] | Some v \<Rightarrow> v)"

definition pickRingLocked :: "Scheduler \<Rightarrow> u64 \<Rightarrow> path list \<Rightarrow> Scheduler \<times> string" where
  "pickRingLocked s h usable =
     (let s = (if s_ring s = [] \<or> s_lastRingVer s \<noteq> s_ringVer s then buildRing s usable else s)
      in (s, lookup_str (s_ringPaths s) (s_ring s ! ring_index (s_ring s) (ucast h))))"

definition parseInnerHash :: "bytes \<Rightarrow> u64 option" where
  "parseInnerHash payload =
     (if length payload < 20 then None
      else if drop_bit 4 (payload ! 0) \<noteq> 4 then None
      else
        (let ihl = unat (payload ! 0 AND 0x0f) * 4 in
         if ihl < 20 \<or> length payload < ihl then None
         else
           (let proto = payload ! 9;
                base = push_bit 32 (ucast (get_u32 payload 12)) OR ucast (get_u32 payload 16)
            in if (proto = 6 \<or> proto = 17) \<and> ihl + 4 \<le> length payload
               then Some (base XOR push_bit 16 (ucast (get_u16 payload ihl)) XOR ucast (get_u16 payload (ihl + 2)))
               else Some base)))"

section \<open>Picking\<close>

definition Pick :: "Scheduler \<Rightarrow> frame \<Rightarrow> f64 \<Rightarrow> Scheduler \<times> string option" where
  "Pick s f draw =
     (let usable = usableLocked s in
      if length usable = 0 then (s, None)
      else if so_Mode (s_opts s) = ModeStandby then
        (case find (\<lambda>p. p_state p = StateHealthy) usable of
           Some p \<Rightarrow> (s, Some (p_id p))
         | None \<Rightarrow> (s, Some (p_id (hd usable))))
      else
        (case (if so_Affinity (s_opts s) = AffFlow then parseInnerHash (fPayload f) else None) of
           Some h \<Rightarrow> (let (s, pid) = pickRingLocked s h usable in (s, Some pid))
         | None \<Rightarrow> (s, Some (pickWeightedLocked s draw usable))))"

text \<open>The loop of \<open>PickWRR\<close> runs over pointers, here IDs; \<open>best\<close> is a pointer too.\<close>

definition path_of :: "Scheduler \<Rightarrow> string \<Rightarrow> path" where
  "path_of s pid = hd (filter (\<lambda>p. p_id p = pid) (s_paths s))"

definition set_rr :: "string \<Rightarrow> f64 \<Rightarrow> Scheduler \<Rightarrow> Scheduler" where
  "set_rr pid v s = upd_path pid (\<lambda>p. p\<lparr>p_rr := v\<rparr>) s"

fun wrr_loop :: "Scheduler \<Rightarrow> string list \<Rightarrow> f64 \<Rightarrow> string \<Rightarrow> Scheduler \<times> f64 \<times> string" where
  "wrr_loop s [] tot best = (s, tot, best)"
| "wrr_loop s (pid # pids) tot best =
     (let w = weightLocked s (path_of s pid);
          s = set_rr pid (fadd (p_rr (path_of s pid)) w) s;
          tot = fadd tot w;
          best = (if flt (p_rr (path_of s best)) (p_rr (path_of s pid)) then pid else best)
      in wrr_loop s pids tot best)"

definition PickWRR :: "Scheduler \<Rightarrow> Scheduler \<times> string option" where
  "PickWRR s =
     (let usable = map p_id (usableLocked s) in
      if length usable = 0 then (s, None)
      else
        (let (s, tot, best) = wrr_loop s usable (Fin 0) (hd usable) in
         if fle tot (Fin 0) then (s, Some best)
         else (set_rr best (fsub (p_rr (path_of s best)) tot) s, Some best)))"

section \<open>Runs\<close>

datatype sched_event =
    EvAddPath string f64
  | EvRemovePath string
  | EvOnState string State f64
  | EvPick frame f64
  | EvPickWRR

fun sched_step :: "Scheduler \<Rightarrow> sched_event \<Rightarrow> Scheduler \<times> string option list" where
  "sched_step s (EvAddPath pid c) = (AddPath s pid c, [])"
| "sched_step s (EvRemovePath pid) = (RemovePath s pid, [])"
| "sched_step s (EvOnState pid st l) = (OnState s pid st l, [])"
| "sched_step s (EvPick f d) = (let (s, r) = Pick s f d in (s, [r]))"
| "sched_step s EvPickWRR = (let (s, r) = PickWRR s in (s, [r]))"

section \<open>The ring\<close>

text \<open>The node a hash falls on: the least node from the hash on, or else the least node.\<close>

definition is_succ :: "u32 set \<Rightarrow> u32 \<Rightarrow> u32 \<Rightarrow> bool" where
  "is_succ A h n \<longleftrightarrow> n \<in> A \<and>
     (if h \<le> n then \<forall>x\<in>A. h \<le> x \<longrightarrow> n \<le> x else \<forall>x\<in>A. x < h \<and> n \<le> x)"

lemma is_succ_unique: "is_succ A h n \<Longrightarrow> is_succ A h m \<Longrightarrow> n = m"
  by (force simp: is_succ_def split: if_splits)

lemma is_succ_subset: "is_succ A h n \<Longrightarrow> A' \<subseteq> A \<Longrightarrow> n \<in> A' \<Longrightarrow> is_succ A' h n"
  by (auto simp: is_succ_def split: if_splits)

lemma sort_Search_bounds:
  "sort_Search n f \<le> n" "i < sort_Search n f \<Longrightarrow> \<not> f i" "sort_Search n f < n \<Longrightarrow> f (sort_Search n f)"
proof -
  show le: "sort_Search n f \<le> n"
    using length_takeWhile_le [of "\<lambda>i. \<not> f i" "[0..<n]"] by (simp add: sort_Search_def)
  show "\<not> f i" if "i < sort_Search n f"
  proof -
    have "takeWhile (\<lambda>i. \<not> f i) [0..<n] ! i \<in> set (takeWhile (\<lambda>i. \<not> f i) [0..<n])"
      using that by (simp add: sort_Search_def)
    moreover have "takeWhile (\<lambda>i. \<not> f i) [0..<n] ! i = i"
      using that le by (simp add: takeWhile_nth sort_Search_def)
    ultimately show ?thesis by (metis set_takeWhileD)
  qed
  show "f (sort_Search n f)" if "sort_Search n f < n"
    using that nth_length_takeWhile [of "\<lambda>i. \<not> f i" "[0..<n]"] by (simp add: sort_Search_def)
qed

lemma ring_index_succ:
  assumes "ring \<noteq> []" "sorted ring"
  shows "ring_index ring h < length ring" "is_succ (set ring) h (ring ! ring_index ring h)"
proof -
  let ?i = "sort_Search (length ring) (\<lambda>i. h \<le> ring ! i)"
  note b = sort_Search_bounds [where n = "length ring" and f = "\<lambda>i. h \<le> ring ! i"]
  have "ring_index ring h < length ring \<and> is_succ (set ring) h (ring ! ring_index ring h)"
  proof (cases "?i = length ring")
    case True
    then have "x < h" if "x \<in> set ring" for x
      using b(2) that by (auto simp: in_set_conv_nth not_le)
    moreover have "ring ! 0 \<le> x" if "x \<in> set ring" for x
      using assms that by (auto simp: in_set_conv_nth intro: sorted_nth_mono)
    ultimately show ?thesis using True assms(1) by (auto simp: ring_index_def is_succ_def Let_def not_le)
  next
    case False
    with b(1) have i: "?i < length ring" by simp
    have "ring ! ?i \<le> x" if "x \<in> set ring" "h \<le> x" for x
    proof -
      obtain j where j: "j < length ring" "x = ring ! j" using \<open>x \<in> set ring\<close> by (auto simp: in_set_conv_nth)
      then have "?i \<le> j" using b(2) [of j] that(2) by (metis not_le)
      then show ?thesis using j assms(2) by (simp add: sorted_nth_mono)
    qed
    then show ?thesis using i b(3) [OF i] by (simp add: ring_index_def is_succ_def Let_def)
  qed
  then show "ring_index ring h < length ring" "is_succ (set ring) h (ring ! ring_index ring h)" by auto
qed

text \<open>The path a hash is sent to on the ring of the usable paths.\<close>

definition ring_pick :: "path list \<Rightarrow> u32 \<Rightarrow> string" where
  "ring_pick us h =
     (let ring = sort (map fst (ring_nodes us))
      in lookup_str (rev (ring_nodes us)) (ring ! ring_index ring h))"

lemma path_nodes_not_Nil [simp]: "path_nodes pid \<noteq> []"
  using length_map [of "\<lambda>v. (fnv1a pid (of_nat v), pid)" "[0..<64]"]
  unfolding path_nodes_def length_upt by (metis list.size(3) numeral_neq_zero diff_zero)

lemma snd_path_nodes: "(n, q) \<in> set (path_nodes pid) \<Longrightarrow> q = pid"
  unfolding path_nodes_def by (auto simp del: upt_rec_numeral)

lemma ring_nodes_Nil [simp]: "ring_nodes us = [] \<longleftrightarrow> us = []"
  by (cases us) (simp_all add: ring_nodes_def)

lemma ring_nodes_ids: "map p_id us = map p_id vs \<Longrightarrow> ring_nodes us = ring_nodes vs"
proof -
  assume ids: "map p_id us = map p_id vs"
  have "ring_nodes ws = concat (map path_nodes (map p_id ws))" for ws
    by (simp only: ring_nodes_def map_map comp_def)
  then show ?thesis by (simp only: ids)
qed

lemma snd_ring_nodes: "(n, pid) \<in> set (ring_nodes us) \<Longrightarrow> pid \<in> p_id ` set us"
  by (auto simp: ring_nodes_def dest: snd_path_nodes)

lemma ring_nodes_filter:
  "ring_nodes (filter (\<lambda>p. Q (p_id p)) us) = filter (\<lambda>(n, pid). Q pid) (ring_nodes us)"
proof -
  have "filter (\<lambda>(n, q). Q q) (path_nodes pid) = (if Q pid then path_nodes pid else [])" for pid
  proof -
    have own: "snd x = pid" if "x \<in> set (path_nodes pid)" for x
      using that snd_path_nodes [of "fst x" "snd x" pid] by simp
    show ?thesis
    proof (cases "Q pid")
      case True
      then have "\<forall>x\<in>set (path_nodes pid). case x of (n, q) \<Rightarrow> Q q" using own by (simp add: case_prod_unfold)
      with True show ?thesis by (simp only: filter_True if_True)
    next
      case False
      then have "\<forall>x\<in>set (path_nodes pid). \<not> (case x of (n, q) \<Rightarrow> Q q)" using own by (simp add: case_prod_unfold)
      with False show ?thesis by (simp only: filter_False if_False)
    qed
  qed
  then show ?thesis by (induction us) (simp_all add: ring_nodes_def)
qed

text \<open>A pick is decided by the successor node and the last path that placed it.\<close>

lemma ring_pick_iff:
  assumes "us \<noteq> []"
  shows "ring_pick us h = pid \<longleftrightarrow>
    (\<exists>n. is_succ (fst ` set (ring_nodes us)) h n \<and> map_of (rev (ring_nodes us)) n = Some pid)"
proof -
  let ?ring = "sort (map fst (ring_nodes us))"
  have ne: "?ring \<noteq> []" using assms by (metis length_0_conv length_map length_sort ring_nodes_Nil)
  have succ: "is_succ (fst ` set (ring_nodes us)) h (?ring ! ring_index ?ring h)"
    using ring_index_succ(2) [OF ne sorted_sort, of h] by simp
  then obtain q where q: "map_of (rev (ring_nodes us)) (?ring ! ring_index ?ring h) = Some q"
    using map_of_eq_None_iff [of "rev (ring_nodes us)" "?ring ! ring_index ?ring h"]
    by (cases "map_of (rev (ring_nodes us)) (?ring ! ring_index ?ring h)") (simp_all add: is_succ_def)
  then have "ring_pick us h = q" by (simp add: ring_pick_def lookup_str_def Let_def)
  moreover have "n = ?ring ! ring_index ?ring h" if "is_succ (fst ` set (ring_nodes us)) h n" for n
    using is_succ_unique [OF that succ] .
  ultimately show ?thesis using q succ by (metis option.inject)
qed

lemma ring_pick_usable: "us \<noteq> [] \<Longrightarrow> ring_pick us h \<in> p_id ` set us"
  using ring_pick_iff [of us h "ring_pick us h"] snd_ring_nodes map_of_SomeD by fastforce

text \<open>Dropping paths from the ring keeps every flow whose path stays.\<close>

lemma ring_pick_filter:
  assumes "us \<noteq> []" "Q (ring_pick us h)"
  shows "ring_pick (filter (\<lambda>p. Q (p_id p)) us) h = ring_pick us h"
proof -
  obtain n where n: "is_succ (fst ` set (ring_nodes us)) h n"
    "map_of (rev (ring_nodes us)) n = Some (ring_pick us h)"
    using ring_pick_iff [OF assms(1)] by blast
  let ?ns = "ring_nodes (filter (\<lambda>p. Q (p_id p)) us)"
  have ns: "?ns = filter (\<lambda>(n, pid). Q pid) (ring_nodes us)" by (rule ring_nodes_filter)
  have "map_of (rev ?ns) n = Some (ring_pick us h)"
    using map_of_filter_in [OF n(2), of "\<lambda>_. Q"] assms(2) unfolding ns by (simp add: rev_filter)
  moreover have "is_succ (fst ` set ?ns) h n"
  proof (rule is_succ_subset [OF n(1)])
    show "fst ` set ?ns \<subseteq> fst ` set (ring_nodes us)" unfolding ns by auto
    show "n \<in> fst ` set ?ns" using map_of_SomeD [OF \<open>map_of (rev ?ns) n = _\<close>] by force
  qed
  moreover have "filter (\<lambda>p. Q (p_id p)) us \<noteq> []"
    using ring_pick_usable [OF assms(1), of h] assms(2) by (auto simp: filter_empty_conv)
  ultimately show ?thesis using ring_pick_iff by blast
qed

section \<open>The invariant\<close>

text \<open>IDs are unique, \<open>byID\<close> has the same keys as \<open>paths\<close>, and a ring that counts as current is the
  ring of the usable paths.\<close>

definition ring_current :: "Scheduler \<Rightarrow> bool" where
  "ring_current s \<longleftrightarrow> s_ring s \<noteq> [] \<and> s_lastRingVer s = s_ringVer s"

definition sched_inv :: "Scheduler \<Rightarrow> bool" where
  "sched_inv s \<longleftrightarrow>
     distinct (map p_id (s_paths s)) \<and> s_byID s = p_id ` set (s_paths s) \<and>
     s_lastRingVer s \<le> s_ringVer s \<and>
     (ring_current s \<longrightarrow>
        s_ring s = sort (map fst (ring_nodes (usableLocked s))) \<and>
        s_ringPaths s = rev (ring_nodes (usableLocked s)))"

lemma sched_inv_New: "sched_inv (New_Scheduler opts)"
  by (simp add: sched_inv_def New_Scheduler_def Let_def ring_current_def)

lemma upd_path_ids [simp]:
  "(\<And>p. p_id (f p) = p_id p) \<Longrightarrow> map p_id (s_paths (upd_path pid f s)) = map p_id (s_paths s)"
  by (simp add: upd_path_def)

lemma upd_path_usable_ids:
  assumes "\<And>p. p_id (f p) = p_id p" "\<And>p. p_state (f p) = p_state p"
  shows "map p_id (usableLocked (upd_path pid f s)) = map p_id (usableLocked s)"
proof -
  have "map p_id (filter (\<lambda>p. p_state p \<noteq> StateDown) (map (\<lambda>p. if p_id p = pid then f p else p) ps))
      = map p_id (filter (\<lambda>p. p_state p \<noteq> StateDown) ps)" for ps
    using assms by (induction ps) simp_all
  then show ?thesis by (simp add: upd_path_def usableLocked_def)
qed

lemma upd_path_frame [simp]:
  "s_byID (upd_path pid f s) = s_byID s" "s_ring (upd_path pid f s) = s_ring s"
  "s_ringPaths (upd_path pid f s) = s_ringPaths s" "s_lastRingVer (upd_path pid f s) = s_lastRingVer s"
  "s_ringVer (upd_path pid f s) = s_ringVer s" "s_opts (upd_path pid f s) = s_opts s"
  by (simp_all add: upd_path_def)

lemma sched_inv_upd:
  assumes "sched_inv s" "\<And>p. p_id (f p) = p_id p" "\<And>p. p_state (f p) = p_state p"
  shows "sched_inv (upd_path pid f s)"
  using assms ring_nodes_ids [OF upd_path_usable_ids [of f pid s]] upd_path_ids [of f pid s]
  by (simp add: sched_inv_def ring_current_def flip: set_map)

lemma set_remove_first:
  "distinct (map p_id ps) \<Longrightarrow> remove_first pid ps = filter (\<lambda>p. p_id p \<noteq> pid) ps"
proof (induction ps)
  case (Cons p ps)
  have "p_id q \<noteq> p_id p" if "q \<in> set ps" for q
    using Cons.prems that by (metis distinct.simps(2) image_eqI list.map(2) set_map)
  with Cons show ?case by (auto simp: filter_id_conv)
qed simp

lemma sched_inv_AddPath: "sched_inv s \<Longrightarrow> sched_inv (AddPath s pid c)"
  using sched_inv_upd [of s "\<lambda>p. p\<lparr>p_capacity := c\<rparr>" pid]
  by (auto simp: AddPath_def Let_def) (auto simp: sched_inv_def ring_current_def)

lemma sched_inv_RemovePath: "sched_inv s \<Longrightarrow> sched_inv (RemovePath s pid)"
  by (auto simp: RemovePath_def sched_inv_def ring_current_def set_remove_first distinct_map_filter)

lemma sched_inv_OnState: "sched_inv s \<Longrightarrow> sched_inv (OnState s pid st l)"
  using upd_path_ids [of "\<lambda>p. p\<lparr>p_state := st, p_loss := l\<rparr>" pid s]
  by (simp add: OnState_def sched_inv_def ring_current_def flip: set_map)

lemma pickRing_spec:
  assumes "sched_inv s" "us = usableLocked s" "us \<noteq> []"
  shows "snd (pickRingLocked s h us) = ring_pick us (ucast h)"
    and "sched_inv (fst (pickRingLocked s h us))"
    and "s_paths (fst (pickRingLocked s h us)) = s_paths s"
proof -
  let ?s = "if s_ring s = [] \<or> s_lastRingVer s \<noteq> s_ringVer s then buildRing s us else s"
  have ring: "s_ring ?s = sort (map fst (ring_nodes us))" "s_ringPaths ?s = rev (ring_nodes us)"
    using assms by (auto simp: sched_inv_def ring_current_def buildRing_def Let_def)
  show "snd (pickRingLocked s h us) = ring_pick us (ucast h)"
    by (simp only: pickRingLocked_def ring_pick_def Let_def ring snd_conv)
  show "s_paths (fst (pickRingLocked s h us)) = s_paths s"
    by (simp add: pickRingLocked_def buildRing_def Let_def)
  show "sched_inv (fst (pickRingLocked s h us))"
    using assms by (simp add: pickRingLocked_def buildRing_def Let_def sched_inv_def usableLocked_def)
qed

lemma weighted_loop_usable: "weighted_loop s r us = Some pid \<Longrightarrow> pid \<in> p_id ` set us"
  by (induction us arbitrary: r) (auto simp: Let_def split: if_splits)

lemma pickWeighted_usable: "us \<noteq> [] \<Longrightarrow> pickWeightedLocked s d us \<in> p_id ` set us"
  by (auto simp: pickWeightedLocked_def Let_def split: option.split dest: weighted_loop_usable)

lemma Pick_spec:
  assumes "sched_inv s"
  shows "snd (Pick s f d) = None \<longleftrightarrow> usableLocked s = []"
    and "snd (Pick s f d) = Some pid \<Longrightarrow> pid \<in> p_id ` set (usableLocked s)"
    and "sched_inv (fst (Pick s f d))"
    and "s_paths (fst (Pick s f d)) = s_paths s"
proof -
  let ?us = "usableLocked s"
  note ring = pickRing_spec [OF assms refl]
  show "snd (Pick s f d) = None \<longleftrightarrow> ?us = []"
    by (simp add: Pick_def Let_def case_prod_unfold split: option.split)
  show "pid \<in> p_id ` set ?us" if "snd (Pick s f d) = Some pid"
  proof -
    have ne: "?us \<noteq> []" using that by (auto simp: Pick_def)
    have "find P ?us = Some p \<Longrightarrow> p \<in> set ?us" for P p by (auto simp: find_Some_iff)
    then show ?thesis
      using that ne ring(1) [OF ne] ring_pick_usable [OF ne] pickWeighted_usable [OF ne]
      by (auto simp: Pick_def Let_def case_prod_unfold split: if_splits option.splits)
  qed
  show "sched_inv (fst (Pick s f d))" "s_paths (fst (Pick s f d)) = s_paths s"
    using assms ring(2,3) by (simp_all add: Pick_def Let_def case_prod_unfold split: option.split)
qed

text \<open>The loop of \<open>PickWRR\<close> touches only accumulators.\<close>

lemma set_rr_ids [simp]: "map p_id (s_paths (set_rr pid v s)) = map p_id (s_paths s)"
  by (simp add: set_rr_def)

lemma set_rr_usable_ids [simp]: "map p_id (usableLocked (set_rr pid v s)) = map p_id (usableLocked s)"
  by (simp add: set_rr_def upd_path_usable_ids)

lemma sched_inv_set_rr: "sched_inv s \<Longrightarrow> sched_inv (set_rr pid v s)"
  unfolding set_rr_def by (rule sched_inv_upd) simp_all

lemma wrr_loop_spec:
  assumes "wrr_loop s pids tot best = (s', tot', best')"
  shows "(sched_inv s \<longrightarrow> sched_inv s') \<and> map p_id (usableLocked s') = map p_id (usableLocked s)
       \<and> best' \<in> insert best (set pids)"
  using assms
  by (induction s pids tot best rule: wrr_loop.induct)
     (auto simp: Let_def sched_inv_set_rr split: if_splits)

lemma PickWRR_spec:
  "snd (PickWRR s) = None \<longleftrightarrow> usableLocked s = []"
  "snd (PickWRR s) = Some pid \<Longrightarrow> pid \<in> p_id ` set (usableLocked s)"
  "sched_inv s \<Longrightarrow> sched_inv (fst (PickWRR s))"
  "map p_id (usableLocked (fst (PickWRR s))) = map p_id (usableLocked s)"
proof -
  obtain s' tot b where l: "wrr_loop s (map p_id (usableLocked s)) (Fin 0) (hd (map p_id (usableLocked s))) = (s', tot, b)"
    by (cases "wrr_loop s (map p_id (usableLocked s)) (Fin 0) (hd (map p_id (usableLocked s)))")
  note spec = wrr_loop_spec [OF l]
  show "snd (PickWRR s) = None \<longleftrightarrow> usableLocked s = []"
    by (simp add: PickWRR_def Let_def l)
  show "pid \<in> p_id ` set (usableLocked s)" if pick: "snd (PickWRR s) = Some pid"
  proof -
    have ne: "usableLocked s \<noteq> []" using pick by (auto simp: PickWRR_def)
    with pick have "pid = b" by (simp add: PickWRR_def Let_def l split: if_splits)
    moreover have "hd (map p_id (usableLocked s)) \<in> p_id ` set (usableLocked s)"
      using ne by (simp add: hd_map)
    ultimately show ?thesis using spec by auto
  qed
  show "sched_inv s \<Longrightarrow> sched_inv (fst (PickWRR s))"
    using spec by (simp add: PickWRR_def Let_def l sched_inv_set_rr)
  show "map p_id (usableLocked (fst (PickWRR s))) = map p_id (usableLocked s)"
    using spec by (simp add: PickWRR_def Let_def l)
qed

interpretation sched: stateful sched_step sched_inv "\<lambda>_. True"
proof
  fix s e assume "sched_inv s"
  then show "sched_inv (fst (sched_step s e))"
    by (cases e) (simp_all add: sched_inv_AddPath sched_inv_RemovePath sched_inv_OnState Let_def
        case_prod_unfold Pick_spec PickWRR_spec)
qed

section \<open>Smooth weighted round-robin over integers\<close>

text \<open>Accumulator and weight of the path with a given ID.\<close>

definition rr :: "Scheduler \<Rightarrow> string \<Rightarrow> f64" where
  "rr s pid = p_rr (path_of s pid)"

definition wt :: "Scheduler \<Rightarrow> string \<Rightarrow> f64" where
  "wt s pid = weightLocked s (path_of s pid)"

definition ids :: "Scheduler \<Rightarrow> string set" where
  "ids s = p_id ` set (s_paths s)"

lemma path_of_upd:
  assumes "pid \<in> ids s" "\<And>p. p_id (f p) = p_id p"
  shows "path_of (upd_path q f s) pid = (if pid = q then f (path_of s pid) else path_of s pid)"
proof -
  have "hd (filter (\<lambda>p. p_id p = pid) (map (\<lambda>p. if p_id p = q then f p else p) ps))
      = (if pid = q then f (hd (filter (\<lambda>p. p_id p = pid) ps)) else hd (filter (\<lambda>p. p_id p = pid) ps))"
    if "pid \<in> p_id ` set ps" for ps
    using that assms(2) by (induction ps) auto
  then show ?thesis using assms(1) by (simp add: path_of_def upd_path_def ids_def)
qed

lemma ids_set_rr [simp]: "ids (set_rr q v s) = ids s"
  unfolding ids_def by (metis set_map set_rr_ids)

lemma rr_set_rr: "pid \<in> ids s \<Longrightarrow> rr (set_rr q v s) pid = (if pid = q then v else rr s pid)"
  by (simp add: rr_def set_rr_def path_of_upd)

lemma wt_set_rr: "pid \<in> ids s \<Longrightarrow> wt (set_rr q v s) pid = wt s pid"
  by (simp add: wt_def set_rr_def path_of_upd weightLocked_def split: State.split)

lemma fadd_int: "\<bar>a + b\<bar> \<le> 2 ^ 53 \<Longrightarrow> fadd (Fin (of_int a)) (Fin (of_int b)) = Fin (of_int (a + b))"
  using f64_of_int_small [of "a + b"] by (simp add: f64_of_int_def)

lemma fsub_int: "\<bar>a - b\<bar> \<le> 2 ^ 53 \<Longrightarrow> fsub (Fin (of_int a)) (Fin (of_int b)) = Fin (of_int (a - b))"
  using f64_of_int_small [of "a - b"] by (simp add: f64_of_int_def fsub_def)

text \<open>The loop after its first pass: \<open>best\<close> is behind, the paths \<open>pids\<close> are ahead.\<close>

lemma wrr_loop_int:
  assumes "distinct pids" "best \<notin> set pids" "best \<in> ids s" "set pids \<subseteq> ids s"
    and "\<And>q. q \<in> set (best # pids) \<Longrightarrow> rr s q = Fin (of_int (z q))"
    and "\<And>q. q \<in> set pids \<Longrightarrow> wt s q = Fin (of_int (w q)) \<and> 0 \<le> w q \<and> \<bar>z q + w q\<bar> \<le> 2 ^ 53"
    and "0 \<le> t" "t + (\<Sum>q\<leftarrow>pids. w q) \<le> 2 ^ 53"
    and "wrr_loop s pids (Fin (of_int t)) best = (s', tot, b)"
  shows "tot = Fin (of_int (t + (\<Sum>q\<leftarrow>pids. w q))) \<and> ids s' = ids s
     \<and> (\<forall>q\<in>ids s. wt s' q = wt s q \<and> rr s' q = (if q \<in> set pids then Fin (of_int (z q + w q)) else rr s q))
     \<and> b \<in> set (best # pids)
     \<and> (let z' = (\<lambda>q. if q \<in> set pids then z q + w q else z q) in \<forall>q\<in>set (best # pids). z' q \<le> z' b)"
  using assms
proof (induction pids arbitrary: s t best z)
  case Nil
  then show ?case by auto
next
  case (Cons q pids)
  define s1 where "s1 = set_rr q (Fin (of_int (z q + w q))) s"
  define z1 where "z1 = z(q := z q + w q)"
  define b1 where "b1 = (if z best < z q + w q then q else best)"
  have q: "rr s q = Fin (of_int (z q))" "wt s q = Fin (of_int (w q))" "0 \<le> w q" "\<bar>z q + w q\<bar> \<le> 2 ^ 53" "q \<in> ids s"
    "q \<noteq> best" "q \<notin> set pids" using Cons.prems by auto
  have "0 \<le> (\<Sum>q\<leftarrow>pids. w q)" using Cons.prems(6) by (intro sum_list_nonneg) auto
  then have sum: "\<bar>t + w q\<bar> \<le> 2 ^ 53" using Cons.prems(7,8) q(3) by simp
  have rr1: "rr s1 p = (if p = q then Fin (of_int (z q + w q)) else rr s p)" if "p \<in> ids s" for p
    using that by (simp add: s1_def rr_set_rr)
  have "wrr_loop s (q # pids) (Fin (of_int t)) best
      = wrr_loop s1 pids (Fin (of_int (t + w q))) (if flt (rr s1 best) (rr s1 q) then q else best)"
    by (simp only: wrr_loop.simps Let_def rr_def [symmetric] wt_def [symmetric] q(1,2)
        fadd_int [OF sum] fadd_int [OF q(4)] s1_def)
  also have "(if flt (rr s1 best) (rr s1 q) then q else best) = b1"
    using Cons.prems(3,5) q by (simp add: rr1 b1_def)
  finally have loop: "wrr_loop s1 pids (Fin (of_int (t + w q))) b1 = (s', tot, b)" using Cons.prems(9) by simp
  have "tot = Fin (of_int (t + w q + (\<Sum>q\<leftarrow>pids. w q))) \<and> ids s' = ids s1
     \<and> (\<forall>p\<in>ids s1. wt s' p = wt s1 p \<and> rr s' p = (if p \<in> set pids then Fin (of_int (z1 p + w p)) else rr s1 p))
     \<and> b \<in> set (b1 # pids)
     \<and> (let z' = (\<lambda>p. if p \<in> set pids then z1 p + w p else z1 p) in \<forall>p\<in>set (b1 # pids). z' p \<le> z' b)"
  proof (rule Cons.IH [OF _ _ _ _ _ _ _ _ loop])
    show "distinct pids" "b1 \<notin> set pids" "set pids \<subseteq> ids s1" "b1 \<in> ids s1"
      using Cons.prems q by (auto simp: s1_def b1_def)
    show "rr s1 p = Fin (of_int (z1 p))" if "p \<in> set (b1 # pids)" for p
      using that Cons.prems(3-5) q by (auto simp: rr1 z1_def b1_def split: if_splits)
    show "wt s1 p = Fin (of_int (w p)) \<and> 0 \<le> w p \<and> \<bar>z1 p + w p\<bar> \<le> 2 ^ 53" if "p \<in> set pids" for p
      using that Cons.prems(4,6) q by (auto simp: s1_def wt_set_rr z1_def)
    show "0 \<le> t + w q" "t + w q + (\<Sum>q\<leftarrow>pids. w q) \<le> 2 ^ 53" using Cons.prems(7,8) q(3) by simp_all
  qed
  then show ?case
    using Cons.prems(2,3) q rr1
    by (auto simp: s1_def wt_set_rr z1_def b1_def Let_def add.assoc split: if_splits)
qed

text \<open>A state whose usable paths \<open>U\<close> have the integer weights \<open>w\<close> and accumulators \<open>z\<close>.\<close>

definition wrr_int :: "Scheduler \<Rightarrow> string list \<Rightarrow> (string \<Rightarrow> int) \<Rightarrow> (string \<Rightarrow> int) \<Rightarrow> bool" where
  "wrr_int s U w z \<longleftrightarrow> sched_inv s \<and> U = map p_id (usableLocked s) \<and>
     (\<forall>q\<in>set U. rr s q = Fin (of_int (z q)) \<and> wt s q = Fin (of_int (w q)))"

lemma wrr_int_ids: "wrr_int s U w z \<Longrightarrow> set U \<subseteq> ids s \<and> distinct U"
  by (auto simp: wrr_int_def ids_def usableLocked_def sched_inv_def distinct_map_filter)

lemma wrr_loop_whole:
  assumes s: "wrr_int s (u # us) w z"
    and w: "\<And>q. q \<in> set (u # us) \<Longrightarrow> 0 \<le> w q \<and> \<bar>z q + w q\<bar> \<le> 2 ^ 53"
    and W: "(\<Sum>q\<leftarrow>u # us. w q) \<le> 2 ^ 53"
    and loop: "wrr_loop s (u # us) (Fin 0) u = (s', tot, b)"
  shows "tot = Fin (of_int (\<Sum>q\<leftarrow>u # us. w q))" "ids s' = ids s" "b \<in> set (u # us)"
    and "q \<in> set (u # us) \<Longrightarrow> rr s' q = Fin (of_int (z q + w q)) \<and> wt s' q = wt s q \<and> z q + w q \<le> z b + w b"
proof -
  define s1 where "s1 = set_rr u (Fin (of_int (z u + w u))) s"
  define z1 where "z1 = z(u := z u + w u)"
  have u: "rr s u = Fin (of_int (z u))" "wt s u = Fin (of_int (w u))" "u \<in> ids s" "u \<notin> set us" "distinct us"
    "set us \<subseteq> ids s" using s wrr_int_ids [OF s] by (auto simp: wrr_int_def)
  have wu: "\<bar>z u + w u\<bar> \<le> 2 ^ 53" "0 \<le> w u" using w by auto
  have "0 \<le> (\<Sum>q\<leftarrow>us. w q)" using w by (intro sum_list_nonneg) auto
  then have tu: "\<bar>0 + w u\<bar> \<le> 2 ^ 53" using W wu by simp
  have "wrr_loop s (u # us) (Fin (of_int 0)) u = wrr_loop s1 us (Fin (of_int (w u))) u"
    by (simp only: wrr_loop.simps Let_def rr_def [symmetric] wt_def [symmetric] u(1,2)
        fadd_int [OF tu] fadd_int [OF wu(1)] s1_def flt_irrefl if_False add_0)
  with loop have loop1: "wrr_loop s1 us (Fin (of_int (w u))) u = (s', tot, b)" by simp
  have "tot = Fin (of_int (w u + (\<Sum>q\<leftarrow>us. w q))) \<and> ids s' = ids s1
     \<and> (\<forall>p\<in>ids s1. wt s' p = wt s1 p \<and> rr s' p = (if p \<in> set us then Fin (of_int (z1 p + w p)) else rr s1 p))
     \<and> b \<in> set (u # us)
     \<and> (let z' = (\<lambda>p. if p \<in> set us then z1 p + w p else z1 p) in \<forall>p\<in>set (u # us). z' p \<le> z' b)"
  proof (rule wrr_loop_int [OF u(5,4) _ _ _ _ _ _ loop1])
    show "u \<in> ids s1" "set us \<subseteq> ids s1" using u by (simp_all add: s1_def)
    show "rr s1 q = Fin (of_int (z1 q))" if "q \<in> set (u # us)" for q
      using that u s by (auto simp: s1_def rr_set_rr z1_def wrr_int_def subset_iff)
    show "wt s1 q = Fin (of_int (w q)) \<and> 0 \<le> w q \<and> \<bar>z1 q + w q\<bar> \<le> 2 ^ 53" if "q \<in> set us" for q
      using that u s w [of q] by (auto simp: s1_def wt_set_rr z1_def wrr_int_def subset_iff)
    show "0 \<le> w u" "w u + (\<Sum>q\<leftarrow>us. w q) \<le> 2 ^ 53" using wu W by simp_all
  qed
  then show "tot = Fin (of_int (\<Sum>q\<leftarrow>u # us. w q))" "ids s' = ids s" "b \<in> set (u # us)"
    and "q \<in> set (u # us) \<Longrightarrow> rr s' q = Fin (of_int (z q + w q)) \<and> wt s' q = wt s q \<and> z q + w q \<le> z b + w b"
    using u by (auto simp: s1_def z1_def rr_set_rr wt_set_rr Let_def subset_iff split: if_splits)
qed

lemma PickWRR_int:
  assumes s: "wrr_int s U w z" "U \<noteq> []"
    and w: "\<And>q. q \<in> set U \<Longrightarrow> 1 \<le> w q \<and> \<bar>z q + w q\<bar> \<le> 2 ^ 53 \<and> \<bar>z q + w q - (\<Sum>q\<leftarrow>U. w q)\<bar> \<le> 2 ^ 53"
    and W: "(\<Sum>q\<leftarrow>U. w q) \<le> 2 ^ 53"
  obtains b where "snd (PickWRR s) = Some b" "b \<in> set U" "\<And>q. q \<in> set U \<Longrightarrow> z q + w q \<le> z b + w b"
    "wrr_int (fst (PickWRR s)) U w (\<lambda>q. z q + w q - (if q = b then \<Sum>q\<leftarrow>U. w q else 0))"
proof -
  obtain u us where U: "U = u # us" using s(2) by (cases U) auto
  let ?W = "\<Sum>q\<leftarrow>U. w q"
  obtain s' tot b where loop: "wrr_loop s (u # us) (Fin 0) u = (s', tot, b)"
    by (cases "wrr_loop s (u # us) (Fin 0) u")
  have w': "0 \<le> w q \<and> \<bar>z q + w q\<bar> \<le> 2 ^ 53" if "q \<in> set (u # us)" for q
    using w [of q] that U by simp
  note spec = wrr_loop_whole [OF s(1) [unfolded U] w' W [unfolded U] loop]
  have "0 \<le> (\<Sum>q\<leftarrow>us. w q)" using w' by (intro sum_list_nonneg) auto
  then have "0 < ?W" using w [of u] U by simp
  then have tot: "tot = Fin (of_int ?W)" "\<not> fle tot (Fin 0)" using spec(1) U by simp_all
  have ids: "map p_id (usableLocked s) = u # us" using s(1) U by (simp add: wrr_int_def)
  have b: "b \<in> set U" "b \<in> ids s'" using spec(2,3) wrr_int_ids [OF s(1)] U by auto
  have "rr s' b = Fin (of_int (z b + w b))" using spec(4) [of b] spec(3) by blast
  then have sub: "fsub (rr s' b) tot = Fin (of_int (z b + w b - ?W))"
    unfolding tot(1) using fsub_int [of "z b + w b" ?W] w [OF b(1)] by simp
  have pick: "PickWRR s = (set_rr b (fsub (rr s' b) tot) s', Some b)"
    by (simp only: PickWRR_def Let_def ids list.size list.sel loop prod.case tot(2) if_False rr_def) simp
  have "wrr_int (fst (PickWRR s)) U w (\<lambda>q. z q + w q - (if q = b then ?W else 0))"
    unfolding wrr_int_def
  proof (intro conjI ballI)
    show "sched_inv (fst (PickWRR s))" "U = map p_id (usableLocked (fst (PickWRR s)))"
      using s(1) PickWRR_spec(3,4) [of s] by (simp_all add: wrr_int_def)
    fix q assume q: "q \<in> set U"
    then have ids': "q \<in> ids s'" using spec(2) wrr_int_ids [OF s(1)] by auto
    have "rr s' q = Fin (of_int (z q + w q))" "wt s' q = Fin (of_int (w q))"
      using spec(4) [of q] q U s(1) by (auto simp: wrr_int_def)
    then show "rr (fst (PickWRR s)) q = Fin (of_int (z q + w q - (if q = b then ?W else 0)))"
      "wt (fst (PickWRR s)) q = Fin (of_int (w q))"
      unfolding pick fst_conv rr_set_rr [OF ids'] wt_set_rr [OF ids'] sub by simp_all
  qed
  with pick b(1) spec(4) U that show ?thesis by simp
qed

text \<open>
  The accumulators of a run: they sum to 0 and none falls to minus the total weight. Hence
  no path is ever picked more than once beyond its share.
\<close>

definition wrr_good :: "Scheduler \<Rightarrow> string list \<Rightarrow> (string \<Rightarrow> int) \<Rightarrow> (string \<Rightarrow> int) \<Rightarrow> bool" where
  "wrr_good s U w z \<longleftrightarrow> wrr_int s U w z \<and> U \<noteq> [] \<and>
     (\<forall>q\<in>set U. - sum w (set U) < z q \<and> 1 \<le> w q) \<and> sum z (set U) = 0 \<and>
     (int (length U) + 1) * sum w (set U) \<le> 2 ^ 53"

lemma wrr_good_bounds:
  assumes "wrr_good s U w z" "q \<in> set U"
  shows "\<bar>z q + w q\<bar> \<le> 2 ^ 53" "\<bar>z q + w q - sum w (set U)\<bar> \<le> 2 ^ 53" "sum w (set U) \<le> 2 ^ 53"
proof -
  let ?W = "sum w (set U)" and ?A = "set U - {q}"
  have g: "\<And>p. p \<in> set U \<Longrightarrow> - ?W < z p \<and> 1 \<le> w p" "sum z (set U) = 0" "(int (length U) + 1) * ?W \<le> 2 ^ 53"
    and d: "distinct U" using assms(1) wrr_int_ids by (auto simp: wrr_good_def)
  have card: "int (card ?A) + 1 = int (length U)"
    using d assms(2) card_Suc_Diff1 [of "set U" q] by (simp add: distinct_card)
  have W: "w q \<le> ?W" "1 \<le> ?W" using g(1) assms(2) member_le_sum [of q "set U" w] by fastforce+
  have "z q = - sum z ?A" using g(2) assms(2) sum.remove [of "set U" q z] by simp
  also have "\<dots> \<le> (\<Sum>p\<in>?A. ?W)" unfolding sum_negf [symmetric] using g(1) by (intro sum_mono) fastforce
  finally have "z q \<le> int (card ?A) * ?W" by simp
  then have "z q + w q \<le> int (length U) * ?W" using card W(1) by (simp add: algebra_simps flip: card)
  moreover have "?W \<le> int (length U) * ?W" using card W(2) by simp
  moreover have "- ?W < z q" "1 \<le> w q" using g(1) assms(2) by auto
  moreover have "int (length U) * ?W + ?W \<le> 2 ^ 53" using g(3) by (simp add: algebra_simps)
  ultimately have "z q + w q \<le> 2 ^ 53" "- (z q + w q) \<le> 2 ^ 53" "z q + w q - ?W \<le> 2 ^ 53"
    "- (z q + w q - ?W) \<le> 2 ^ 53" "?W \<le> 2 ^ 53" using W by linarith+
  then show "\<bar>z q + w q\<bar> \<le> 2 ^ 53" "\<bar>z q + w q - ?W\<bar> \<le> 2 ^ 53" "?W \<le> 2 ^ 53"
    unfolding abs_le_iff by blast+
qed

lemma wrr_good_step:
  assumes "wrr_good s U w z"
  obtains b where "snd (PickWRR s) = Some b" "b \<in> set U"
    "wrr_good (fst (PickWRR s)) U w (\<lambda>q. z q + w q - (if q = b then sum w (set U) else 0))"
proof -
  let ?W = "sum w (set U)"
  have s: "wrr_int s U w z" "U \<noteq> []" and d: "distinct U"
    and g: "\<And>p. p \<in> set U \<Longrightarrow> - ?W < z p \<and> 1 \<le> w p" "sum z (set U) = 0" "(int (length U) + 1) * ?W \<le> 2 ^ 53"
    using assms wrr_int_ids by (auto simp: wrr_good_def)
  have W: "(\<Sum>q\<leftarrow>U. w q) = ?W" using d by (rule sum_list_distinct_conv_sum_set)
  obtain b where b: "snd (PickWRR s) = Some b" "b \<in> set U" "\<And>q. q \<in> set U \<Longrightarrow> z q + w q \<le> z b + w b"
    "wrr_int (fst (PickWRR s)) U w (\<lambda>q. z q + w q - (if q = b then ?W else 0))"
  proof (rule PickWRR_int [OF s, unfolded W])
    show "1 \<le> w q \<and> \<bar>z q + w q\<bar> \<le> 2 ^ 53 \<and> \<bar>z q + w q - ?W\<bar> \<le> 2 ^ 53" if "q \<in> set U" for q
      using wrr_good_bounds [OF assms that] g(1) [OF that] by blast
    show "?W \<le> 2 ^ 53" using wrr_good_bounds(3) [OF assms, of "hd U"] s(2) by simp
  qed (rule that)
  have pos: "0 < ?W" using g(1) s(2) by (intro sum_pos) force+
  have "0 < z b + w b"
  proof (rule ccontr)
    assume "\<not> 0 < z b + w b"
    then have "(\<Sum>q\<in>set U. z q + w q) \<le> 0" using b(3) by (intro sum_nonpos) force
    then show False using g(2) pos by (simp add: sum.distrib)
  qed
  then have "\<forall>q\<in>set U. - ?W < z q + w q - (if q = b then ?W else 0) \<and> 1 \<le> w q" using g(1) by force
  moreover have "(\<Sum>q\<in>set U. z q + w q - (if q = b then ?W else 0)) = 0"
    using g(2) b(2) by (simp add: sum_subtractf sum.distrib)
  ultimately show ?thesis using that [OF b(1,2)] b(4) s(2) g(3) by (simp add: wrr_good_def)
qed

lemma wrr_run:
  assumes "wrr_good s U w z"
  shows "\<exists>s' outs. exec sched_step s (replicate n EvPickWRR) = (s', outs) \<and> length outs = n
     \<and> set outs \<subseteq> Some ` set U
     \<and> wrr_good s' U w (\<lambda>q. z q + int n * w q - sum w (set U) * int (count_list outs (Some q)))"
  using assms
proof (induction n arbitrary: s z)
  case 0
  then show ?case by simp
next
  case (Suc n)
  obtain b where b: "snd (PickWRR s) = Some b" "b \<in> set U"
    "wrr_good (fst (PickWRR s)) U w (\<lambda>q. z q + w q - (if q = b then sum w (set U) else 0))"
    using wrr_good_step [OF Suc.prems] .
  obtain s' outs where r: "exec sched_step (fst (PickWRR s)) (replicate n EvPickWRR) = (s', outs)"
    "length outs = n" "set outs \<subseteq> Some ` set U"
    "wrr_good s' U w (\<lambda>q. z q + w q - (if q = b then sum w (set U) else 0)
        + int n * w q - sum w (set U) * int (count_list outs (Some q)))"
    using Suc.IH [OF b(3)] by blast
  have "(\<lambda>q. z q + w q - (if q = b then sum w (set U) else 0) + int n * w q
            - sum w (set U) * int (count_list outs (Some q)))
      = (\<lambda>q. z q + int (Suc n) * w q - sum w (set U) * int (count_list (Some b # outs) (Some q)))"
    by (rule ext) (simp add: algebra_simps)
  with r b show ?case by (simp add: Let_def case_prod_unfold)
qed

lemma sum_counts:
  assumes "set outs \<subseteq> Some ` A" "finite A"
  shows "(\<Sum>q\<in>A. count_list outs (Some q)) = length outs"
  using assms(1)
proof (induction outs)
  case (Cons x outs)
  then obtain b where "x = Some b" "b \<in> A" by auto
  moreover have "(\<Sum>q\<in>A. if Some b = Some q then count_list outs (Some q) + 1 else count_list outs (Some q))
      = (\<Sum>q\<in>A. count_list outs (Some q) + (if q = b then 1 else 0))"
    by (intro sum.cong) auto
  ultimately show ?case using Cons assms(2) by (simp add: sum.distrib)
qed simp

lemma path_of_usable:
  assumes "sched_inv s" "p \<in> set (usableLocked s)"
  shows "path_of s (p_id p) = p"
proof -
  have p: "p \<in> set (s_paths s)" "distinct (map p_id (s_paths s))"
    using assms by (auto simp: usableLocked_def sched_inv_def)
  then have "filter (\<lambda>r. p_id r = p_id p) (s_paths s) \<noteq> []" by (auto simp: filter_empty_conv)
  then have "path_of s (p_id p) \<in> set (filter (\<lambda>r. p_id r = p_id p) (s_paths s))"
    unfolding path_of_def by (rule hd_in_set)
  with p show ?thesis by (auto simp: distinct_map inj_on_def)
qed

lemma wrr_good_initial:
  assumes "sched_inv s" "usableLocked s \<noteq> []"
    and "\<And>p. p \<in> set (usableLocked s) \<Longrightarrow> p_rr p = Fin 0 \<and> weightLocked s p = Fin (of_int (w (p_id p))) \<and> 1 \<le> w (p_id p)"
    and "(int (length (usableLocked s)) + 1) * sum w (p_id ` set (usableLocked s)) \<le> 2 ^ 53"
  shows "wrr_good s (map p_id (usableLocked s)) w (\<lambda>_. 0)"
proof -
  have "0 < sum w (p_id ` set (usableLocked s))"
    using assms(2,3) by (intro sum_pos) force+
  then show ?thesis
    using assms path_of_usable [OF assms(1)] by (simp add: wrr_good_def wrr_int_def rr_def wt_def)
qed

section \<open>Flow affinity\<close>

lemma Pick_flow:
  assumes "sched_inv s" "so_Mode (s_opts s) \<noteq> ModeStandby" "so_Affinity (s_opts s) = AffFlow"
    and "parseInnerHash (fPayload f) = Some h" "usableLocked s \<noteq> []"
  shows "snd (Pick s f d) = Some (ring_pick (usableLocked s) (ucast h))"
  using assms pickRing_spec(1) [OF assms(1) refl assms(5)] by (simp add: Pick_def Let_def case_prod_unfold)

lemma filter_other_id:
  assumes "sched_inv s" "q \<notin> s_byID s"
  shows "filter (\<lambda>p. p_id p \<noteq> q) (usableLocked s) = usableLocked s"
  using assms by (intro filter_True) (auto simp: sched_inv_def usableLocked_def)

lemma usable_Remove: "sched_inv s \<Longrightarrow> usableLocked (RemovePath s q) = filter (\<lambda>p. p_id p \<noteq> q) (usableLocked s)"
  by (cases "q \<in> s_byID s")
     (simp_all add: RemovePath_def filter_other_id, simp add: usableLocked_def sched_inv_def set_remove_first conj_commute)

lemma usable_Down: "sched_inv s \<Longrightarrow> usableLocked (OnState s q StateDown l) = filter (\<lambda>p. p_id p \<noteq> q) (usableLocked s)"
proof (cases "q \<in> s_byID s")
  case True
  have "filter (\<lambda>p. p_state p \<noteq> StateDown) (map (\<lambda>p. if p_id p = q then p\<lparr>p_state := StateDown, p_loss := l\<rparr> else p) ps)
      = filter (\<lambda>p. p_id p \<noteq> q) (filter (\<lambda>p. p_state p \<noteq> StateDown) ps)" for ps
    by (induction ps) auto
  with True show ?thesis by (simp add: OnState_def usableLocked_def upd_path_def)
qed (simp add: OnState_def filter_other_id)

lemma opts_frame [simp]:
  "s_opts (RemovePath s q) = s_opts s" "s_opts (OnState s q st l) = s_opts s" "s_opts (AddPath s q c) = s_opts s"
  by (simp_all add: RemovePath_def OnState_def AddPath_def Let_def)

section \<open>Properties\<close>

text \<open>C24: In every reachable state a pick fails exactly when every registered path is DOWN, and
  otherwise names a registered path that is not DOWN, in every mode and for every draw;
  the same holds for the round-robin pick.\<close>

theorem Pick_usable:
  "let s = fst (exec sched_step (New_Scheduler opts) es);
       up = {p_id p | p. p \<in> set (s_paths s) \<and> p_state p \<noteq> StateDown}
   in (case snd (Pick s f d) of None \<Rightarrow> up = {} | Some pid \<Rightarrow> pid \<in> up)
    \<and> (case snd (PickWRR s) of None \<Rightarrow> up = {} | Some pid \<Rightarrow> pid \<in> up)"
proof -
  have "sched_inv (fst (exec sched_step (New_Scheduler opts) es))" (is "sched_inv ?s")
    by (rule sched.exec_inv [OF sched_inv_New]) (simp add: list_all_iff)
  moreover have "{p_id p | p. p \<in> set (s_paths ?s) \<and> p_state p \<noteq> StateDown} = p_id ` set (usableLocked ?s)"
    by (auto simp: usableLocked_def)
  ultimately show ?thesis
    using Pick_spec [of ?s f d] PickWRR_spec(1,2) [of ?s]
    by (auto simp: Let_def split: option.split)
qed

text \<open>Standby order: the first HEALTHY path in configuration order carries everything, however
  many DEGRADED paths precede it; without one, the first path that is not DOWN.\<close>

theorem Pick_standby:
  assumes "so_Mode (s_opts s) = ModeStandby"
  shows "snd (Pick s f d) =
    (case find (\<lambda>p. p_state p = StateHealthy) (s_paths s) of
       Some p \<Rightarrow> Some (p_id p)
     | None \<Rightarrow> map_option p_id (find (\<lambda>p. p_state p \<noteq> StateDown) (s_paths s)))"
proof -
  have healthy: "find (\<lambda>p. p_state p = StateHealthy) (filter (\<lambda>p. p_state p \<noteq> StateDown) ps)
      = find (\<lambda>p. p_state p = StateHealthy) ps" for ps :: "path list"
    by (induction ps) auto
  have first: "find (\<lambda>p. p_state p \<noteq> StateDown) ps
      = (case filter (\<lambda>p. p_state p \<noteq> StateDown) ps of [] \<Rightarrow> None | p # _ \<Rightarrow> Some p)" for ps :: "path list"
    by (induction ps) auto

  show ?thesis
    unfolding healthy [of "s_paths s", symmetric] first using assms
    by (cases "filter (\<lambda>p. p_state p \<noteq> StateDown) (s_paths s)")
       (auto simp: Pick_def Let_def usableLocked_def split: option.split)
qed

definition two_paths :: Scheduler where
  "two_paths = OnState (AddPath (AddPath (New_Scheduler \<lparr>so_Mode = ''standby'', so_Affinity = [], so_BalanceBy = []\<rparr>)
     ''a'' (Fin 10)) ''b'' (Fin 10)) ''a'' StateDegraded (Fin (1/2))"

theorem Pick_standby_witness:
  "so_Mode (s_opts two_paths) = ModeStandby \<and> snd (Pick two_paths zero_frame (Fin 0)) = Some ''b''"
proof -
  have "so_Mode (s_opts two_paths) = ModeStandby" by code_simp
  moreover have "find (\<lambda>p. p_state p = StateHealthy) (s_paths two_paths)
      = Some \<lparr>p_id = ''b'', p_capacity = Fin 10, p_state = StateHealthy, p_loss = Fin 0, p_rr = Fin 0\<rparr>" by code_simp
  ultimately show ?thesis using Pick_standby [of two_paths zero_frame "Fin 0"] by simp
qed

text \<open>C25: Flow affinity is stable. When a path other than the flow's own goes DOWN or is removed,
  the flow stays where it is; when a new path is added, the flow stays or moves to the new
  path. This holds even if virtual nodes of different paths collide.\<close>

theorem flow_affinity_stable:
  assumes "sched_inv s" "so_Mode (s_opts s) \<noteq> ModeStandby" "so_Affinity (s_opts s) = AffFlow"
    and "parseInnerHash (fPayload f) = Some h" "snd (Pick s f d) = Some pid" "q \<noteq> pid"
  shows "snd (Pick (OnState s q StateDown l) f d') = Some pid
       \<and> snd (Pick (RemovePath s q) f d') = Some pid
       \<and> (q \<notin> s_byID s \<longrightarrow> snd (Pick (AddPath s q c) f d') \<in> {Some pid, Some q})"
proof -
  let ?us = "usableLocked s" and ?vs = "filter (\<lambda>p. p_id p \<noteq> q) (usableLocked s)"
  have ne: "?us \<noteq> []" using Pick_spec(1) [OF assms(1), of f d] assms(5) by auto
  have pid: "ring_pick ?us (ucast h) = pid" using Pick_flow [OF assms(1-4) ne, of d] assms(5) by simp
  have vs: "ring_pick ?vs (ucast h) = pid" "?vs \<noteq> []"
    using ring_pick_filter [OF ne, of "\<lambda>i. i \<noteq> q" "ucast h"] ring_pick_usable [OF ne, of "ucast h"] pid assms(6)
    by (auto simp: filter_empty_conv)
  have "snd (Pick (OnState s q StateDown l) f d') = Some pid"
    using Pick_flow [of "OnState s q StateDown l" f h d'] assms(1-4) vs
    by (simp add: sched_inv_OnState usable_Down)
  moreover have "snd (Pick (RemovePath s q) f d') = Some pid"
    using Pick_flow [of "RemovePath s q" f h d'] assms(1-4) vs
    by (simp add: sched_inv_RemovePath usable_Remove)
  moreover have "snd (Pick (AddPath s q c) f d') \<in> {Some pid, Some q}" if new: "q \<notin> s_byID s"
  proof -
    let ?ws = "usableLocked (AddPath s q c)"
    have ws: "?ws \<noteq> []" "filter (\<lambda>p. p_id p \<noteq> q) ?ws = ?us"
      using new filter_other_id [OF assms(1) new] by (simp_all add: AddPath_def Let_def usableLocked_def)
    have "ring_pick ?ws (ucast h) = q \<or> ring_pick ?us (ucast h) = ring_pick ?ws (ucast h)"
      using ring_pick_filter [OF ws(1), of "\<lambda>i. i \<noteq> q" "ucast h"] ws(2) by auto
    then show ?thesis
      using Pick_flow [of "AddPath s q c" f h d'] assms(1-4) ws(1) pid by (auto simp: sched_inv_AddPath)
  qed
  ultimately show ?thesis by blast
qed

definition flow_paths :: Scheduler where
  "flow_paths = OnState (AddPath (AddPath (New_Scheduler \<lparr>so_Mode = [], so_Affinity = ''flow'', so_BalanceBy = []\<rparr>)
     ''a'' (Fin 10)) ''b'' (Fin 10)) ''b'' StateDown (Fin 1)"

definition ipv4_frame :: frame where
  "ipv4_frame = zero_frame\<lparr>fPayload := 0x45 # replicate 8 0 @ [17] @ replicate 20 7\<rparr>"

lemma flow_paths_inv: "sched_inv flow_paths"
  unfolding flow_paths_def by (intro sched_inv_OnState sched_inv_AddPath sched_inv_New)

lemma ipv4_frame_hash: "\<exists>h. parseInnerHash (fPayload ipv4_frame) = Some h"
proof -
  have "parseInnerHash (fPayload ipv4_frame) \<noteq> None" by code_simp
  then show ?thesis by simp
qed

lemma flow_paths_Pick: "snd (Pick flow_paths ipv4_frame d) = Some ''a''"
proof -
  have "map p_id (usableLocked flow_paths) = [''a'']" by code_simp
  then show ?thesis
    using Pick_spec(1) [OF flow_paths_inv, of ipv4_frame d] Pick_spec(2) [OF flow_paths_inv, of ipv4_frame d]
    by (cases "snd (Pick flow_paths ipv4_frame d)") (auto simp: map_eq_Cons_conv)
qed

theorem flow_affinity_stable_witness:
  "snd (Pick flow_paths ipv4_frame (Fin 0)) = Some ''a''
   \<and> snd (Pick (RemovePath flow_paths ''b'') ipv4_frame (Fin 0)) = Some ''a''
   \<and> snd (Pick (AddPath flow_paths ''c'' (Fin 5)) ipv4_frame (Fin 0)) \<in> {Some ''a'', Some ''c''}"
proof -
  obtain h where h: "parseInnerHash (fPayload ipv4_frame) = Some h" using ipv4_frame_hash by blast
  have m: "so_Mode (s_opts flow_paths) \<noteq> ModeStandby" "so_Affinity (s_opts flow_paths) = AffFlow" by code_simp+
  have c: "''c'' \<notin> s_byID flow_paths" by code_simp
  note st = flow_affinity_stable [OF flow_paths_inv m h flow_paths_Pick [of "Fin 0"]]
  show ?thesis
    using st [of "''b''" _ "Fin 0"] st [of "''c''" _ "Fin 0" "Fin 5"] flow_paths_Pick [of "Fin 0"] c by auto
qed

text \<open>C14: Smooth weighted round-robin is fair. With whole-number weights and accumulators at 0, no
  path is ever picked more than once beyond its share of the picks so far, and in every
  \<open>k\<close> periods of total-weight picks each path is picked exactly \<open>k\<close> times its weight. The
  arithmetic is that of doubles; it is exact while the weights stay below 2^53.\<close>

theorem PickWRR_fair:
  assumes "sched_inv s" "usableLocked s \<noteq> []"
    and "\<And>p. p \<in> set (usableLocked s) \<Longrightarrow>
           p_rr p = Fin 0 \<and> weightLocked s p = Fin (of_int (w (p_id p))) \<and> 1 \<le> w (p_id p)"
    and "W = sum w (p_id ` set (usableLocked s))" "(int (length (usableLocked s)) + 1) * W \<le> 2 ^ 53"
    and "q \<in> p_id ` set (usableLocked s)"
  shows "W * int (count_list (snd (exec sched_step s (replicate n EvPickWRR))) (Some q)) < int n * w q + W
       \<and> (int n = int k * W \<longrightarrow>
            int (count_list (snd (exec sched_step s (replicate n EvPickWRR))) (Some q)) = int k * w q)"
proof -
  let ?U = "map p_id (usableLocked s)"
  obtain s' outs where r: "exec sched_step s (replicate n EvPickWRR) = (s', outs)" "length outs = n"
    "set outs \<subseteq> Some ` set ?U" "wrr_good s' ?U w (\<lambda>q. 0 + int n * w q - sum w (set ?U) * int (count_list outs (Some q)))"
    using wrr_run [OF wrr_good_initial [OF assms(1-3)], of n] assms(4,5) by blast
  have low: "W * int (count_list outs (Some p)) < int n * w p + W" if "p \<in> set ?U" for p
    using r(4) that assms(4) by (auto simp: wrr_good_def)
  have W: "0 < W" unfolding assms(4) using assms(2,3) by (intro sum_pos) force+
  have "int (count_list outs (Some q)) = int k * w q" if n: "int n = int k * W"
  proof -
    have le: "int (count_list outs (Some p)) \<le> int k * w p" if "p \<in> set ?U" for p
    proof -
      have "W * int (count_list outs (Some p)) < W * (int k * w p + 1)"
        using low [OF that] n by (simp add: algebra_simps)
      then show ?thesis using W by simp
    qed
    have "(\<Sum>p\<in>set ?U. int (count_list outs (Some p))) = int n"
      using sum_counts [OF r(3)] r(2) by (simp flip: of_nat_sum)
    also have "\<dots> = (\<Sum>p\<in>set ?U. int k * w p)" using n assms(4) by (simp add: sum_distrib_left)
    finally have eq: "(\<Sum>p\<in>set ?U. int (count_list outs (Some p))) = (\<Sum>p\<in>set ?U. int k * w p)" .
    show ?thesis by (rule sum_mono_inv [OF eq le]) (use assms(6) in simp_all)
  qed
  with low [of q] assms(6) r(1) show ?thesis by simp
qed

definition wrr_paths :: Scheduler where
  "wrr_paths = AddPath (AddPath (New_Scheduler \<lparr>so_Mode = [], so_Affinity = [], so_BalanceBy = []\<rparr>)
     ''a'' (Fin 3)) ''b'' (Fin 1)"

lemma wrr_paths_inv: "sched_inv wrr_paths"
  unfolding wrr_paths_def by (intro sched_inv_AddPath sched_inv_New)

lemma wrr_paths_usable:
  "usableLocked wrr_paths =
     [\<lparr>p_id = ''a'', p_capacity = Fin 3, p_state = StateHealthy, p_loss = Fin 0, p_rr = Fin 0\<rparr>,
      \<lparr>p_id = ''b'', p_capacity = Fin 1, p_state = StateHealthy, p_loss = Fin 0, p_rr = Fin 0\<rparr>]"
  by code_simp

theorem PickWRR_fair_witness:
  "count_list (snd (exec sched_step wrr_paths (replicate 4 EvPickWRR))) (Some ''a'') = 3"
proof -
  have bal: "so_BalanceBy (s_opts wrr_paths) \<noteq> ByRound" by code_simp
  have "int (count_list (snd (exec sched_step wrr_paths (replicate 4 EvPickWRR))) (Some ''a'')) = int 1 * 3"
    by (rule PickWRR_fair [OF wrr_paths_inv, where w = "\<lambda>i. if i = ''a'' then 3 else 1" and W = 4 and q = "''a''"
          and n = 4 and k = 1, THEN conjunct2, THEN mp, simplified if_P])
       (use bal in \<open>auto simp: wrr_paths_usable weightLocked_def\<close>)
  then show ?thesis by simp
qed

text \<open>The comment on \<open>PickWRR\<close> promises that a path is never chosen twice in a row while another
  is usable; with unequal weights it is.\<close>

lemma f64_of_numerals:
  "numeral k \<le> (2 ^ 53 :: int) \<Longrightarrow> f64_of (numeral k) = Fin (numeral k)"
  "numeral k \<le> (2 ^ 53 :: int) \<Longrightarrow> f64_of (- numeral k) = Fin (- numeral k)"
  "f64_of 0 = Fin 0" "f64_of 1 = Fin 1" "f64_of (- 1) = Fin (- 1)"
  using f64_of_int_small [of "numeral k"] f64_of_int_small [of "- numeral k"]
    f64_of_int_small [of 0] f64_of_int_small [of 1] f64_of_int_small [of "- 1"]
  by (simp_all add: f64_of_int_def)

lemma PickWRR_repeats:
  "snd (exec sched_step wrr_paths [EvPickWRR, EvPickWRR, EvPickWRR, EvPickWRR])
     = [Some ''a'', Some ''a'', Some ''b'', Some ''a'']"
  by (simp add: wrr_paths_def PickWRR_def AddPath_def New_Scheduler_def usableLocked_def set_rr_def upd_path_def
      path_of_def weightLocked_def ByRound_def ByCapacity_def Let_def fsub_def f64_of_numerals)

text \<open>C26: The flow hash does not depend on the inner source address: the ring is searched with the low
  32 bits of the hash only, so packets that differ in bytes 12 to 15 alone take the same path.\<close>

theorem flow_hash_ignores_source:
  assumes "length (fPayload f) = length (fPayload g)"
    and "\<And>i. i < length (fPayload f) \<Longrightarrow> i < 12 \<or> 16 \<le> i \<Longrightarrow> fPayload f ! i = fPayload g ! i"
    and "sched_inv s" "so_Mode (s_opts s) \<noteq> ModeStandby" "so_Affinity (s_opts s) = AffFlow"
  shows "snd (Pick s f d) = snd (Pick s g d)"
proof -
  let ?p = "fPayload f" and ?q = "fPayload g"
  have low: "ucast (push_bit 32 (ucast (x :: u32)) OR y :: u64) = (ucast y :: u32)"
    "ucast ((push_bit 32 (ucast (x :: u32)) OR y) XOR z :: u64) = (ucast (y XOR z) :: u32)" for x y z
    by (auto simp: bit_eq_iff bit_simps)
  have h: "map_option (ucast :: u64 \<Rightarrow> u32) (parseInnerHash ?p) = map_option ucast (parseInnerHash ?q)"
  proof (cases "length ?p < 20")
    case True
    then show ?thesis using assms(1) by (simp add: parseInnerHash_def)
  next
    case False
    have eq: "?p ! 0 = ?q ! 0" "?p ! 9 = ?q ! 9" "get_u32 ?p 16 = get_u32 ?q 16"
      "\<And>i. 20 \<le> i \<Longrightarrow> i + 2 \<le> length ?p \<Longrightarrow> get_u16 ?p i = get_u16 ?q i"
    proof -
      have same: "?p ! i = ?q ! i" if "i \<in> {0, 9, 16, 17, 18, 19} \<or> 20 \<le> i \<and> i < length ?p" for i
        by (rule assms(2)) (use that False in auto)
      show "?p ! 0 = ?q ! 0" "?p ! 9 = ?q ! 9" by (rule same, simp)+
      show "get_u32 ?p 16 = get_u32 ?q 16" by (simp add: get_u32_def same)
      show "get_u16 ?p i = get_u16 ?q i" if "20 \<le> i" "i + 2 \<le> length ?p" for i
        using that same [of i] same [of "i + 1"] by (simp add: get_u16_def)
    qed
    show ?thesis
      unfolding parseInnerHash_def Let_def eq(1-3) assms(1) [symmetric] xor.assoc
      using eq(4) by (simp add: low)
  qed
  show ?thesis
  proof (cases "usableLocked s = [] \<or> parseInnerHash ?p = None")
    case True
    then show ?thesis using h by (auto simp: Pick_def Let_def)
  next
    case False
    then obtain a b where ab: "parseInnerHash ?p = Some a" "parseInnerHash ?q = Some b"
      using h by (cases "parseInnerHash ?q") auto
    then have "(ucast a :: u32) = ucast b" using h by simp
    then show ?thesis
      using Pick_flow [OF assms(3-5) ab(1), of d] Pick_flow [OF assms(3-5) ab(2), of d] False by simp
  qed
qed

theorem flow_hash_ignores_source_witness:
  "snd (Pick flow_paths ipv4_frame (Fin 0))
   = snd (Pick flow_paths (zero_frame\<lparr>fPayload := 0x45 # replicate 8 0 @ [17, 7, 7] @ [1, 2, 3, 4] @ replicate 14 7\<rparr>) (Fin 0))"
proof -
  have m: "so_Mode (s_opts flow_paths) \<noteq> ModeStandby" "so_Affinity (s_opts flow_paths) = AffFlow" by code_simp+
  show ?thesis
  proof (rule flow_hash_ignores_source [OF _ _ flow_paths_inv m])
    fix i :: nat assume "i < length (fPayload ipv4_frame)" "i < 12 \<or> 16 \<le> i"
    moreover have "replicate 20 (7 :: u8) = [7, 7] @ replicate 4 7 @ replicate 14 7" by code_simp
    ultimately show "fPayload ipv4_frame ! i
        = fPayload (zero_frame\<lparr>fPayload := 0x45 # replicate 8 0 @ [17, 7, 7] @ [1, 2, 3, 4] @ replicate 14 7\<rparr>) ! i"
      by (auto simp: ipv4_frame_def nth_Cons nth_append less_Suc_eq split: nat.splits)
  qed (simp add: ipv4_frame_def)
qed

end
