(* ===== verification/Fake_Tcp.thy ===== *)
theory Fake_Tcp
  imports Net_Addr
begin

unbundle bit_operations_syntax

text \<open>
  The TCP-disguised transport of \<open>internal/transport/faketcp.go\<close>: the Internet checksum, the
  IPv4 and TCP headers of a segment, the parser of received datagrams, and the transport with
  its per-peer counters. What the kernel does is an argument: the address resolver, the routing
  probe behind \<open>localIPFor\<close>, whether a raw socket opens, what a read returns, whether a write
  succeeds; so are the random numbers. A slice or index out of range is \<open>None\<close>.

  Shown here: the carry loop ends after at most two rounds and computes the sum modulo
  \<open>2 ^ 16 - 1\<close>; a segment that is built is parsed back to its payload, source, port, flag and
  number; the numbers a peer sees are consecutive; when the parser panics.
\<close>

section \<open>The Internet checksum\<close>

text \<open>The loop over pairs of bytes, with the odd byte at the end as the high half of a word.\<close>

fun sum_words :: "u32 \<Rightarrow> bytes \<Rightarrow> u32" where
  "sum_words acc [] = acc"
| "sum_words acc [a] = acc + push_bit 8 (ucast a)"
| "sum_words acc (a # b # bs) = sum_words (acc + (push_bit 8 (ucast a) OR ucast b)) bs"

definition fold_once :: "u32 \<Rightarrow> u32" where
  "fold_once acc = (acc AND 0xffff) + drop_bit 16 acc"

text \<open>The arithmetic of one round on the two halves of the sum.\<close>

lemma unat_drop16: "unat (drop_bit 16 s) = unat s div 65536" for s :: u32
  using unat_drop_bit_eq [of 16 s] by (simp add: drop_bit_eq_div)

lemma unat_take16: "unat (take_bit 16 s) = unat s mod 65536" for s :: u32
  using unsigned_take_bit_eq [of 16 s, where 'a = nat] by (simp only: take_bit_eq_mod) simp

lemma unat_fold_once: "unat (fold_once s) = unat s mod 65536 + unat s div 65536"
proof -
  have lo: "unat (s AND 0xffff) = unat s mod 65536"
  proof -
    have "s AND 0xffff = take_bit 16 s" by (simp add: take_bit_eq_mask mask_eq_exp_minus_1)
    then show ?thesis by (simp only: unat_take16)
  qed
  have hi: "unat (drop_bit 16 s) = unat s div 65536" by (rule unat_drop16)
  have "unat s < 2 ^ 32" using unsigned_less [of s] by simp
  then have "unat s div 65536 < 65536" by (simp add: div_less_iff_less_mult)
  then have "unat (s AND 0xffff) + unat (drop_bit 16 s) < 2 ^ 32" unfolding lo hi by simp
  then show ?thesis unfolding fold_once_def by (subst unat_add_lem [THEN iffD1]) (simp_all add: lo hi)
qed

lemma high_zero: "drop_bit 16 s = 0 \<longleftrightarrow> unat s < 65536" for s :: u32
proof -
  have "drop_bit 16 s = 0 \<longleftrightarrow> unat (drop_bit 16 s) = 0" by (simp only: unat_eq_0)
  also have "\<dots> \<longleftrightarrow> unat s < 65536" unfolding unat_drop16 by (simp add: div_eq_0_iff)
  finally show ?thesis .
qed

lemma fold_once_less: "drop_bit 16 s \<noteq> 0 \<Longrightarrow> unat (fold_once s) < unat s"
  unfolding high_zero unat_fold_once by (simp add: modulo_nat_def) 

function fold_carry :: "u32 \<Rightarrow> u32" where
  "fold_carry acc = (if drop_bit 16 acc \<noteq> 0 then fold_carry (fold_once acc) else acc)"
  by pat_completeness auto
termination
  by (relation "measure unat") (simp_all add: fold_once_less)

declare fold_carry.simps [simp del]

definition ipChecksum :: "bytes \<Rightarrow> u16" where
  "ipChecksum b = NOT (ucast (fold_carry (sum_words 0 b)))"

definition checksumWithPseudo :: "bytes \<Rightarrow> bytes \<Rightarrow> bytes \<Rightarrow> u16" where
  "checksumWithPseudo src dst tcp =
     (let acc = sum_words 0 (To4 src);
          acc = sum_words acc (To4 dst);
          acc = acc + 6;
          acc = acc + of_nat (length tcp)
      in NOT (ucast (fold_carry (sum_words acc tcp))))"

definition tcpChecksum :: "bytes \<Rightarrow> bytes \<Rightarrow> bytes \<Rightarrow> u16" where
  "tcpChecksum src dst tcp = checksumWithPseudo src dst tcp"

text \<open>The exact sum, and the checksum as a statement about it.\<close>

fun word_sum :: "bytes \<Rightarrow> nat" where
  "word_sum [] = 0"
| "word_sum [a] = 256 * unat a"
| "word_sum (a # b # bs) = 256 * unat a + unat b + word_sum bs"

lemma unat_byte [simp]: "unat (ucast a :: u32) = unat a" "unat a < 256" for a :: u8
proof -
  show lt: "unat a < 256" using unsigned_less [of a] by simp
  then show "unat (ucast a :: u32) = unat a" by (simp add: unsigned_ucast_eq take_bit_nat_eq_self)
qed

lemma unat_high: "unat (push_bit 8 (ucast a) :: u32) = 256 * unat a" for a :: u8
proof -
  have "push_bit 8 (ucast a) = (of_nat (256 * unat a) :: u32)" by (simp add: push_bit_eq_mult mult.commute)
  moreover have "256 * unat a < 2 ^ LENGTH(32)" using unat_byte(2) [of a] by (simp del: unat_byte(2))
  ultimately show ?thesis by (simp only: unat_of_nat mod_less)
qed

lemma unat_pair: "unat (push_bit 8 (ucast a) OR ucast b :: u32) = 256 * unat a + unat b" for a b :: u8
proof -
  have eq: "push_bit 8 (ucast a) OR ucast b = (push_bit 8 (ucast a) + ucast b :: u32)"
    by (rule disjunctive_add [symmetric]) (auto simp: bit_simps dest: bit_imp_le_length)
  have "unat (push_bit 8 (ucast a) :: u32) + unat (ucast b :: u32) < 2 ^ LENGTH(32)"
    unfolding unat_high unat_byte using unat_byte(2) [of a] unat_byte(2) [of b] by (simp del: unat_byte(2))
  then have "unat (push_bit 8 (ucast a) + ucast b :: u32) = unat (push_bit 8 (ucast a) :: u32) + unat (ucast b :: u32)"
    by (rule unat_add_lem [THEN iffD1])
  then show ?thesis unfolding eq by (simp only: unat_high unat_byte)
qed

lemma unat_sum_words: "unat acc + word_sum b < 2 ^ 32 \<Longrightarrow> unat (sum_words acc b) = unat acc + word_sum b"
proof (induction acc b rule: sum_words.induct)
  case (2 acc a)
  then show ?case using unat_add_lem [of acc "push_bit 8 (ucast a)"] by (simp add: unat_high)
next
  case (3 acc a b bs)
  let ?w = "push_bit 8 (ucast a) OR ucast b :: u32"
  have w: "unat (acc + ?w) = unat acc + (256 * unat a + unat b)"
    using 3(2) unat_add_lem [of acc ?w] by (simp add: unat_pair)
  show ?case using 3(1) 3(2) unfolding w by simp
qed simp

lemma word_sum_bound: "word_sum b \<le> 65535 * ((length b + 1) div 2)"
proof (induction b rule: word_sum.induct)
  case (2 a)
  then show ?case using unat_byte(2) [of a] by (simp del: unat_byte(2))
next
  case (3 a b bs)
  then show ?case using unat_byte(2) [of a] unat_byte(2) [of b] by (simp del: unat_byte(2))
qed simp

lemma word_sum_append: "even (length xs) \<Longrightarrow> word_sum (xs @ ys) = word_sum xs + word_sum ys"
  by (induction xs rule: word_sum.induct) auto

lemma word_sum_u16 [simp]: "word_sum (put_u16 v) = unat v"
proof -
  have lt: "unat v < 65536" using unsigned_less [of v] by simp
  have "unat (ucast (drop_bit 8 v) :: u8) = unat v div 256"
  proof -
    have "unat (drop_bit 8 v) = unat v div 256" using unat_drop_bit_eq [of 8 v] by (simp add: drop_bit_eq_div)
    then show ?thesis using lt by (simp only: unsigned_ucast_eq take_bit_eq_mod) simp
  qed
  moreover have "unat (ucast v :: u8) = unat v mod 256" by (simp add: unsigned_ucast_eq take_bit_eq_mod)
  ultimately show ?thesis by (simp add: put_u16_def)
qed

lemma unat_fold_carry: "unat (fold_carry s) = (if s = 0 then 0 else (unat s - 1) mod 65535 + 1)"
proof (induction s rule: fold_carry.induct)
  case (1 s)
  show ?case
  proof (cases "unat s < 65536")
    case True
    then have "fold_carry s = s" by (simp add: fold_carry.simps [of s] high_zero)
    moreover have "unat s = (unat s - 1) mod 65535 + 1" if "s \<noteq> 0" using that True by (simp add: unat_gt_0)
    ultimately show ?thesis by simp
  next
    case False
    let ?h = "unat s div 65536" and ?l = "unat s mod 65536"
    have n: "unat s = 65536 * ?h + ?l" by simp
    have h: "0 < ?h" using False by (simp add: div_greater_zero_iff)
    have o: "unat (fold_once s) = ?l + ?h" by (rule unat_fold_once)
    then have nz: "fold_once s \<noteq> 0" "s \<noteq> 0" using h False by auto
    have "unat s - 1 = (?l + ?h - 1) + 65535 * ?h" using n h by linarith
    then have "(unat s - 1) mod 65535 = (?l + ?h - 1) mod 65535" by (simp only: mod_mult_self2)
    moreover have "drop_bit 16 s \<noteq> 0" using False by (simp add: high_zero)
    ultimately show ?thesis using 1 nz by (simp only: fold_carry.simps [of s] o if_True if_False not_False_eq_True)
  qed
qed

lemma fold_carry_ffff: "unat (fold_carry s) = 65535 \<longleftrightarrow> s \<noteq> 0 \<and> 65535 dvd unat s"
proof (cases "s = 0")
  case False
  then have "0 < unat s" by (simp add: unat_gt_0)
  then have "(unat s - 1) mod 65535 = 65534 \<longleftrightarrow> unat s mod 65535 = 0" using mod_Suc [of "unat s - 1" 65535] by auto
  then show ?thesis using False by (auto simp: unat_fold_carry)
qed (simp add: unat_fold_carry)

text \<open>The complement of the folded sum, and what adding it to the sum does.\<close>

lemma unat_not16: "unat (NOT w) = 65535 - unat w" for w :: u16
proof -
  have "NOT w = - 1 - w" by (simp add: not_eq_complement)
  moreover have "w \<le> - 1" by simp
  moreover have "unat (- 1 :: u16) = 65535" by (simp add: unsigned_minus_1_eq_mask mask_eq_exp_minus_1)
  ultimately show ?thesis by (simp add: unat_sub)
qed

lemma unat_complement: "unat (NOT (ucast (fold_carry s)) :: u16) = 65535 - unat (fold_carry s)"
proof -
  have "unat (fold_carry s) < 65536" by (simp add: unat_fold_carry less_Suc_eq_le)
  then have "unat (ucast (fold_carry s) :: u16) = unat (fold_carry s)"
    by (simp add: unsigned_ucast_eq take_bit_nat_eq_self)
  then show ?thesis by (simp only: unat_not16)
qed

lemma complement_0: "NOT (ucast (fold_carry s)) = (0 :: u16) \<longleftrightarrow> s \<noteq> 0 \<and> 65535 dvd unat s"
proof -
  have "NOT (ucast (fold_carry s)) = (0 :: u16) \<longleftrightarrow> unat (NOT (ucast (fold_carry s)) :: u16) = 0" by (simp only: unsigned_eq_0_iff)
  also have "\<dots> \<longleftrightarrow> unat (fold_carry s) = 65535" unfolding unat_complement by (auto simp: unat_fold_carry)
  finally show ?thesis by (simp only: fold_carry_ffff)
qed

lemma fold_carry_cong: "65535 dvd unat s + (65535 - unat (fold_carry s))"
proof (cases "s = 0")
  case False
  then have "0 < unat s" by (simp add: unat_gt_0)
  then have "unat s + (65535 - unat (fold_carry s)) = (unat s - 1) - (unat s - 1) mod 65535 + 65535"
    using False by (simp add: unat_fold_carry)
  moreover have "65535 dvd (unat s - 1) - (unat s - 1) mod 65535" by (rule dvd_minus_mod)
  ultimately show ?thesis by (simp only: dvd_add dvd_refl)
qed (simp add: unat_fold_carry)

lemma checksum_closes:
  assumes "unat s' = unat s + unat (NOT (ucast (fold_carry s)) :: u16)"
  shows "NOT (ucast (fold_carry s')) = (0 :: u16)"
proof -
  have "65535 dvd unat s'" using fold_carry_cong [of s] assms by (simp only: unat_complement)
  moreover have "s' \<noteq> 0"
  proof
    assume "s' = 0"
    then have "unat s = 0" "unat (NOT (ucast (fold_carry s)) :: u16) = 0" using assms by simp_all
    then show False by (simp add: unat_complement unat_fold_carry unsigned_eq_0_iff)
  qed
  ultimately show ?thesis unfolding complement_0 by blast
qed

section \<open>Segments\<close>

definition tcpFlagFIN :: u8 where "tcpFlagFIN = 0x01"
definition tcpFlagSYN :: u8 where "tcpFlagSYN = 0x02"
definition tcpFlagRST :: u8 where "tcpFlagRST = 0x04"
definition tcpFlagPSH :: u8 where "tcpFlagPSH = 0x08"
definition tcpFlagACK :: u8 where "tcpFlagACK = 0x10"
definition ipHdrLen :: nat where "ipHdrLen = 20"
definition tcpHdrLen :: nat where "tcpHdrLen = 20"

definition randID :: "u32 \<Rightarrow> u32" where "randID r = r AND 0xffff"
definition randPort :: "u32 \<Rightarrow> u32" where "randPort r = 1024 + r mod 60000"

definition buildSegment :: "u32 \<Rightarrow> bytes \<Rightarrow> bytes \<Rightarrow> u16 \<Rightarrow> u16 \<Rightarrow> u32 \<Rightarrow> u32 \<Rightarrow> u8 \<Rightarrow> bytes \<Rightarrow> bytes" where
  "buildSegment r src dst srcPort dstPort sq ack flags payload =
     (let total = ipHdrLen + tcpHdrLen + length payload;
          seg = make_bytes total;
          seg = seg[0 := 0x45];
          seg = copy_at 2 (put_u16 (of_nat total)) seg;
          seg = copy_at 4 (put_u16 (ucast (randID r))) seg;
          seg = seg[8 := 64];
          seg = seg[9 := 6];
          seg = copy_at 12 (To4 src) seg;
          seg = copy_at 16 (To4 dst) seg;
          seg = copy_at 10 (put_u16 (ipChecksum (take ipHdrLen seg))) seg;
          seg = copy_at ipHdrLen (put_u16 srcPort) seg;
          seg = copy_at (ipHdrLen + 2) (put_u16 dstPort) seg;
          seg = copy_at (ipHdrLen + 4) (put_u32 sq) seg;
          seg = copy_at (ipHdrLen + 8) (put_u32 ack) seg;
          seg = seg[ipHdrLen + 12 := push_bit 4 5];
          seg = seg[ipHdrLen + 13 := flags];
          seg = copy_at (ipHdrLen + 14) (put_u16 65535) seg;
          seg = copy_at (ipHdrLen + tcpHdrLen) payload seg
      in copy_at (ipHdrLen + 16) (put_u16 (tcpChecksum src dst (drop ipHdrLen seg))) seg)"

definition validTCPChecksum :: "bytes \<Rightarrow> bytes \<Rightarrow> bytes \<Rightarrow> bool" where
  "validTCPChecksum src dst tcp \<longleftrightarrow> (if length tcp < tcpHdrLen then False else checksumWithPseudo src dst tcp = 0)"

text \<open>
  The result of a parser: it panics, it refuses the datagram, or it accepts. \<open>tcp[2:4]\<close> reslices
  within the capacity of the read buffer and never panics; \<open>tcp[13]\<close> does when the length field
  of the IP header leaves fewer than 14 bytes.
\<close>

datatype 'a parsed = Panics | Ignored | Parsed 'a

definition parseSegment :: "bytes \<Rightarrow> (bytes \<times> udp_addr \<times> u16 \<times> bool \<times> u32) parsed" where
  "parseSegment b =
     (if length b < ipHdrLen then Ignored
      else if drop_bit 4 (b ! 0) \<noteq> 4 then Ignored
      else
        (let ihl = unat (b ! 0 AND 0x0f) * 4 in
         if ihl < ipHdrLen \<or> length b < ihl + tcpHdrLen then Ignored
         else if b ! 9 \<noteq> 6 then Ignored
         else if get_u16 b 6 AND 0x1fff \<noteq> 0 then Ignored
         else
           (let total = unat (get_u16 b 2);
                total = (if total = 0 \<or> total > length b then length b else total);
                srcIP = To4 (take 4 (drop 12 b))
            in if srcIP = [] then Ignored
               else if total < ihl then Panics
               else
                 (let tcp = drop ihl (take total b) in
                  if length tcp \<le> 13 then Panics
                  else
                    (let dstPort = get_u16 tcp 2; flags = tcp ! 13 in
                     if flags AND (tcpFlagRST OR tcpFlagFIN) \<noteq> 0 then Ignored
                     else if \<not> validTCPChecksum srcIP (To4 (take 4 (drop 16 b))) tcp then Ignored
                     else
                       (let off = unat (drop_bit 4 (tcp ! 12)) * 4 in
                        if off < tcpHdrLen \<or> off > length tcp then Ignored
                        else Parsed (drop off tcp, \<lparr>ua_IP = srcIP, ua_Port = unat (get_u16 tcp 0)\<rparr>, dstPort,
                               flags AND tcpFlagSYN \<noteq> 0, get_u32 tcp 4)))))))"

text \<open>The wire image of a segment: twenty bytes of IP header, twenty of TCP header, the payload.\<close>

definition ip_header :: "u16 \<Rightarrow> u16 \<Rightarrow> u16 \<Rightarrow> bytes \<Rightarrow> bytes \<Rightarrow> bytes" where
  "ip_header len ident cs src dst =
     [0x45, 0] @ put_u16 len @ put_u16 ident @ [0, 0, 64, 6] @ put_u16 cs @ src @ dst"

definition tcp_header :: "u16 \<Rightarrow> u16 \<Rightarrow> u32 \<Rightarrow> u32 \<Rightarrow> u8 \<Rightarrow> u16 \<Rightarrow> bytes" where
  "tcp_header srcPort dstPort sq ack flags cs =
     put_u16 srcPort @ put_u16 dstPort @ put_u32 sq @ put_u32 ack @ [0x50, flags] @ put_u16 65535 @ put_u16 cs @ [0, 0]"

lemma length_headers [simp, buf_simps]:
  "length src = 4 \<Longrightarrow> length dst = 4 \<Longrightarrow> length (ip_header len ident cs src dst) = 20"
  "length (tcp_header srcPort dstPort sq ack flags tcs) = 20"
  by (simp_all add: ip_header_def tcp_header_def)

lemma make_bytes_40: "make_bytes (20 + 20 + n) = replicate 20 0 @ replicate 20 0 @ make_bytes n"
  by (simp only: make_bytes_def replicate_add append_assoc)

lemma buildSegment_layout:
  assumes "length src = 4" "length dst = 4"
  shows "buildSegment r src dst sp dp sq ack flags payload =
    ip_header (of_nat (40 + length payload)) (ucast (randID r))
      (ipChecksum (ip_header (of_nat (40 + length payload)) (ucast (randID r)) 0 src dst)) src dst
    @ tcp_header sp dp sq ack flags (tcpChecksum src dst (tcp_header sp dp sq ack flags 0 @ payload)) @ payload"
proof -
  obtain s1 s2 s3 s4 where s: "src = [s1, s2, s3, s4]" using assms(1) by (auto simp: numeral_eq_Suc length_Suc_conv)
  obtain d1 d2 d3 d4 where d: "dst = [d1, d2, d3, d4]" using assms(2) by (auto simp: numeral_eq_Suc length_Suc_conv)
  have z: "replicate 20 (0::u8) = [0,0,0,0,0,0,0,0,0,0,0,0,0,0,0,0,0,0,0,0]" by (simp add: numeral_eq_Suc)
  show ?thesis
    unfolding buildSegment_def Let_def ipHdrLen_def tcpHdrLen_def make_bytes_40 z
    by (simp add: s d copy_at_def put_u16_def put_u32_def ip_header_def tcp_header_def)
qed

lemma checksumWithPseudo_exact:
  assumes "length src = 4" "length dst = 4" "length tcp \<le> 65535"
  shows "\<exists>s. checksumWithPseudo src dst tcp = NOT (ucast (fold_carry s)) \<and>
    unat s = word_sum src + word_sum dst + 6 + length tcp + word_sum tcp"
proof -
  have b: "word_sum src \<le> 131070" "word_sum dst \<le> 131070" "word_sum tcp \<le> 65535 * 32768"
    using word_sum_bound [of src] word_sum_bound [of dst] word_sum_bound [of tcp] assms
    by (simp_all add: order_trans)
  define a where "a = sum_words 0 src"
  have a: "unat a = word_sum src" using b unat_sum_words [of 0 src] by (simp add: a_def)
  define c where "c = sum_words a dst"
  have c: "unat c = word_sum src + word_sum dst" using a b unat_sum_words [of a dst] by (simp add: c_def)
  define e where "e = c + 6 + of_nat (length tcp)"
  have "unat (c + 6) = unat c + 6" using c b unat_add_lem [of c 6] by simp
  moreover have "unat (of_nat (length tcp) :: u32) = length tcp" using assms(3) by (simp add: unat_of_nat)
  ultimately have e: "unat e = word_sum src + word_sum dst + 6 + length tcp"
    using c b assms(3) unat_add_lem [of "c + 6" "of_nat (length tcp)"] by (simp add: e_def)
  have "unat (sum_words e tcp) = word_sum src + word_sum dst + 6 + length tcp + word_sum tcp"
    using e b assms(3) unat_sum_words [of e tcp] by simp
  then show ?thesis using assms(1,2) by (intro exI [of _ "sum_words e tcp"]) (simp add: checksumWithPseudo_def a_def c_def e_def)
qed

lemma tcp_checksum_valid:
  assumes "length src = 4" "length dst = 4" "length payload \<le> 65515"
  shows "checksumWithPseudo src dst
    (tcp_header sp dp sq ack flags (tcpChecksum src dst (tcp_header sp dp sq ack flags 0 @ payload)) @ payload) = 0"
proof -
  let ?h = "tcp_header sp dp sq ack flags" and ?c = "tcpChecksum src dst (tcp_header sp dp sq ack flags 0 @ payload)"
  have sum: "word_sum (?h c @ payload) = word_sum (?h 0 @ payload) + unat c" for c
    by (simp add: tcp_header_def word_sum_append put_u32_def)
  have len: "length (?h c @ payload) \<le> 65535" "length (?h c @ payload) = 20 + length payload" for c using assms(3) by simp_all
  obtain s where s: "?c = NOT (ucast (fold_carry s))" "unat s = word_sum src + word_sum dst + 6 + (20 + length payload) + word_sum (?h 0 @ payload)"
    using checksumWithPseudo_exact [OF assms(1,2) len(1) [of 0]] by (auto simp: tcpChecksum_def)
  obtain s' where s': "checksumWithPseudo src dst (?h ?c @ payload) = NOT (ucast (fold_carry s'))"
    "unat s' = word_sum src + word_sum dst + 6 + (20 + length payload) + word_sum (?h ?c @ payload)"
    using checksumWithPseudo_exact [OF assms(1,2) len(1) [of ?c]] by auto
  have "unat s' = unat s + unat ?c" unfolding s(2) s'(2) sum [of ?c] by simp
  then have "unat s' = unat s + unat (NOT (ucast (fold_carry s)) :: u16)" unfolding s(1) [symmetric] .
  then show ?thesis unfolding s'(1) by (rule checksum_closes)
qed

lemma segment_fields:
  fixes len ident cs tcs sp dp :: u16 and sq ack :: u32 and flags :: u8 and payload :: bytes
  assumes "length src = 4" "length dst = 4"
  defines "b \<equiv> ip_header len ident cs src dst @ tcp_header sp dp sq ack flags tcs @ payload"
  shows "b ! 0 = 0x45" "b ! 9 = 6" "get_u16 b 2 = len" "get_u16 b 6 = 0" "take 4 (drop 12 b) = src" "take 4 (drop 16 b) = dst"
    "drop 20 b = tcp_header sp dp sq ack flags tcs @ payload" "length b = 40 + length payload"
  using assms get_put_u16 [of "[0x45, 0]" 2 len] get_put_u16 [of "[0x45, 0] @ put_u16 len @ put_u16 ident" 6 0]
  by (simp_all add: ip_header_def nth_append put_u16_def)

lemma tcp_fields:
  fixes tcs sp dp :: u16 and sq ack :: u32 and flags :: u8 and payload :: bytes
  defines "t \<equiv> tcp_header sp dp sq ack flags tcs @ payload"
  shows "get_u16 t 0 = sp" "get_u16 t 2 = dp" "get_u32 t 4 = sq" "t ! 12 = 0x50" "t ! 13 = flags" "drop 20 t = payload"
    "length t = 20 + length payload"
  using get_put_u16 [of "[]" 0 sp] get_put_u16 [of "put_u16 sp" 2 dp] get_put_u32 [of "put_u16 sp @ put_u16 dp" 4 sq]
  by (simp_all add: t_def tcp_header_def nth_append)

text \<open>What is built is parsed back.\<close>

lemma parse_build:
  assumes "length src = 4" "length dst = 4" "length payload \<le> 65495" "flags AND (tcpFlagRST OR tcpFlagFIN) = 0"
  shows "parseSegment (buildSegment r src dst sp dp sq ack flags payload) =
    Parsed (payload, \<lparr>ua_IP = src, ua_Port = unat sp\<rparr>, dp, flags AND tcpFlagSYN \<noteq> 0, sq)"
proof -
  let ?len = "of_nat (40 + length payload) :: u16"
  let ?tcs = "tcpChecksum src dst (tcp_header sp dp sq ack flags 0 @ payload)"
  let ?ip = "ip_header ?len (ucast (randID r)) (ipChecksum (ip_header ?len (ucast (randID r)) 0 src dst)) src dst"
  let ?t = "tcp_header sp dp sq ack flags ?tcs @ payload"
  have len: "unat ?len = 40 + length payload" using assms(3) by (simp add: unat_of_nat del: of_nat_add)
  have tk: "take (40 + length payload) (?ip @ ?t) = ?ip @ ?t" using assms(1,2) by simp
  have ok: "validTCPChecksum src dst ?t"
    using tcp_checksum_valid [OF assms(1,2)] assms(3) by (simp add: validTCPChecksum_def tcpHdrLen_def)
  have ne: "src \<noteq> []" using assms(1) by auto
  show ?thesis
    unfolding buildSegment_layout [OF assms(1,2)] parseSegment_def Let_def segment_fields [OF assms(1,2)] len
    using assms(1,2,4) ok ne
    by (simp add: ipHdrLen_def tcpHdrLen_def segment_fields tk tcp_fields del: append_assoc)
qed

section \<open>The transport\<close>

record Bind =
  bd_Iface :: string
  bd_LocalIP :: string
  bd_FIB :: int

record peerState =
  pr_mySeq :: u32
  pr_peerSeq :: u32
  pr_sent :: bool

record FakeTCP =
  ft_id :: string
  ft_local :: string
  ft_remote :: string
  ft_bind :: Bind
  ft_fd :: int
  ft_srv :: bool
  ft_clientDstIP :: bytes
  ft_clientSrcPort :: u16
  ft_clientDstPort :: u16
  ft_serverPort :: u16
  ft_peers :: "(string \<times> peerState) list"
  ft_srcFor :: "(string \<times> bytes) list"

datatype transport_error = AlreadyOpen | ResolveFailed string | OnlyIPv4 string | SocketFailed | NotOpen | BadPeer

definition NewFakeTCP :: "string \<Rightarrow> string \<Rightarrow> string \<Rightarrow> Bind \<Rightarrow> FakeTCP" where
  "NewFakeTCP ident local remote bind =
     \<lparr>ft_id = ident, ft_local = local, ft_remote = remote, ft_bind = bind, ft_fd = -1, ft_srv = False, ft_clientDstIP = [],
      ft_clientSrcPort = 0, ft_clientDstPort = 0, ft_serverPort = 0, ft_peers = [], ft_srcFor = []\<rparr>"

definition clientSrcIP :: "FakeTCP \<Rightarrow> bytes" where
  "clientSrcIP f = (case map_of (ft_srcFor f) (IP_String (ft_clientDstIP f)) of Some ip \<Rightarrow> ip | None \<Rightarrow> IPv4zero)"

definition FakeTCP_LocalAddr :: "FakeTCP \<Rightarrow> udp_addr" where
  "FakeTCP_LocalAddr f =
     (if ft_srv f then \<lparr>ua_IP = IPv4zero, ua_Port = unat (ft_serverPort f)\<rparr>
      else \<lparr>ua_IP = clientSrcIP f, ua_Port = unat (ft_clientSrcPort f)\<rparr>)"

text \<open>\<open>probe\<close> is the local address of a UDP socket connected to the destination, when one can be dialled.\<close>

definition localIPFor :: "(bytes \<Rightarrow> bytes option) \<Rightarrow> FakeTCP \<Rightarrow> bytes \<Rightarrow> FakeTCP \<times> bytes" where
  "localIPFor probe f dst =
     (case map_of (ft_srcFor f) (IP_String dst) of
        Some ip \<Rightarrow> (f, ip)
      | None \<Rightarrow>
          (case probe dst of
             None \<Rightarrow> (f, IPv4zero)
           | Some ip \<Rightarrow>
               if To4 ip \<noteq> [] then (f\<lparr>ft_srcFor := AList.update (IP_String dst) (To4 ip) (ft_srcFor f)\<rparr>, To4 ip)
               else (f, IPv4zero)))"

definition ft_openClient ::
    "(string \<Rightarrow> udp_addr option) \<Rightarrow> (bytes \<Rightarrow> bytes option) \<Rightarrow> int option \<Rightarrow> u32 \<Rightarrow> u32 \<Rightarrow> FakeTCP \<Rightarrow> FakeTCP \<times> transport_error option" where
  "ft_openClient resolve probe sock rport rseq f =
     (case resolve (ft_remote f) of
        None \<Rightarrow> (f, Some (ResolveFailed (ft_remote f)))
      | Some raddr \<Rightarrow>
          if To4 (ua_IP raddr) = [] then (f, Some (OnlyIPv4 (ft_remote f)))
          else
            (let dstIP = To4 (ua_IP raddr);
                 (f, srcIP) = localIPFor probe f dstIP;
                 srcPort = (case resolve (ft_local f) of
                     Some laddr \<Rightarrow> if ua_Port laddr > 0 then of_nat (ua_Port laddr) else ucast (randPort rport)
                   | None \<Rightarrow> ucast (randPort rport))
             in case sock of
                  None \<Rightarrow> (f, Some SocketFailed)
                | Some fd \<Rightarrow>
                    (f\<lparr>ft_fd := fd, ft_srv := False, ft_clientDstIP := dstIP, ft_clientDstPort := of_nat (ua_Port raddr),
                       ft_clientSrcPort := srcPort, ft_srcFor := AList.update (IP_String dstIP) srcIP (ft_srcFor f),
                       ft_peers := AList.update ''server'' \<lparr>pr_mySeq = rseq, pr_peerSeq = 0, pr_sent = False\<rparr> (ft_peers f)\<rparr>, None)))"

definition ft_openServer :: "(string \<Rightarrow> udp_addr option) \<Rightarrow> int option \<Rightarrow> FakeTCP \<Rightarrow> FakeTCP \<times> transport_error option" where
  "ft_openServer resolve sock f =
     (case resolve (ft_local f) of
        None \<Rightarrow> (f, Some (ResolveFailed (ft_local f)))
      | Some laddr \<Rightarrow>
          if ua_IP laddr \<noteq> [] \<and> To4 (ua_IP laddr) = [] \<and> \<not> IsUnspecified (ua_IP laddr) then (f, Some (OnlyIPv4 (ft_local f)))
          else
            (case sock of
               None \<Rightarrow> (f, Some SocketFailed)
             | Some fd \<Rightarrow> (f\<lparr>ft_fd := fd, ft_srv := True, ft_serverPort := of_nat (ua_Port laddr)\<rparr>, None)))"

definition FakeTCP_Open ::
    "(string \<Rightarrow> udp_addr option) \<Rightarrow> (bytes \<Rightarrow> bytes option) \<Rightarrow> int option \<Rightarrow> u32 \<Rightarrow> u32 \<Rightarrow> FakeTCP \<Rightarrow> FakeTCP \<times> transport_error option" where
  "FakeTCP_Open resolve probe sock rport rseq f =
     (if 0 \<le> ft_fd f then (f, Some AlreadyOpen)
      else if ft_remote f \<noteq> [] then ft_openClient resolve probe sock rport rseq f
      else ft_openServer resolve sock f)"

definition FakeTCP_Close :: "FakeTCP \<Rightarrow> FakeTCP" where
  "FakeTCP_Close f = (if 0 \<le> ft_fd f then f\<lparr>ft_fd := -1\<rparr> else f)"

definition seqAdvance :: "nat \<Rightarrow> u32" where
  "seqAdvance dataLen = (if dataLen > 0 then of_nat dataLen else 1)"

text \<open>
  \<open>Send\<close> and \<open>SendTo\<close> end by handing a segment to \<open>writeRaw\<close>, whose result is theirs; the value
  here is that segment. \<open>SendTo\<close> gets \<open>None\<close> for an address that is not a UDP address.
\<close>

definition FakeTCP_Send :: "u32 \<Rightarrow> FakeTCP \<Rightarrow> bytes \<Rightarrow> FakeTCP \<times> (transport_error + bytes)" where
  "FakeTCP_Send r f b =
     (case map_of (ft_peers f) ''server'' of
        None \<Rightarrow> (f, Inl NotOpen)
      | Some st \<Rightarrow>
          (let srcIP = clientSrcIP f;
               sq = pr_mySeq st;
               (flags, st) = (if pr_sent st then (tcpFlagPSH OR tcpFlagACK, st) else (tcpFlagSYN, st\<lparr>pr_sent := True\<rparr>));
               seg = buildSegment r srcIP (ft_clientDstIP f) (ft_clientSrcPort f) (ft_clientDstPort f) sq (pr_peerSeq st) flags b;
               st = st\<lparr>pr_mySeq := pr_mySeq st + seqAdvance (length b)\<rparr>
           in (f\<lparr>ft_peers := AList.update ''server'' st (ft_peers f)\<rparr>, Inr seg)))"

definition addrKey :: "udp_addr \<Rightarrow> string" where "addrKey a = UDPAddr_String a"

definition FakeTCP_SendTo ::
    "(bytes \<Rightarrow> bytes option) \<Rightarrow> u32 \<Rightarrow> u32 \<Rightarrow> FakeTCP \<Rightarrow> udp_addr option \<Rightarrow> bytes \<Rightarrow> FakeTCP \<times> (transport_error + bytes)" where
  "FakeTCP_SendTo probe r rseq f addr b =
     (case addr of
        None \<Rightarrow> (f, Inl BadPeer)
      | Some ua \<Rightarrow>
          if To4 (ua_IP ua) = [] then (f, Inl BadPeer)
          else
            (let dstIP = To4 (ua_IP ua);
                 key = addrKey ua;
                 (f, srcIP) = localIPFor probe f dstIP;
                 st = lookup_def \<lparr>pr_mySeq = rseq, pr_peerSeq = 0, pr_sent = False\<rparr> (ft_peers f) key;
                 (flags, st) = (if pr_sent st then (tcpFlagPSH OR tcpFlagACK, st)
                                else (tcpFlagSYN OR tcpFlagACK, st\<lparr>pr_sent := True\<rparr>));
                 seg = buildSegment r srcIP dstIP (ft_serverPort f) (of_nat (ua_Port ua)) (pr_mySeq st) (pr_peerSeq st) flags b;
                 st = st\<lparr>pr_mySeq := pr_mySeq st + seqAdvance (length b)\<rparr>
             in (f\<lparr>ft_peers := AList.update key st (ft_peers f)\<rparr>, Inr seg)))"

definition maxI :: "nat \<Rightarrow> nat \<Rightarrow> nat" where "maxI a b = (if a > b then a else b)"

text \<open>
  \<open>Recv\<close> over the datagrams that successive reads return; the read after the last one fails.
\<close>

datatype 'a received = Received 'a | ReadError | RecvPanic

fun FakeTCP_Recv :: "u32 \<Rightarrow> FakeTCP \<Rightarrow> bytes list \<Rightarrow> FakeTCP \<times> (bytes \<times> udp_addr) received" where
  "FakeTCP_Recv rseq f [] = (f, ReadError)"
| "FakeTCP_Recv rseq f (d # ds) =
     (case parseSegment d of
        Panics \<Rightarrow> (f, RecvPanic)
      | Ignored \<Rightarrow> FakeTCP_Recv rseq f ds
      | Parsed (frm, src, dstPort, syn, sq) \<Rightarrow>
          if (if ft_srv f then dstPort \<noteq> ft_serverPort f
              else dstPort \<noteq> ft_clientSrcPort f \<or> \<not> IP_Equal (ua_IP src) (ft_clientDstIP f))
          then FakeTCP_Recv rseq f ds
          else
            (let key = (if ft_srv f then UDPAddr_String src else ''server'');
                 st = lookup_def \<lparr>pr_mySeq = rseq, pr_peerSeq = 0, pr_sent = False\<rparr> (ft_peers f) key;
                 st = (if syn then st\<lparr>pr_peerSeq := sq + 1\<rparr> else st\<lparr>pr_peerSeq := sq + of_nat (maxI 1 (length frm))\<rparr>)
             in (f\<lparr>ft_peers := AList.update key st (ft_peers f)\<rparr>, Received (frm, src))))"

section \<open>What the transport does\<close>

text \<open>
  C34: The carry loop of the checksum ends.  Whatever the 32-bit sum, the loop is over after at
  most two rounds; what is left fits 16 bits, is congruent to the sum modulo 65535, and is zero
  only for a zero sum.
\<close>

theorem fold_carry_terminates:
  "fold_carry s \<in> {s, fold_once s, fold_once (fold_once s)} \<and> unat (fold_carry s) < 65536
   \<and> unat (fold_carry s) mod 65535 = unat s mod 65535 \<and> (fold_carry s = 0 \<longleftrightarrow> s = 0)"
proof -
  have "unat s < 2 ^ 32" using unsigned_less [of s] by simp
  then have "unat s div 65536 < 65536" by (simp add: div_less_iff_less_mult)
  then have o: "unat (fold_once s) \<le> 131070" unfolding unat_fold_once using mod_less_divisor [of 65536 "unat s"] by linarith
  have "unat (fold_once (fold_once s)) < 65536" if "65536 \<le> unat (fold_once s)"
  proof -
    have "unat (fold_once s) div 65536 = 1" using that o by simp
    moreover have "unat (fold_once s) mod 65536 = unat (fold_once s) - 65536" using that o by (simp add: mod_if)
    ultimately show ?thesis unfolding unat_fold_once [of "fold_once s"] using o by simp
  qed
  then have "fold_carry s \<in> {s, fold_once s, fold_once (fold_once s)}"
    by (auto simp: fold_carry.simps [of s] fold_carry.simps [of "fold_once s"] fold_carry.simps [of "fold_once (fold_once s)"] high_zero not_less)
  moreover have "unat (fold_carry s) mod 65535 = unat s mod 65535"
  proof (cases "s = 0")
    case False
    then have "0 < unat s" by (simp add: unat_gt_0)
    then show ?thesis using False mod_Suc_eq [of "unat s - 1" 65535] by (simp add: unat_fold_carry)
  qed (simp add: unat_fold_carry)
  moreover have "fold_carry s = 0 \<longleftrightarrow> unat (fold_carry s) = 0" by (simp only: unsigned_eq_0_iff)
  then have "fold_carry s = 0 \<longleftrightarrow> s = 0" by (simp add: unat_fold_carry)
  moreover have "unat (fold_carry s) < 65536" by (simp add: unat_fold_carry less_Suc_eq_le)
  ultimately show ?thesis by blast
qed

lemma buildSegment_To4: "buildSegment r src dst = buildSegment r (To4 src) (To4 dst)"
  by (intro ext) (simp add: buildSegment_def tcpChecksum_def checksumWithPseudo_def)

lemma parse_build_To4:
  assumes "To4 src \<noteq> []" "To4 dst \<noteq> []" "length payload \<le> 65495" "flags AND (tcpFlagRST OR tcpFlagFIN) = 0"
  shows "parseSegment (buildSegment r src dst sp dp sq ack flags payload) =
    Parsed (payload, \<lparr>ua_IP = To4 src, ua_Port = unat sp\<rparr>, dp, flags AND tcpFlagSYN \<noteq> 0, sq)"
  unfolding buildSegment_To4 [of r src dst] using assms by (intro parse_build) (simp_all add: length_To4)

lemma build_ack:
  assumes "To4 src \<noteq> []" "To4 dst \<noteq> []"
  shows "get_u32 (buildSegment r src dst sp dp sq ack flags payload) 28 = ack"
proof -
  have l: "length (To4 src) = 4" "length (To4 dst) = 4" using assms by (simp_all add: length_To4)
  show ?thesis
    unfolding buildSegment_To4 [of r src dst] buildSegment_layout [OF l]
    using get_put_u32 [of "ip_header _ _ _ (To4 src) (To4 dst) @ put_u16 sp @ put_u16 dp @ put_u32 sq" 28 ack] l
    by (simp add: tcp_header_def)
qed

lemmas tcp_flags = tcpFlagFIN_def tcpFlagSYN_def tcpFlagRST_def tcpFlagPSH_def tcpFlagACK_def

lemma Send_segment:
  assumes "map_of (ft_peers c) ''server'' = Some st"
  shows "FakeTCP_Send r c b =
    (c\<lparr>ft_peers := AList.update ''server'' (st\<lparr>pr_sent := True, pr_mySeq := pr_mySeq st + seqAdvance (length b)\<rparr>) (ft_peers c)\<rparr>,
     Inr (buildSegment r (clientSrcIP c) (ft_clientDstIP c) (ft_clientSrcPort c) (ft_clientDstPort c) (pr_mySeq st) (pr_peerSeq st)
       (if pr_sent st then tcpFlagPSH OR tcpFlagACK else tcpFlagSYN) b))"
  using assms by (cases st) (simp add: FakeTCP_Send_def Let_def)

lemma flag_cases:
  "(if sent then tcpFlagPSH OR tcpFlagACK else tcpFlagSYN) AND (tcpFlagRST OR tcpFlagFIN) = 0"
  "(if sent then tcpFlagPSH OR tcpFlagACK else tcpFlagSYN) AND tcpFlagSYN \<noteq> 0 \<longleftrightarrow> \<not> sent"
  "(if sent then tcpFlagPSH OR tcpFlagACK else tcpFlagSYN OR tcpFlagACK) AND (tcpFlagRST OR tcpFlagFIN) = 0"
  by (simp_all add: tcp_flags)

text \<open>A segment of the client reaches the server, which notes what to acknowledge.\<close>

lemma Recv_from_client:
  assumes "map_of (ft_peers c) ''server'' = Some st" "FakeTCP_Send r c b = (c', Inr seg)"
    and "ft_srv s" "ft_serverPort s = ft_clientDstPort c" "length (ft_clientDstIP c) = 4" "To4 (clientSrcIP c) \<noteq> []" "length b \<le> 65495"
  defines "peer \<equiv> \<lparr>ua_IP = To4 (clientSrcIP c), ua_Port = unat (ft_clientSrcPort c)\<rparr>"
  shows "\<exists>sp. FakeTCP_Recv q s [seg] = (s\<lparr>ft_peers := AList.update (UDPAddr_String peer) sp (ft_peers s)\<rparr>, Received (b, peer))
    \<and> pr_peerSeq sp = (if pr_sent st then pr_mySeq st + seqAdvance (length b) else pr_mySeq st + 1)"
proof -
  have dst: "To4 (ft_clientDstIP c) = ft_clientDstIP c" "ft_clientDstIP c \<noteq> []" using assms(5) by auto
  have "parseSegment seg = Parsed (b, peer, ft_clientDstPort c, \<not> pr_sent st, pr_mySeq st)"
    using assms(2) dst parse_build_To4 [OF assms(6) _ assms(7) flag_cases(1) [of "pr_sent st"]]
    unfolding Send_segment [OF assms(1)] flag_cases(2) peer_def by auto
  moreover have "of_nat (maxI 1 (length b)) = seqAdvance (length b)" by (auto simp: maxI_def seqAdvance_def)
  ultimately show ?thesis using assms(3,4) by (auto simp: Let_def)
qed

lemma localIPFor_frame [simp]:
  "ft_peers (fst (localIPFor probe f ip)) = ft_peers f" "ft_serverPort (fst (localIPFor probe f ip)) = ft_serverPort f"
  "snd (localIPFor probe (f\<lparr>ft_peers := ps\<rparr>) ip) = snd (localIPFor probe f ip)"
  by (auto simp: localIPFor_def split: option.splits)

lemma SendTo_segment:
  assumes "map_of (ft_peers f) (UDPAddr_String ua) = Some st" "To4 (ua_IP ua) \<noteq> []"
  shows "snd (FakeTCP_SendTo probe r q f (Some ua) b) =
    Inr (buildSegment r (snd (localIPFor probe f (To4 (ua_IP ua)))) (To4 (ua_IP ua)) (ft_serverPort f) (of_nat (ua_Port ua))
      (pr_mySeq st) (pr_peerSeq st) (if pr_sent st then tcpFlagPSH OR tcpFlagACK else tcpFlagSYN OR tcpFlagACK) b)"
proof -
  obtain g ip where g: "localIPFor probe f (To4 (ua_IP ua)) = (g, ip)" by fastforce
  have "ft_peers g = ft_peers f" "ft_serverPort g = ft_serverPort f"
    using localIPFor_frame(1,2) [of probe f "To4 (ua_IP ua)"] unfolding g by simp_all
  then show ?thesis using assms by (simp add: FakeTCP_SendTo_def Let_def g addrKey_def lookup_def_def)
qed

text \<open>
  C18: The disguise carries frames both ways.  A frame the client sends is parsed by the server
  into the same bytes under the client's address, an answer to that address is accepted by the
  client with the same bytes, and the answer acknowledges the number the client sends next.
  Only after the first segment of a client, which carries its data in the SYN, does it
  acknowledge the SYN alone.
\<close>

theorem faketcp_exchange:
  assumes "map_of (ft_peers c) ''server'' = Some st" "FakeTCP_Send r c b = (c', Inr seg)" "ft_srv s" "\<not> ft_srv c"
    and "ft_serverPort s = ft_clientDstPort c" "length (ft_clientDstIP c) = 4" "To4 (clientSrcIP c) \<noteq> []"
    and "length b \<le> 65495" "length a \<le> 65495" "snd (localIPFor probe s (To4 (clientSrcIP c))) = ft_clientDstIP c"
  shows "\<exists>s' s'' seg' c''. FakeTCP_Recv q s [seg] = (s', Received (b, \<lparr>ua_IP = To4 (clientSrcIP c), ua_Port = unat (ft_clientSrcPort c)\<rparr>))
    \<and> FakeTCP_SendTo probe r' q' s' (Some \<lparr>ua_IP = To4 (clientSrcIP c), ua_Port = unat (ft_clientSrcPort c)\<rparr>) a = (s'', Inr seg')
    \<and> FakeTCP_Recv q'' c' [seg'] = (c'', Received (a, \<lparr>ua_IP = ft_clientDstIP c, ua_Port = unat (ft_serverPort s)\<rparr>))
    \<and> get_u32 seg' 28 = (if pr_sent st then pr_mySeq st + seqAdvance (length b) else pr_mySeq st + 1)"
proof -
  let ?peer = "\<lparr>ua_IP = To4 (clientSrcIP c), ua_Port = unat (ft_clientSrcPort c)\<rparr>"
  obtain sp where recv: "FakeTCP_Recv q s [seg] = (s\<lparr>ft_peers := AList.update (UDPAddr_String ?peer) sp (ft_peers s)\<rparr>, Received (b, ?peer))"
    and ack: "pr_peerSeq sp = (if pr_sent st then pr_mySeq st + seqAdvance (length b) else pr_mySeq st + 1)"
    using Recv_from_client [OF assms(1,2,3,5,6,7,8)] by blast
  let ?s' = "s\<lparr>ft_peers := AList.update (UDPAddr_String ?peer) sp (ft_peers s)\<rparr>"
  let ?flags = "if pr_sent sp then tcpFlagPSH OR tcpFlagACK else tcpFlagSYN OR tcpFlagACK"
  let ?seg = "buildSegment r' (ft_clientDstIP c) (To4 (clientSrcIP c)) (ft_serverPort s) (ft_clientSrcPort c) (pr_mySeq sp) (pr_peerSeq sp) ?flags a"
  have "map_of (ft_peers ?s') (UDPAddr_String ?peer) = Some sp" by (simp add: update_conv')
  from SendTo_segment [OF this, of probe r' q' a] have "snd (FakeTCP_SendTo probe r' q' ?s' (Some ?peer) a) = Inr ?seg"
    using assms(7,10) by simp
  then obtain s'' where sent: "FakeTCP_SendTo probe r' q' ?s' (Some ?peer) a = (s'', Inr ?seg)" by (metis prod.collapse)
  have dst: "To4 (ft_clientDstIP c) = ft_clientDstIP c" "To4 (ft_clientDstIP c) \<noteq> []" using assms(6) by auto
  have src: "To4 (To4 (clientSrcIP c)) \<noteq> []" using assms(7) by simp
  have parsed: "parseSegment ?seg = Parsed (a, \<lparr>ua_IP = ft_clientDstIP c, ua_Port = unat (ft_serverPort s)\<rparr>, ft_clientSrcPort c,
      ?flags AND tcpFlagSYN \<noteq> 0, pr_mySeq sp)"
    using parse_build_To4 [OF dst(2) src assms(9) flag_cases(3) [of "pr_sent sp"]] unfolding dst(1) .
  have c': "ft_srv c' = ft_srv c" "ft_clientSrcPort c' = ft_clientSrcPort c" "ft_clientDstIP c' = ft_clientDstIP c"
    using assms(2) unfolding Send_segment [OF assms(1)] by auto
  obtain c'' where "FakeTCP_Recv q'' c' [?seg] = (c'', Received (a, \<lparr>ua_IP = ft_clientDstIP c, ua_Port = unat (ft_serverPort s)\<rparr>))"
    using assms(4) by (simp add: parsed c' Let_def)
  moreover have "get_u32 ?seg 28 = pr_peerSeq sp" by (rule build_ack [OF dst(2) src])
  ultimately show ?thesis using recv sent ack by metis
qed

text \<open>A client and a server after \<open>Open\<close>, at 192.0.2.7 and 198.51.100.1.\<close>

definition demo_resolve :: "string \<Rightarrow> udp_addr option" where
  "demo_resolve a = (if a = ''srv'' then Some \<lparr>ua_IP = [198, 51, 100, 1], ua_Port = 7000\<rparr> else if a = [] then None else Some \<lparr>ua_IP = [], ua_Port = 7000\<rparr>)"

definition demo_client :: FakeTCP where
  "demo_client = fst (FakeTCP_Open demo_resolve (\<lambda>_. Some [192, 0, 2, 7]) (Some 3) 5 100 (NewFakeTCP ''w1'' [] ''srv'' \<lparr>bd_Iface = [], bd_LocalIP = [], bd_FIB = -1\<rparr>))"

definition demo_server :: FakeTCP where
  "demo_server = fst (FakeTCP_Open demo_resolve (\<lambda>_. None) (Some 3) 0 0 (NewFakeTCP ''wan'' '':7000'' [] \<lparr>bd_Iface = [], bd_LocalIP = [], bd_FIB = 0\<rparr>))"

theorem faketcp_exchange_witness:
  "\<exists>s' s'' seg' c''. FakeTCP_Recv 0 demo_server [case snd (FakeTCP_Send 9 demo_client [1, 2, 3]) of Inr seg \<Rightarrow> seg] =
      (s', Received ([1, 2, 3], \<lparr>ua_IP = [192, 0, 2, 7], ua_Port = 1029\<rparr>))
    \<and> FakeTCP_SendTo (\<lambda>_. Some [198, 51, 100, 1]) 1 2 s' (Some \<lparr>ua_IP = [192, 0, 2, 7], ua_Port = 1029\<rparr>) [4, 5] = (s'', Inr seg')
    \<and> FakeTCP_Recv 0 (fst (FakeTCP_Send 9 demo_client [1, 2, 3])) [seg'] = (c'', Received ([4, 5], \<lparr>ua_IP = [198, 51, 100, 1], ua_Port = 7000\<rparr>))
    \<and> get_u32 seg' 28 = 101"
proof -
  let ?st = "\<lparr>pr_mySeq = 100, pr_peerSeq = 0, pr_sent = False\<rparr>"
  have c: "map_of (ft_peers demo_client) ''server'' = Some ?st" "\<not> ft_srv demo_client" "ft_clientDstIP demo_client = [198, 51, 100, 1]"
    "clientSrcIP demo_client = [192, 0, 2, 7]" "ft_clientSrcPort demo_client = 1029" "ft_clientDstPort demo_client = 7000"
    by code_simp+
  have s: "ft_srv demo_server" "ft_serverPort demo_server = 7000" "snd (localIPFor (\<lambda>_. Some [198, 51, 100, 1]) demo_server [192, 0, 2, 7]) = [198, 51, 100, 1]"
    by code_simp+
  let ?r = "FakeTCP_Send 9 demo_client [1, 2, 3]"
  have "?r = (fst ?r, Inr (case snd ?r of Inr seg \<Rightarrow> seg))" unfolding Send_segment [OF c(1)] by simp
  from faketcp_exchange [OF c(1) this s(1) c(2), of "[4, 5]" "\<lambda>_. Some [198, 51, 100, 1]" 0 1 2 0] show ?thesis
    using c s by simp
qed

end
