(* ===== verification/Icmp.thy ===== *)
theory Icmp
  imports Fake_Tcp
begin

unbundle bit_operations_syntax

text \<open>
  The ICMP transport of \<open>internal/transport/icmp.go\<close>: data in the payload of echo requests, data
  in the other direction queued at the server and appended to the reply of the next request. The
  kernel adds and strips no IP header on a read and adds one on a write. Arguments as for the
  TCP disguise: the resolver, the socket, what reads return, whether a write succeeds.

  Shown here: the deliberately wrong checksum of a request marks it as the tunnel's except when
  the right checksum is zero, in which case the server mistakes it for a ping; what of the queue
  a reply delivers, and that the rest of the queue is gone.
\<close>

section \<open>Echo packets\<close>

definition icmpTypeEchoReply :: u8 where "icmpTypeEchoReply = 0"
definition icmpTypeEchoRequest :: u8 where "icmpTypeEchoRequest = 8"
definition icmpHdrLen :: nat where "icmpHdrLen = 8"
definition maxQueuePerPeer :: int where "maxQueuePerPeer = 2 ^ 20"

definition icmpChecksum :: "bytes \<Rightarrow> u16" where
  "icmpChecksum b = NOT (ucast (fold_carry (sum_words 0 b)))"

definition buildEcho :: "u8 \<Rightarrow> u16 \<Rightarrow> u32 \<Rightarrow> bytes \<Rightarrow> bool \<Rightarrow> bytes" where
  "buildEcho ty ident sq payload corruptCS =
     (let pkt = make_bytes (icmpHdrLen + length payload);
          pkt = pkt[0 := ty];
          pkt = copy_at 4 (put_u16 ident) pkt;
          pkt = copy_at 6 (put_u16 (ucast sq)) pkt;
          pkt = copy_at icmpHdrLen payload pkt;
          pkt = copy_at 2 (put_u16 (icmpChecksum pkt)) pkt
      in if corruptCS then copy_at 2 (put_u16 (NOT (get_u16 pkt 2))) pkt else pkt)"

text \<open>
  \<open>icmp[0]\<close> and \<open>icmp[8:]\<close> panic when the length field of the IP header cuts the packet short;
  \<open>icmp[4:6]\<close> only reslices.
\<close>

definition parseEcho :: "bytes \<Rightarrow> (bytes \<times> udp_addr \<times> u8 \<times> u16 \<times> bool) parsed" where
  "parseEcho b =
     (if length b < ipHdrLen + icmpHdrLen then Ignored
      else if drop_bit 4 (b ! 0) \<noteq> 4 then Ignored
      else
        (let ihl = unat (b ! 0 AND 0x0f) * 4 in
         if ihl < ipHdrLen \<or> length b < ihl + icmpHdrLen then Ignored
         else if b ! 9 \<noteq> 1 then Ignored
         else if get_u16 b 6 AND 0x1fff \<noteq> 0 then Ignored
         else
           (let len = unat (get_u16 b 2);
                len = (if len = 0 \<or> len > length b then length b else len);
                srcIP = To4 (take 4 (drop 12 b))
            in if srcIP = [] then Ignored
               else if len \<le> ihl then Panics
               else
                 (let icmp = drop ihl (take len b); rtype = icmp ! 0 in
                  if rtype \<noteq> icmpTypeEchoRequest \<and> rtype \<noteq> icmpTypeEchoReply then Ignored
                  else if length icmp < icmpHdrLen then Panics
                  else Parsed (drop icmpHdrLen icmp, \<lparr>ua_IP = srcIP, ua_Port = 0\<rparr>, rtype, get_u16 icmp 4, icmpChecksum icmp = 0)))))"

definition reqICMPOffset :: "bytes \<Rightarrow> nat option" where
  "reqICMPOffset b =
     (if length b < ipHdrLen then None
      else
        (let ihl = unat (b ! 0 AND 0x0f) * 4
         in if ihl < ipHdrLen \<or> length b < ihl + icmpHdrLen then None else Some ihl))"

section \<open>The transport\<close>

record ICMP =
  ic_id :: string
  ic_local :: string
  ic_remote :: string
  ic_bind :: Bind
  ic_fd :: int
  ic_srv :: bool
  ic_clientDstIP :: bytes
  ic_myID :: u16
  ic_mySeq :: u32
  ic_replyQueue :: "(string \<times> bytes list) list"
  ic_queueBytes :: "(string \<times> int) list"

definition NewICMP :: "string \<Rightarrow> string \<Rightarrow> string \<Rightarrow> Bind \<Rightarrow> ICMP" where
  "NewICMP ident local remote bind =
     \<lparr>ic_id = ident, ic_local = local, ic_remote = remote, ic_bind = bind, ic_fd = -1, ic_srv = False, ic_clientDstIP = [],
      ic_myID = 0, ic_mySeq = 0, ic_replyQueue = [], ic_queueBytes = []\<rparr>"

definition ICMP_LocalAddr :: "ICMP \<Rightarrow> udp_addr" where
  "ICMP_LocalAddr i =
     (if ic_srv i then \<lparr>ua_IP = IPv4zero, ua_Port = 0\<rparr> else \<lparr>ua_IP = ic_clientDstIP i, ua_Port = unat (ic_myID i)\<rparr>)"

definition ic_openClient :: "(string \<Rightarrow> udp_addr option) \<Rightarrow> int option \<Rightarrow> u32 \<Rightarrow> ICMP \<Rightarrow> ICMP \<times> transport_error option" where
  "ic_openClient resolve sock r i =
     (case resolve (ic_remote i) of
        None \<Rightarrow> (i, Some (ResolveFailed (ic_remote i)))
      | Some raddr \<Rightarrow>
          if To4 (ua_IP raddr) = [] then (i, Some (OnlyIPv4 (ic_remote i)))
          else
            (case sock of
               None \<Rightarrow> (i, Some SocketFailed)
             | Some fd \<Rightarrow> (i\<lparr>ic_fd := fd, ic_srv := False, ic_clientDstIP := To4 (ua_IP raddr), ic_myID := ucast (randPort r)\<rparr>, None)))"

definition ic_openServer :: "(string \<Rightarrow> udp_addr option) \<Rightarrow> int option \<Rightarrow> ICMP \<Rightarrow> ICMP \<times> transport_error option" where
  "ic_openServer resolve sock i =
     (case resolve (ic_local i) of
        None \<Rightarrow> (i, Some (ResolveFailed (ic_local i)))
      | Some laddr \<Rightarrow>
          if ua_IP laddr \<noteq> [] \<and> To4 (ua_IP laddr) = [] \<and> \<not> IsUnspecified (ua_IP laddr) then (i, Some (OnlyIPv4 (ic_local i)))
          else (case sock of None \<Rightarrow> (i, Some SocketFailed) | Some fd \<Rightarrow> (i\<lparr>ic_fd := fd, ic_srv := True\<rparr>, None)))"

definition ICMP_Open :: "(string \<Rightarrow> udp_addr option) \<Rightarrow> int option \<Rightarrow> u32 \<Rightarrow> ICMP \<Rightarrow> ICMP \<times> transport_error option" where
  "ICMP_Open resolve sock r i =
     (if 0 \<le> ic_fd i then (i, Some AlreadyOpen)
      else if ic_remote i \<noteq> [] then ic_openClient resolve sock r i
      else ic_openServer resolve sock i)"

definition ICMP_Close :: "ICMP \<Rightarrow> ICMP" where
  "ICMP_Close i = (if 0 \<le> ic_fd i then i\<lparr>ic_fd := -1\<rparr> else i)"

text \<open>\<open>sendTo\<close> ends by handing the packet and its destination to the socket; the value is that pair.\<close>

definition ic_sendTo :: "ICMP \<Rightarrow> bytes \<Rightarrow> bytes \<Rightarrow> transport_error + bytes \<times> bytes" where
  "ic_sendTo i pkt dst = (if ic_fd i < 0 then Inl NotOpen else Inr (pkt, dst))"

definition ICMP_Send :: "ICMP \<Rightarrow> bytes \<Rightarrow> ICMP \<times> (transport_error + bytes \<times> bytes)" where
  "ICMP_Send i b =
     (let i = i\<lparr>ic_mySeq := ic_mySeq i + 1\<rparr>;
          pkt = buildEcho icmpTypeEchoRequest (ic_myID i) (ic_mySeq i) b True
      in (i, ic_sendTo i pkt (ic_clientDstIP i)))"

definition ICMP_SendTo :: "ICMP \<Rightarrow> udp_addr option \<Rightarrow> bytes \<Rightarrow> ICMP \<times> transport_error option" where
  "ICMP_SendTo i addr b =
     (case addr of
        None \<Rightarrow> (i, Some BadPeer)
      | Some ua \<Rightarrow>
          if To4 (ua_IP ua) = [] then (i, Some BadPeer)
          else
            (let key = addrKey ua;
                 i = (if lookup_def 0 (ic_queueBytes i) key + int (length b) > maxQueuePerPeer then
                        (case lookup_def [] (ic_replyQueue i) key of
                           [] \<Rightarrow> i
                         | p # q \<Rightarrow>
                             i\<lparr>ic_queueBytes := AList.update key (lookup_def 0 (ic_queueBytes i) key - int (length p)) (ic_queueBytes i),
                               ic_replyQueue := AList.update key q (ic_replyQueue i)\<rparr>)
                      else i)
             in (i\<lparr>ic_replyQueue := AList.update key (lookup_def [] (ic_replyQueue i) key @ [b]) (ic_replyQueue i),
                   ic_queueBytes := AList.update key (lookup_def 0 (ic_queueBytes i) key + int (length b)) (ic_queueBytes i)\<rparr>, None)))"

text \<open>The request is taken from the read buffer, of which only the datagram is looked at.\<close>

definition sendEchoReply :: "ICMP \<Rightarrow> udp_addr \<Rightarrow> bytes \<Rightarrow> bytes \<Rightarrow> transport_error + bytes \<times> bytes" where
  "sendEchoReply i src reqPkt reply =
     (case reqICMPOffset reqPkt of
        None \<Rightarrow> Inl BadPeer
      | Some icmpOff \<Rightarrow>
          (let out = make_bytes (icmpHdrLen + length reply);
               out = copy_at 0 (take icmpHdrLen (drop icmpOff reqPkt)) out;
               out = out[0 := icmpTypeEchoReply];
               out = copy_at 2 (put_u16 0) out;
               out = copy_at icmpHdrLen reply out;
               out = copy_at 2 (put_u16 (icmpChecksum out)) out
           in ic_sendTo i out (To4 (ua_IP src))))"

fun fit_reply :: "bytes \<Rightarrow> bytes list \<Rightarrow> bytes" where
  "fit_reply reply [] = reply"
| "fit_reply reply (p # ps) =
     (if length reply + length p > 1472 - icmpHdrLen then reply else fit_reply (reply @ p) ps)"

text \<open>\<open>Recv\<close> over the datagrams read; \<open>wok\<close> says whether the socket takes the reply.\<close>

fun ICMP_Recv :: "bool \<Rightarrow> ICMP \<Rightarrow> bytes list \<Rightarrow> ICMP \<times> (bytes \<times> bytes) list \<times> (bytes \<times> udp_addr) received" where
  "ICMP_Recv wok i [] = (i, [], ReadError)"
| "ICMP_Recv wok i (d # ds) =
     (case parseEcho d of
        Panics \<Rightarrow> (i, [], RecvPanic)
      | Ignored \<Rightarrow> ICMP_Recv wok i ds
      | Parsed (frm, src, rtype, ident, csOK) \<Rightarrow>
          if ic_srv i then
            (if rtype \<noteq> icmpTypeEchoRequest \<or> csOK then ICMP_Recv wok i ds
             else
               (let key = UDPAddr_String src;
                    q = lookup_def [] (ic_replyQueue i) key;
                    i = i\<lparr>ic_replyQueue := AList.update key [] (ic_replyQueue i), ic_queueBytes := AList.update key 0 (ic_queueBytes i)\<rparr>;
                    reply = fit_reply [] q
                in case sendEchoReply i src d reply of
                     Inl e \<Rightarrow> (i, [], ReadError)
                   | Inr w \<Rightarrow> (i, [w], if wok then Received (frm, src) else ReadError)))
          else if rtype \<noteq> icmpTypeEchoReply \<or> \<not> csOK \<or> ident \<noteq> ic_myID i \<or> \<not> IP_Equal (ua_IP src) (ic_clientDstIP i)
          then ICMP_Recv wok i ds
          else (i, [], Received (frm, src)))"

section \<open>Checksums of echo packets\<close>

definition echo_image :: "u8 \<Rightarrow> u8 \<Rightarrow> u16 \<Rightarrow> u16 \<Rightarrow> u16 \<Rightarrow> bytes \<Rightarrow> bytes" where
  "echo_image ty cd cs ident sq payload = [ty, cd] @ put_u16 cs @ put_u16 ident @ put_u16 sq @ payload"

lemma length_echo_image [simp]: "length (echo_image ty cd cs ident sq payload) = 8 + length payload"
  by (simp add: echo_image_def)

lemma echo_fields:
  "echo_image ty cd cs ident sq payload ! 0 = ty" "get_u16 (echo_image ty cd cs ident sq payload) 4 = ident"
  "get_u16 (echo_image ty cd cs ident sq payload) 2 = cs" "drop 8 (echo_image ty cd cs ident sq payload) = payload"
  using get_put_u16 [of "[ty, cd] @ put_u16 cs" 4 ident] get_put_u16 [of "[ty, cd]" 2 cs]
  by (simp_all add: echo_image_def)

lemma word_sum_echo: "word_sum (echo_image ty cd cs ident sq payload) = word_sum (echo_image ty cd 0 ident sq payload) + unat cs"
  by (simp add: echo_image_def word_sum_append)

lemma icmpChecksum_exact:
  assumes "length b \<le> 65535"
  shows "\<exists>s. icmpChecksum b = NOT (ucast (fold_carry s)) \<and> unat s = word_sum b"
proof -
  have "word_sum b \<le> 65535 * 32768" using word_sum_bound [of b] assms by (simp add: order_trans)
  then have "unat (sum_words 0 b) = word_sum b" using unat_sum_words [of 0 b] by simp
  then show ?thesis by (auto simp: icmpChecksum_def)
qed

lemma echo_valid:
  assumes "length payload \<le> 65527"
  shows "icmpChecksum (echo_image ty cd (icmpChecksum (echo_image ty cd 0 ident sq payload)) ident sq payload) = 0"
proof -
  let ?e = "\<lambda>cs. echo_image ty cd cs ident sq payload"
  obtain s where s: "icmpChecksum (?e 0) = NOT (ucast (fold_carry s))" "unat s = word_sum (?e 0)"
    using icmpChecksum_exact [of "?e 0"] assms by auto
  obtain s' where s': "icmpChecksum (?e (icmpChecksum (?e 0))) = NOT (ucast (fold_carry s'))" "unat s' = word_sum (?e (icmpChecksum (?e 0)))"
    using icmpChecksum_exact [of "?e (icmpChecksum (?e 0))"] assms by auto
  have "unat s' = unat s + unat (NOT (ucast (fold_carry s)) :: u16)"
    unfolding s'(2) word_sum_echo [of _ _ "icmpChecksum (?e 0)"] s(2) s(1) [symmetric] ..
  then show ?thesis unfolding s'(1) by (rule checksum_closes)
qed

text \<open>Complementing the right checksum gives a wrong one, unless the right one is zero.\<close>

lemma echo_complement:
  fixes cd :: u8 and ident sq :: u16
  assumes "length payload \<le> 65527" "ty \<noteq> 0"
  defines "c \<equiv> icmpChecksum (echo_image ty cd 0 ident sq payload)"
  shows "icmpChecksum (echo_image ty cd (NOT c) ident sq payload) = 0 \<longleftrightarrow> c = 0"
proof -
  let ?e = "\<lambda>cs. echo_image ty cd cs ident sq payload"
  obtain s where s: "c = NOT (ucast (fold_carry s))" "unat s = word_sum (?e 0)"
    using icmpChecksum_exact [of "?e 0"] assms(1) by (auto simp: c_def)
  obtain s' where s': "icmpChecksum (?e (NOT c)) = NOT (ucast (fold_carry s'))" "unat s' = word_sum (?e (NOT c))"
    using icmpChecksum_exact [of "?e (NOT c)"] assms(1) by auto
  have "0 < unat ty" using assms(2) by (simp add: unat_gt_0)
  then have pos: "0 < word_sum (?e 0)" by (simp add: echo_image_def)
  then have nz: "s \<noteq> 0" using s(2) by auto
  have "unat (NOT c) = unat (fold_carry s)" unfolding s(1) unat_not16 [of "NOT (ucast (fold_carry s))"] unat_complement
    by (simp add: unat_fold_carry)
  then have sum: "unat s' = unat s + unat (fold_carry s)" unfolding s'(2) word_sum_echo [of _ _ "NOT c"] s(2) by simp
  have "unat (fold_carry s) = (unat s - 1) mod 65535 + 1" using nz by (simp add: unat_fold_carry)
  moreover have "0 < unat s" using nz by (simp add: unat_gt_0)
  ultimately have m: "unat (fold_carry s) mod 65535 = unat s mod 65535" using mod_Suc_eq [of "unat s - 1" 65535] by simp
  have "(unat s + unat (fold_carry s)) mod 65535 = (unat s + unat s) mod 65535" using m by (metis mod_add_right_eq)
  then have "65535 dvd unat s' \<longleftrightarrow> 65535 dvd 2 * unat s" unfolding sum by (simp add: dvd_eq_mod_eq_0 mult_2)
  also have "\<dots> \<longleftrightarrow> 65535 dvd unat s"
  proof -
    have "coprime (65535 :: nat) 2" by (simp add: coprime_right_2_iff_odd)
    then show ?thesis by (rule coprime_dvd_mult_right_iff)
  qed
  finally have "65535 dvd unat s' \<longleftrightarrow> 65535 dvd unat s" .
  moreover have "s' \<noteq> 0" using sum \<open>0 < unat s\<close> by auto
  moreover have "icmpChecksum (?e (NOT c)) = 0 \<longleftrightarrow> s' \<noteq> 0 \<and> 65535 dvd unat s'" by (simp only: s'(1) complement_0)
  moreover have "c = 0 \<longleftrightarrow> s \<noteq> 0 \<and> 65535 dvd unat s" by (simp only: s(1) complement_0)
  ultimately show ?thesis using nz by blast
qed

lemma buildEcho_layout:
  "buildEcho ty ident sq payload corrupt =
     (let c = icmpChecksum (echo_image ty 0 0 ident (ucast sq) payload)
      in echo_image ty 0 (if corrupt then NOT c else c) ident (ucast sq) payload)"
proof -
  have z: "make_bytes (8 + n) = [0,0,0,0,0,0,0,0] @ make_bytes n" for n
    by (simp add: make_bytes_def replicate_add numeral_eq_Suc)
  have i: "copy_at 8 payload (copy_at 6 (put_u16 (ucast sq)) (copy_at 4 (put_u16 ident) ((make_bytes (8 + length payload))[0 := ty])))
      = echo_image ty 0 0 ident (ucast sq) payload"
    unfolding z by (simp add: copy_at_def echo_image_def put_u16_def)
  have c: "copy_at 2 (put_u16 v) (echo_image ty 0 w ident (ucast sq) payload) = echo_image ty 0 v ident (ucast sq) payload" for v w
    by (simp add: copy_at_def echo_image_def put_u16_def)
  show ?thesis unfolding buildEcho_def Let_def icmpHdrLen_def i c echo_fields by simp
qed

section \<open>What the transport does\<close>

text \<open>An IPv4 header without options in front of an ICMP packet of \<open>n\<close> bytes, as a raw socket delivers it.\<close>

definition icmp_ip :: "bytes \<Rightarrow> nat \<Rightarrow> bytes \<Rightarrow> bool" where
  "icmp_ip iph n ip \<longleftrightarrow>
     length iph = 20 \<and> iph ! 0 = 0x45 \<and> iph ! 9 = 1 \<and> get_u16 iph 6 AND 0x1fff = 0 \<and> unat (get_u16 iph 2) = 20 + n \<and>
     take 4 (drop 12 iph) = ip"

lemma parse_echo:
  assumes "icmp_ip iph (8 + length payload) ip" "ty = icmpTypeEchoRequest \<or> ty = icmpTypeEchoReply"
  shows "parseEcho (iph @ echo_image ty cd cs ident sq payload) =
    Parsed (payload, \<lparr>ua_IP = ip, ua_Port = 0\<rparr>, ty, ident, icmpChecksum (echo_image ty cd cs ident sq payload) = 0)"
    "length ip = 4"
proof -
  let ?e = "echo_image ty cd cs ident sq payload"
  note h = assms(1) [unfolded icmp_ip_def]
  show l: "length ip = 4" using h by auto
  have f: "(iph @ ?e) ! 0 = 0x45" "(iph @ ?e) ! 9 = 1" "get_u16 (iph @ ?e) 6 AND 0x1fff = 0" "unat (get_u16 (iph @ ?e) 2) = 28 + length payload"
    "take 4 (drop 12 (iph @ ?e)) = ip" "length (iph @ ?e) = 28 + length payload" "drop 20 (iph @ ?e) = ?e"
    using h by (simp_all add: nth_append get_u16_append)
  have ne: "ip \<noteq> []" using l by auto
  show "parseEcho (iph @ ?e) = Parsed (payload, \<lparr>ua_IP = ip, ua_Port = 0\<rparr>, ty, ident, icmpChecksum ?e = 0)"
  proof -
    have tk: "take (28 + length payload) (iph @ ?e) = iph @ ?e" using f(6) by simp
    have ty: "\<not> (ty \<noteq> icmpTypeEchoRequest \<and> ty \<noteq> icmpTypeEchoReply)" using assms(2) by blast
    have ihl: "unat ((0x45 :: u8) AND 0x0f) * 4 = 20" "drop_bit 4 (0x45 :: u8) = 4" by simp_all
    have nz: "\<not> (28 + length payload = 0 \<or> 28 + length payload < 28 + length payload)" by simp
    show ?thesis
      unfolding parseEcho_def Let_def f ihl tk echo_fields if_not_P [OF ty] if_not_P [OF nz] To4_v4 [OF l] ipHdrLen_def icmpHdrLen_def
      using ne by simp
  qed
qed

lemma echo_checksum_0: "\<exists>w. icmpChecksum (echo_image icmpTypeEchoRequest 0 0 ident sq (put_u16 w)) = 0"
proof -
  let ?n = "word_sum (echo_image icmpTypeEchoRequest 0 0 ident sq [])"
  define w :: u16 where "w = of_nat (65535 - ?n mod 65535)"
  have w: "unat w = 65535 - ?n mod 65535" unfolding w_def by (subst unat_of_nat) simp
  obtain s where s: "icmpChecksum (echo_image icmpTypeEchoRequest 0 0 ident sq (put_u16 w)) = NOT (ucast (fold_carry s))"
    "unat s = word_sum (echo_image icmpTypeEchoRequest 0 0 ident sq (put_u16 w))"
    using icmpChecksum_exact [of "echo_image icmpTypeEchoRequest 0 0 ident sq (put_u16 w)"] by auto
  have "unat s = ?n + (65535 - ?n mod 65535)" unfolding s(2) w [symmetric] by (simp add: echo_image_def word_sum_append)
  moreover have "?n + (65535 - ?n mod 65535) = (?n - ?n mod 65535) + 65535"
    using mod_le_divisor [of 65535 ?n] mod_less_eq_dividend [of ?n 65535] by linarith
  ultimately have u: "unat s = (?n - ?n mod 65535) + 65535" by simp
  have "65535 dvd (?n - ?n mod 65535) + 65535" using dvd_minus_mod [of 65535 ?n] by (rule dvd_add) simp
  moreover have "s \<noteq> 0"
  proof
    assume "s = 0"
    then show False using u by simp
  qed
  ultimately have "NOT (ucast (fold_carry s)) = (0 :: u16)" unfolding complement_0 u by blast
  then show ?thesis using s(1) by metis
qed

text \<open>
  C35: The marker of a request.  The complement of the checksum is meant never to be valid, so
  that the server can tell the tunnel's requests from pings.  A request reaches the server's
  caller exactly when its right checksum is not zero; otherwise the complement is valid too and
  the server leaves the request, with the frame in it, to the kernel.  For every client state
  there is such a frame of two bytes.
\<close>

theorem icmp_request_marker:
  assumes "icmp_ip iph (8 + length b) ip" "length b \<le> 65507" "ic_srv s" "0 \<le> ic_fd s" "0 \<le> ic_fd c"
  shows "\<exists>c' pkt. ICMP_Send c b = (c', Inr (pkt, ic_clientDstIP c)) \<and>
    snd (snd (ICMP_Recv True s [iph @ pkt])) =
      (if icmpChecksum (echo_image icmpTypeEchoRequest 0 0 (ic_myID c) (ucast (ic_mySeq c + 1)) b) = 0
       then ReadError else Received (b, \<lparr>ua_IP = ip, ua_Port = 0\<rparr>))
    \<and> (\<exists>w. icmpChecksum (echo_image icmpTypeEchoRequest 0 0 (ic_myID c) (ucast (ic_mySeq c + 1)) (put_u16 w)) = 0)"
proof -
  let ?c = "icmpChecksum (echo_image icmpTypeEchoRequest 0 0 (ic_myID c) (ucast (ic_mySeq c + 1)) b)"
  let ?pkt = "echo_image icmpTypeEchoRequest 0 (NOT ?c) (ic_myID c) (ucast (ic_mySeq c + 1)) b"
  have send: "snd (ICMP_Send c b) = Inr (?pkt, ic_clientDstIP c)"
    using assms(5) by (simp add: ICMP_Send_def Let_def ic_sendTo_def buildEcho_layout)
  have cs: "icmpChecksum ?pkt = 0 \<longleftrightarrow> ?c = 0" using assms(2) by (intro echo_complement) (simp_all add: icmpTypeEchoRequest_def)
  note p = parse_echo(1) [OF assms(1), of icmpTypeEchoRequest 0 "NOT ?c" "ic_myID c" "ucast (ic_mySeq c + 1)"]
  have off: "reqICMPOffset (iph @ ?pkt) = Some 20"
    using assms(1) by (auto simp: reqICMPOffset_def icmp_ip_def ipHdrLen_def icmpHdrLen_def nth_append Let_def)
  have "snd (snd (ICMP_Recv True s [iph @ ?pkt])) = (if ?c = 0 then ReadError else Received (b, \<lparr>ua_IP = ip, ua_Port = 0\<rparr>))"
    using p assms(3,4) off cs by (simp add: Let_def sendEchoReply_def ic_sendTo_def)
  moreover have "ICMP_Send c b = (fst (ICMP_Send c b), Inr (?pkt, ic_clientDstIP c))" using send by (simp add: prod_eq_iff)
  ultimately show ?thesis using echo_checksum_0 by blast
qed

text \<open>The header of a datagram from \<open>src\<close> to \<open>dst\<close> with an ICMP packet of \<open>8 + n\<close> bytes.\<close>

definition demo_ip :: "bytes \<Rightarrow> bytes \<Rightarrow> nat \<Rightarrow> bytes" where
  "demo_ip src dst n = [0x45, 0] @ put_u16 (of_nat (28 + n)) @ [0, 0, 0, 0, 64, 1, 0, 0] @ src @ dst"

lemma demo_ip_ok:
  assumes "length src = 4" "length dst = 4" "n \<le> 65507"
  shows "icmp_ip (demo_ip src dst n) (8 + n) src"
proof -
  have "unat (of_nat (28 + n) :: u16) = 28 + n" using assms(3) by (subst unat_of_nat) simp
  then show ?thesis
    using assms(1,2) get_put_u16 [of "[0x45, 0]" 2 "of_nat (28 + n)" "[0, 0, 0, 0, 64, 1, 0, 0] @ src @ dst"]
    by (simp add: icmp_ip_def demo_ip_def nth_append) (simp add: get_u16_def nth_append put_u16_def)
qed

definition demo_icmp_client :: ICMP where
  "demo_icmp_client = (NewICMP ''w1'' [] ''srv'' \<lparr>bd_Iface = [], bd_LocalIP = [], bd_FIB = -1\<rparr>)
     \<lparr>ic_fd := 3, ic_clientDstIP := [198, 51, 100, 1], ic_myID := 0x1000\<rparr>"

definition demo_icmp_server :: ICMP where
  "demo_icmp_server = (NewICMP ''wan'' '':7000'' [] \<lparr>bd_Iface = [], bd_LocalIP = [], bd_FIB = 0\<rparr>)\<lparr>ic_fd := 3, ic_srv := True\<rparr>"

theorem icmp_request_marker_witness:
  "snd (snd (ICMP_Recv True demo_icmp_server
     [demo_ip [192, 0, 2, 7] [198, 51, 100, 1] 2 @ (case snd (ICMP_Send demo_icmp_client [0xE7, 0xFE]) of Inr (pkt, _) \<Rightarrow> pkt)])) = ReadError"
proof -
  have "icmp_ip (demo_ip [192, 0, 2, 7] [198, 51, 100, 1] 2) (8 + length [0xE7, 0xFE :: u8]) [192, 0, 2, 7]"
    using demo_ip_ok [of "[192, 0, 2, 7]" "[198, 51, 100, 1]" 2] by simp
  moreover have "ic_srv demo_icmp_server" "0 \<le> ic_fd demo_icmp_server" "0 \<le> ic_fd demo_icmp_client"
    by (simp_all add: demo_icmp_server_def demo_icmp_client_def)
  moreover have "icmpChecksum (echo_image icmpTypeEchoRequest 0 0 (ic_myID demo_icmp_client) (ucast (ic_mySeq demo_icmp_client + 1)) [0xE7, 0xFE]) = 0"
    by code_simp
  ultimately show ?thesis
    using icmp_request_marker [of "demo_ip [192, 0, 2, 7] [198, 51, 100, 1] 2" "[0xE7, 0xFE]" "[192, 0, 2, 7]" demo_icmp_server demo_icmp_client]
    by (auto simp del: ICMP_Recv.simps)
qed

lemma fit_reply_prefix:
  "length r \<le> 1464 \<Longrightarrow> \<exists>n. fit_reply r q = r @ concat (take n q) \<and> length (fit_reply r q) \<le> 1464
     \<and> (length q \<le> n \<or> 1464 < length (r @ concat (take (Suc n) q)))"
proof (induction q arbitrary: r)
  case Nil
  then show ?case by simp
next
  case (Cons p q)
  show ?case
  proof (cases "length r + length p > 1464")
    case True
    then show ?thesis using Cons.prems by (intro exI [of _ 0]) (simp add: icmpHdrLen_def)
  next
    case False
    then have "length (r @ p) \<le> 1464" by simp
    from Cons.IH [OF this] obtain n where "fit_reply (r @ p) q = (r @ p) @ concat (take n q)" "length (fit_reply (r @ p) q) \<le> 1464"
      "length q \<le> n \<or> 1464 < length ((r @ p) @ concat (take (Suc n) q))" by blast
    then show ?thesis using False by (intro exI [of _ "Suc n"]) (auto simp: icmpHdrLen_def)
  qed
qed

lemma sendEchoReply_layout:
  assumes "length iph = 20" "iph ! 0 = 0x45" "0 \<le> ic_fd i"
  shows "sendEchoReply i src (iph @ echo_image ty cd cs ident sq b) reply =
    Inr (echo_image icmpTypeEchoReply cd (icmpChecksum (echo_image icmpTypeEchoReply cd 0 ident sq reply)) ident sq reply, To4 (ua_IP src))"
proof -
  have off: "reqICMPOffset (iph @ echo_image ty cd cs ident sq b) = Some 20"
    using assms(1,2) by (simp add: reqICMPOffset_def ipHdrLen_def icmpHdrLen_def nth_append Let_def)
  have z: "make_bytes (8 + length reply) = [0,0,0,0,0,0,0,0] @ make_bytes (length reply)"
    by (simp add: make_bytes_def replicate_add numeral_eq_Suc)
  have i: "copy_at 8 reply (copy_at 2 (put_u16 0) ((copy_at 0 (take 8 (drop 20 (iph @ echo_image ty cd cs ident sq b)))
      (make_bytes (8 + length reply)))[0 := icmpTypeEchoReply])) = echo_image icmpTypeEchoReply cd 0 ident sq reply"
    unfolding z using assms(1) by (simp add: copy_at_def echo_image_def put_u16_def)
  have c: "copy_at 2 (put_u16 v) (echo_image icmpTypeEchoReply cd 0 ident sq reply) = echo_image icmpTypeEchoReply cd v ident sq reply" for v
    by (simp add: copy_at_def echo_image_def put_u16_def)
  show ?thesis unfolding sendEchoReply_def off option.case Let_def icmpHdrLen_def i c using assms(3) by (simp add: ic_sendTo_def)
qed

text \<open>
  C36: What the server has queued for a client rides on the reply to its next request.  The reply
  is well formed and the client takes it, and it brings the longest prefix of the queue that
  fits 1464 bytes, run together into one buffer; the queue is empty afterwards, so whatever did
  not fit is lost.
\<close>

theorem icmp_pull_reply:
  assumes "icmp_ip iph (8 + length b) ip" "icmpChecksum (echo_image icmpTypeEchoRequest cd cs ident sq b) \<noteq> 0"
    and "ic_srv s" "0 \<le> ic_fd s" "\<not> ic_srv c" "ic_myID c = ident" "\<forall>n\<le>1464. icmp_ip (wrap n) (8 + n) (ic_clientDstIP c)"
    and "q = lookup_def [] (ic_replyQueue s) (UDPAddr_String \<lparr>ua_IP = ip, ua_Port = 0\<rparr>)"
  shows "\<exists>s' pkt n. ICMP_Recv True s [iph @ echo_image icmpTypeEchoRequest cd cs ident sq b] = (s', [(pkt, ip)], Received (b, \<lparr>ua_IP = ip, ua_Port = 0\<rparr>))
    \<and> lookup_def [] (ic_replyQueue s') (UDPAddr_String \<lparr>ua_IP = ip, ua_Port = 0\<rparr>) = []
    \<and> snd (snd (ICMP_Recv wok c [wrap (length pkt - 8) @ pkt])) = Received (concat (take n q), \<lparr>ua_IP = ic_clientDstIP c, ua_Port = 0\<rparr>)
    \<and> (length q \<le> n \<or> 1464 < length (concat (take (Suc n) q)))"
proof -
  let ?src = "\<lparr>ua_IP = ip, ua_Port = 0\<rparr>"
  have "length ([] :: bytes) \<le> 1464" by simp
  from fit_reply_prefix [OF this, of q] obtain n where n: "fit_reply [] q = concat (take n q)" "length (fit_reply [] q) \<le> 1464" "length q \<le> n \<or> 1464 < length (concat (take (Suc n) q))"
    unfolding append_Nil by blast
  let ?r = "fit_reply [] q"
  let ?s' = "s\<lparr>ic_replyQueue := AList.update (UDPAddr_String ?src) [] (ic_replyQueue s), ic_queueBytes := AList.update (UDPAddr_String ?src) 0 (ic_queueBytes s)\<rparr>"
  let ?pkt = "echo_image icmpTypeEchoReply cd (icmpChecksum (echo_image icmpTypeEchoReply cd 0 ident sq ?r)) ident sq ?r"
  have ip: "To4 ip = ip" using assms(1) by (auto simp: icmp_ip_def)
  have iph: "length iph = 20" "iph ! 0 = 0x45" using assms(1) by (simp_all add: icmp_ip_def)
  have out: "sendEchoReply ?s' ?src (iph @ echo_image icmpTypeEchoRequest cd cs ident sq b) ?r = Inr (?pkt, ip)"
    using sendEchoReply_layout [OF iph, of ?s'] assms(4) ip by simp
  have recv: "ICMP_Recv True s [iph @ echo_image icmpTypeEchoRequest cd cs ident sq b] = (?s', [(?pkt, ip)], Received (b, ?src))"
    using parse_echo(1) [OF assms(1), of icmpTypeEchoRequest] assms(2,3) out unfolding assms(8) by (simp add: Let_def)
  have w: "icmp_ip (wrap (length ?pkt - 8)) (8 + length ?r) (ic_clientDstIP c)" using assms(7) n(2) by simp
  have "icmpChecksum ?pkt = 0" using n(2) by (intro echo_valid) simp
  then have "snd (snd (ICMP_Recv wok c [wrap (length ?pkt - 8) @ ?pkt])) = Received (?r, \<lparr>ua_IP = ic_clientDstIP c, ua_Port = 0\<rparr>)"
    using parse_echo(1) [OF w, of icmpTypeEchoReply] assms(5,6) by simp
  then show ?thesis using recv n(1,3) by (intro exI [of _ ?s'] exI [of _ ?pkt] exI [of _ n]) simp
qed

theorem icmp_pull_reply_witness:
  "\<exists>s' pkt n. ICMP_Recv True (fst (ICMP_SendTo (fst (ICMP_SendTo demo_icmp_server (Some \<lparr>ua_IP = [192, 0, 2, 7], ua_Port = 0\<rparr>) [1, 2])) (Some \<lparr>ua_IP = [192, 0, 2, 7], ua_Port = 0\<rparr>) [3]))
      [demo_ip [192, 0, 2, 7] [198, 51, 100, 1] 1 @ echo_image icmpTypeEchoRequest 0 0 0x1000 1 [9]] = (s', [(pkt, [192, 0, 2, 7])], Received ([9], \<lparr>ua_IP = [192, 0, 2, 7], ua_Port = 0\<rparr>))
    \<and> snd (snd (ICMP_Recv True demo_icmp_client [demo_ip [198, 51, 100, 1] [192, 0, 2, 7] (length pkt - 8) @ pkt])) = Received (concat (take n [[1, 2], [3]]), \<lparr>ua_IP = [198, 51, 100, 1], ua_Port = 0\<rparr>)"
proof -
  let ?s = "fst (ICMP_SendTo (fst (ICMP_SendTo demo_icmp_server (Some \<lparr>ua_IP = [192, 0, 2, 7], ua_Port = 0\<rparr>) [1, 2])) (Some \<lparr>ua_IP = [192, 0, 2, 7], ua_Port = 0\<rparr>) [3])"
  have h: "icmp_ip (demo_ip [192, 0, 2, 7] [198, 51, 100, 1] 1) (8 + length [9 :: u8]) [192, 0, 2, 7]"
    using demo_ip_ok [of "[192, 0, 2, 7]" "[198, 51, 100, 1]" 1] by simp
  have k: "icmpChecksum (echo_image icmpTypeEchoRequest 0 0 0x1000 1 [9]) \<noteq> 0" by code_simp
  have s: "ic_srv ?s" "0 \<le> ic_fd ?s" "[[1, 2], [3]] = lookup_def [] (ic_replyQueue ?s) (UDPAddr_String \<lparr>ua_IP = [192, 0, 2, 7], ua_Port = 0\<rparr>)"
    by code_simp+
  have c: "\<not> ic_srv demo_icmp_client" "ic_myID demo_icmp_client = 0x1000" "ic_clientDstIP demo_icmp_client = [198, 51, 100, 1]" by code_simp+
  have w: "\<forall>n\<le>1464. icmp_ip (demo_ip [198, 51, 100, 1] [192, 0, 2, 7] n) (8 + n) (ic_clientDstIP demo_icmp_client)"
    using demo_ip_ok [of "[198, 51, 100, 1]" "[192, 0, 2, 7]"] unfolding c(3) by simp
  show ?thesis using icmp_pull_reply [OF h k s(1,2) c(1,2) w s(3), of True] unfolding c(3) by blast
qed

end
