(* ===== verification/Udp.thy ===== *)
theory Udp
  imports Fake_Tcp
begin

text \<open>
  The UDP transport of \<open>internal/transport/udp.go\<close> and the pinning of sockets to an uplink
  (\<open>bind.go\<close>, \<open>bind_linux.go\<close>, \<open>bind_freebsd.go\<close>, \<open>bind_other.go\<close>, and \<open>bindToRaw\<close> of
  \<open>faketcp_raw.go\<close> for raw sockets). A socket is a record of what it was pinned to. What the kernel
  answers to \<open>setsockopt\<close>, \<open>bind\<close> and \<open>connect\<close>, the resolver and the parser of address literals
  are arguments.

  Shown here: to which device or source address a dialled socket is pinned, in every case. With
  the FIB left at its YAML zero value the source address of the configuration is ignored.
\<close>

datatype sock_error = EPERM | EACCES | DeviceBindUnsupported | BindUnsupportedHere | SockError

record conn =
  cn_device :: "string option"
  cn_fib :: "int option"
  cn_source :: "bytes option"
  cn_remote :: "udp_addr option"

definition plain_conn :: conn where
  "plain_conn = \<lparr>cn_device = None, cn_fib = None, cn_source = None, cn_remote = None\<rparr>"

section \<open>Pinning\<close>

definition Bind_Empty :: "Bind \<Rightarrow> bool" where
  "Bind_Empty b \<longleftrightarrow> bd_Iface b = [] \<and> bd_LocalIP b = [] \<and> bd_FIB b < 0"

text \<open>
  The three builds of \<open>setDeviceBinding\<close>; \<open>opt\<close> is the kernel's answer to the socket option.
\<close>

definition setDeviceBinding_linux :: "(string \<Rightarrow> int \<Rightarrow> sock_error option) \<Rightarrow> conn \<Rightarrow> string \<Rightarrow> int \<Rightarrow> sock_error + conn" where
  "setDeviceBinding_linux opt c iface fib =
     (if iface = [] then Inr c
      else case opt iface fib of None \<Rightarrow> Inr (c\<lparr>cn_device := Some iface\<rparr>) | Some e \<Rightarrow> Inl e)"

definition setDeviceBinding_freebsd :: "(string \<Rightarrow> int \<Rightarrow> sock_error option) \<Rightarrow> conn \<Rightarrow> string \<Rightarrow> int \<Rightarrow> sock_error + conn" where
  "setDeviceBinding_freebsd opt c iface fib =
     (if fib \<ge> 0 then (case opt iface fib of None \<Rightarrow> Inr (c\<lparr>cn_fib := Some fib\<rparr>) | Some e \<Rightarrow> Inl e)
      else Inl DeviceBindUnsupported)"

definition setDeviceBinding_other :: "conn \<Rightarrow> string \<Rightarrow> int \<Rightarrow> sock_error + conn" where
  "setDeviceBinding_other c iface fib = (if iface = [] then Inr c else Inl BindUnsupportedHere)"

type_synonym dev_bind = "conn \<Rightarrow> string \<Rightarrow> int \<Rightarrow> sock_error + conn"

definition fall_back :: "sock_error \<Rightarrow> bool" where
  "fall_back e \<longleftrightarrow> e = EPERM \<or> e = EACCES \<or> e = DeviceBindUnsupported"

text \<open>A dial with a control hook: the hook runs on the new socket, then the kernel connects it.\<close>

definition dial_with :: "(conn \<Rightarrow> udp_addr \<Rightarrow> sock_error option) \<Rightarrow> sock_error + conn \<Rightarrow> udp_addr \<Rightarrow> sock_error + conn" where
  "dial_with connect c raddr =
     (case c of
        Inl e \<Rightarrow> Inl e
      | Inr c \<Rightarrow> (case connect c raddr of None \<Rightarrow> Inr (c\<lparr>cn_remote := Some raddr\<rparr>) | Some e \<Rightarrow> Inl e))"

datatype udp_error = DialFailed sock_error | NeedsFallback sock_error | InvalidLocalIP string | UdpResolve string | UdpListen | NotClient | NotUDPAddr | UdpIO

definition dialBound ::
    "dev_bind \<Rightarrow> (conn \<Rightarrow> udp_addr \<Rightarrow> sock_error option) \<Rightarrow> (string \<Rightarrow> bytes option) \<Rightarrow> Bind \<Rightarrow> udp_addr \<Rightarrow> udp_error + conn" where
  "dialBound setdev connect parseIP b raddr =
     (let local = (if bd_LocalIP b \<noteq> [] then
                     (case parseIP (bd_LocalIP b) of
                        None \<Rightarrow> Inl (InvalidLocalIP (bd_LocalIP b))
                      | Some ip \<Rightarrow> (case dial_with connect (Inr (plain_conn\<lparr>cn_source := Some ip\<rparr>)) raddr of
                                       Inl e \<Rightarrow> Inl (DialFailed e) | Inr c \<Rightarrow> Inr c))
                   else (case dial_with connect (Inr plain_conn) raddr of Inl e \<Rightarrow> Inl (DialFailed e) | Inr c \<Rightarrow> Inr c))
      in if bd_Iface b \<noteq> [] \<or> bd_FIB b \<ge> 0 then
           (case dial_with connect (setdev plain_conn (bd_Iface b) (bd_FIB b)) raddr of
              Inr c \<Rightarrow> Inr c
            | Inl e \<Rightarrow>
                if \<not> fall_back e then Inl (DialFailed e)
                else if bd_LocalIP b = [] then Inl (NeedsFallback e)
                else local)
         else local)"

definition bindLocalIP :: "(bytes \<Rightarrow> sock_error option) \<Rightarrow> (string \<Rightarrow> bytes option) \<Rightarrow> conn \<Rightarrow> string \<Rightarrow> udp_error + conn" where
  "bindLocalIP bind parseIP c localIP =
     (let ip = (case parseIP localIP of None \<Rightarrow> [] | Some ip \<Rightarrow> To4 ip)
      in if ip = [] then Inl (InvalidLocalIP localIP)
         else (case bind ip of None \<Rightarrow> Inr (c\<lparr>cn_source := Some ip\<rparr>) | Some e \<Rightarrow> Inl (DialFailed e)))"

definition bindToRaw :: "dev_bind \<Rightarrow> (bytes \<Rightarrow> sock_error option) \<Rightarrow> (string \<Rightarrow> bytes option) \<Rightarrow> conn \<Rightarrow> Bind \<Rightarrow> udp_error + conn" where
  "bindToRaw setdev bind parseIP c b =
     (if bd_Iface b \<noteq> [] then
        (case setdev c (bd_Iface b) (bd_FIB b) of
           Inr c \<Rightarrow> Inr c
         | Inl e \<Rightarrow> if bd_LocalIP b \<noteq> [] \<and> fall_back e then bindLocalIP bind parseIP c (bd_LocalIP b) else Inl (DialFailed e))
      else if bd_LocalIP b \<noteq> [] then bindLocalIP bind parseIP c (bd_LocalIP b)
      else Inr c)"

section \<open>The transport\<close>

record UDP =
  ud_id :: string
  ud_local :: string
  ud_remote :: string
  ud_bind :: Bind
  ud_conn :: "conn option"
  ud_remoteIP :: "udp_addr option"

definition NewUDP :: "string \<Rightarrow> string \<Rightarrow> string \<Rightarrow> Bind \<Rightarrow> UDP" where
  "NewUDP ident local remote bind =
     \<lparr>ud_id = ident, ud_local = local, ud_remote = remote, ud_bind = bind, ud_conn = None, ud_remoteIP = None\<rparr>"

definition ud_openClient ::
    "dev_bind \<Rightarrow> (conn \<Rightarrow> udp_addr \<Rightarrow> sock_error option) \<Rightarrow> (string \<Rightarrow> bytes option) \<Rightarrow> (string \<Rightarrow> udp_addr option) \<Rightarrow> UDP \<Rightarrow> UDP \<times> udp_error option" where
  "ud_openClient setdev connect parseIP resolve u =
     (case resolve (ud_remote u) of
        None \<Rightarrow> (u, Some (UdpResolve (ud_remote u)))
      | Some raddr \<Rightarrow>
          (case dialBound setdev connect parseIP (ud_bind u) raddr of
             Inl e \<Rightarrow> (u, Some e)
           | Inr c \<Rightarrow> (u\<lparr>ud_conn := Some c, ud_remoteIP := Some raddr\<rparr>, None)))"

definition UDP_Open ::
    "dev_bind \<Rightarrow> (conn \<Rightarrow> udp_addr \<Rightarrow> sock_error option) \<Rightarrow> (string \<Rightarrow> bytes option) \<Rightarrow> (string \<Rightarrow> udp_addr option) \<Rightarrow> (udp_addr \<Rightarrow> bool) \<Rightarrow>
     UDP \<Rightarrow> UDP \<times> udp_error option" where
  "UDP_Open setdev connect parseIP resolve listen u =
     (if ud_remote u \<noteq> [] then ud_openClient setdev connect parseIP resolve u
      else
        (case resolve (ud_local u) of
           None \<Rightarrow> (u, Some (UdpResolve (ud_local u)))
         | Some laddr \<Rightarrow> if listen laddr then (u\<lparr>ud_conn := Some plain_conn\<rparr>, None) else (u, Some UdpListen)))"

text \<open>\<open>Send\<close> and \<open>SendTo\<close> hand the bytes and the destination to the socket.\<close>

definition UDP_Send :: "UDP \<Rightarrow> bytes \<Rightarrow> udp_error + udp_addr \<times> bytes" where
  "UDP_Send u b = (case ud_remoteIP u of None \<Rightarrow> Inl NotClient | Some r \<Rightarrow> Inr (r, b))"

definition UDP_SendTo :: "UDP \<Rightarrow> udp_addr option \<Rightarrow> bytes \<Rightarrow> udp_error + udp_addr \<times> bytes" where
  "UDP_SendTo u addr b = (case addr of None \<Rightarrow> Inl NotUDPAddr | Some ua \<Rightarrow> Inr (ua, b))"

text \<open>A read copies a datagram into the 65535-byte buffer; \<open>Recv\<close> returns a copy of what was read.\<close>

definition UDP_Recv :: "(bytes \<times> udp_addr) option \<Rightarrow> udp_error + bytes \<times> udp_addr" where
  "UDP_Recv rd =
     (case rd of
        None \<Rightarrow> Inl UdpIO
      | Some (d, addr) \<Rightarrow>
          (let n = min (length d) 65535;
               readBuf = take n d;
               out = copy_at 0 readBuf (make_bytes n)
           in Inr (out, addr)))"

section \<open>Where a socket is pinned\<close>

text \<open>
  The first attempt of a dial: whether there is one at all, and the error it ends with. Without a
  device name the option is not set, and the attempt is a dial of an unpinned socket.
\<close>

definition first_try :: "(string \<Rightarrow> int \<Rightarrow> sock_error option) \<Rightarrow> (conn \<Rightarrow> udp_addr \<Rightarrow> sock_error option) \<Rightarrow> Bind \<Rightarrow> udp_addr \<Rightarrow> sock_error option" where
  "first_try opt connect b raddr =
     (if bd_Iface b = [] then connect plain_conn raddr
      else case opt (bd_Iface b) (bd_FIB b) of Some e \<Rightarrow> Some e | None \<Rightarrow> connect (plain_conn\<lparr>cn_device := Some (bd_Iface b)\<rparr>) raddr)"

text \<open>The dial goes on to the source address: nothing was tried before, or the attempt failed for want of privilege or support.\<close>

definition tries_source :: "(string \<Rightarrow> int \<Rightarrow> sock_error option) \<Rightarrow> (conn \<Rightarrow> udp_addr \<Rightarrow> sock_error option) \<Rightarrow> Bind \<Rightarrow> udp_addr \<Rightarrow> bool" where
  "tries_source opt connect b raddr \<longleftrightarrow> bd_LocalIP b \<noteq> [] \<and>
     (bd_Iface b = [] \<and> bd_FIB b < 0 \<or> (\<exists>e. first_try opt connect b raddr = Some e \<and> fall_back e))"

lemma dialBound_steps:
  "dialBound (setDeviceBinding_linux opt) connect parseIP b raddr =
     (if tries_source opt connect b raddr then
        (case parseIP (bd_LocalIP b) of
           None \<Rightarrow> Inl (InvalidLocalIP (bd_LocalIP b))
         | Some ip \<Rightarrow> (case connect (plain_conn\<lparr>cn_source := Some ip\<rparr>) raddr of
                          None \<Rightarrow> Inr (plain_conn\<lparr>cn_source := Some ip, cn_remote := Some raddr\<rparr>) | Some e \<Rightarrow> Inl (DialFailed e)))
      else
        (case first_try opt connect b raddr of
           None \<Rightarrow> Inr (plain_conn\<lparr>cn_device := (if bd_Iface b = [] then None else Some (bd_Iface b)), cn_remote := Some raddr\<rparr>)
         | Some e \<Rightarrow> Inl (if fall_back e \<and> (bd_Iface b \<noteq> [] \<or> 0 \<le> bd_FIB b) then NeedsFallback e else DialFailed e)))"
proof (cases "bd_Iface b = []")
  case True
  have "plain_conn\<lparr>cn_device := None, cn_remote := Some raddr\<rparr> = plain_conn\<lparr>cn_remote := Some raddr\<rparr>" by (simp add: plain_conn_def)
  then show ?thesis using True
    by (cases "0 \<le> bd_FIB b"; cases "connect plain_conn raddr"; cases "bd_LocalIP b = []")
      (auto simp: dialBound_def setDeviceBinding_linux_def dial_with_def first_try_def tries_source_def Let_def split: option.split)
next
  case False
  then show ?thesis
    by (cases "opt (bd_Iface b) (bd_FIB b)"; cases "connect (plain_conn\<lparr>cn_device := Some (bd_Iface b)\<rparr>) raddr"; cases "bd_LocalIP b = []")
      (auto simp: dialBound_def setDeviceBinding_linux_def dial_with_def first_try_def tries_source_def Let_def split: option.split)
qed

text \<open>
  C37: What a dialled socket is pinned to on Linux, exactly.  It is on a device if and only if one is
  configured and the kernel takes the option and connects.  It is on a source address if and only
  if one is configured and parses, the kernel connects from it, and either nothing was tried before
  (no device, FIB below zero) or the first attempt failed with a lack of privilege or support.  It is
  pinned to nothing if and only if no device is configured, the plain dial works, and either no
  source address is configured or the FIB is zero or more -- the zero value of an absent key
  included -- in which case a configured source address is silently ignored.  A refused device
  without a source address to fall back on is reported as such, and never dialled unpinned.
\<close>

theorem dialBound_linux:
  "(dialBound (setDeviceBinding_linux opt) connect parseIP b raddr = Inr c \<and> cn_device c = Some d \<longleftrightarrow>
      d = bd_Iface b \<and> d \<noteq> [] \<and> opt d (bd_FIB b) = None \<and> connect (plain_conn\<lparr>cn_device := Some d\<rparr>) raddr = None
      \<and> c = plain_conn\<lparr>cn_device := Some d, cn_remote := Some raddr\<rparr>)
   \<and> (dialBound (setDeviceBinding_linux opt) connect parseIP b raddr = Inr c \<and> cn_source c = Some ip \<longleftrightarrow>
      tries_source opt connect b raddr \<and> parseIP (bd_LocalIP b) = Some ip \<and> connect (plain_conn\<lparr>cn_source := Some ip\<rparr>) raddr = None
      \<and> c = plain_conn\<lparr>cn_source := Some ip, cn_remote := Some raddr\<rparr>)
   \<and> (dialBound (setDeviceBinding_linux opt) connect parseIP b raddr = Inr c \<and> cn_device c = None \<and> cn_source c = None \<longleftrightarrow>
      bd_Iface b = [] \<and> (bd_LocalIP b = [] \<or> 0 \<le> bd_FIB b) \<and> connect plain_conn raddr = None \<and> c = plain_conn\<lparr>cn_remote := Some raddr\<rparr>)
   \<and> (dialBound (setDeviceBinding_linux opt) connect parseIP b raddr = Inl (NeedsFallback e) \<longleftrightarrow>
      bd_LocalIP b = [] \<and> (bd_Iface b \<noteq> [] \<or> 0 \<le> bd_FIB b) \<and> first_try opt connect b raddr = Some e \<and> fall_back e)
   \<and> (dialBound (setDeviceBinding_linux opt) connect parseIP b raddr = Inl (InvalidLocalIP l) \<longleftrightarrow>
      tries_source opt connect b raddr \<and> l = bd_LocalIP b \<and> parseIP l = None)"
proof (intro conjI)
  let ?d = "dialBound (setDeviceBinding_linux opt) connect parseIP b raddr"
  have p: "cn_device plain_conn = None" "cn_source plain_conn = None" by (simp_all add: plain_conn_def)
  have n: "plain_conn\<lparr>cn_device := None, cn_remote := Some raddr\<rparr> = plain_conn\<lparr>cn_remote := Some raddr\<rparr>" by (simp add: plain_conn_def)
  show "?d = Inr c \<and> cn_device c = Some d \<longleftrightarrow> d = bd_Iface b \<and> d \<noteq> [] \<and> opt d (bd_FIB b) = None \<and> connect (plain_conn\<lparr>cn_device := Some d\<rparr>) raddr = None
      \<and> c = plain_conn\<lparr>cn_device := Some d, cn_remote := Some raddr\<rparr>"
    unfolding dialBound_steps by (cases "bd_Iface b = []") (auto simp: p tries_source_def first_try_def split: if_splits option.splits)
  show "?d = Inr c \<and> cn_source c = Some ip \<longleftrightarrow> tries_source opt connect b raddr \<and> parseIP (bd_LocalIP b) = Some ip \<and>
      connect (plain_conn\<lparr>cn_source := Some ip\<rparr>) raddr = None \<and> c = plain_conn\<lparr>cn_source := Some ip, cn_remote := Some raddr\<rparr>"
    unfolding dialBound_steps by (auto simp: p split: if_splits option.splits)
  show "?d = Inr c \<and> cn_device c = None \<and> cn_source c = None \<longleftrightarrow>
      bd_Iface b = [] \<and> (bd_LocalIP b = [] \<or> 0 \<le> bd_FIB b) \<and> connect plain_conn raddr = None \<and> c = plain_conn\<lparr>cn_remote := Some raddr\<rparr>"
    unfolding dialBound_steps by (cases "bd_Iface b = []") (auto simp: p n tries_source_def first_try_def split: if_splits option.splits)
  show "?d = Inl (NeedsFallback e) \<longleftrightarrow> bd_LocalIP b = [] \<and> (bd_Iface b \<noteq> [] \<or> 0 \<le> bd_FIB b) \<and> first_try opt connect b raddr = Some e \<and> fall_back e"
    unfolding dialBound_steps tries_source_def by (auto split: if_splits option.splits)
  show "?d = Inl (InvalidLocalIP l) \<longleftrightarrow> tries_source opt connect b raddr \<and> l = bd_LocalIP b \<and> parseIP l = None"
    unfolding dialBound_steps by (auto split: if_splits option.splits)
qed

theorem dialBound_linux_witness:
  "dialBound (setDeviceBinding_linux (\<lambda>_ _. None)) (\<lambda>_ _. None) (\<lambda>_. Some [192, 0, 2, 10])
      \<lparr>bd_Iface = [], bd_LocalIP = ''192.0.2.10'', bd_FIB = 0\<rparr> \<lparr>ua_IP = [198, 51, 100, 1], ua_Port = 7000\<rparr>
    = Inr (plain_conn\<lparr>cn_remote := Some \<lparr>ua_IP = [198, 51, 100, 1], ua_Port = 7000\<rparr>\<rparr>)"
proof -
  let ?b = "\<lparr>bd_Iface = [], bd_LocalIP = ''192.0.2.10'', bd_FIB = 0\<rparr>" and ?r = "\<lparr>ua_IP = [198, 51, 100, 1], ua_Port = 7000\<rparr>"
  have "bd_Iface ?b = [] \<and> (bd_LocalIP ?b = [] \<or> 0 \<le> bd_FIB ?b) \<and> (\<lambda>_ _. None) plain_conn ?r = (None :: sock_error option)" by simp
  then show ?thesis
    using dialBound_linux [of "\<lambda>_ _. None" "\<lambda>_ _. None" "\<lambda>_. Some [192, 0, 2, 10]" ?b ?r "plain_conn\<lparr>cn_remote := Some ?r\<rparr>"] by blast
qed

end
