(* ===== verification/Tunnel_Params.thy ===== *)
theory Tunnel_Params
  imports Config Fec_Encoder Scheduler Icmp Udp
begin

text \<open>
  How the tunnel derives the parameters of its components from the configuration
  (\<open>internal/tunnel/tunnel.go\<close>): the transport of an uplink, the geometry of the redundancy, the
  weight of a path, the options of the health monitor and of the scheduler, and the test of
  \<open>reload.go\<close> for changes that need a restart. Doubles are those of \<open>Float64\<close>.

  Shown here: the geometry that comes out of a validated configuration is one the Reed-Solomon
  code accepts, and leaves room for the largest parity frame on a 1500-byte path.
\<close>

definition BalanceByFEC :: string where "BalanceByFEC = ''fec''"
definition BalanceByRoundRobin :: string where "BalanceByRoundRobin = ''roundrobin''"

definition maxWANs :: nat where "maxWANs = 16"
definition pathMTU :: int where "pathMTU = 1500"
definition defaultProbeInterval :: int where "defaultProbeInterval = Second"
definition Minute :: int where "Minute = 60 * Second"

datatype param_error = InvalidMaxLoss f64 | UnknownFECMode string | GeometryTooLarge int int | MTUTooLarge int int | UnsupportedTransport string string

datatype transport = TFakeTCP FakeTCP | TICMP ICMP | TUDP UDP

definition newTransport :: "WAN \<Rightarrow> string \<Rightarrow> param_error + transport" where
  "newTransport wcfg serverAddr =
     (let bind = \<lparr>bd_Iface = wn_Iface wcfg, bd_LocalIP = wn_LocalIP wcfg, bd_FIB = wn_FIB wcfg\<rparr>
      in if wn_Transport wcfg = TransportFakeTCP then Inr (TFakeTCP (NewFakeTCP (wn_ID wcfg) [] serverAddr bind))
         else if wn_Transport wcfg = TransportICMP then Inr (TICMP (NewICMP (wn_ID wcfg) [] serverAddr bind))
         else if wn_Transport wcfg = TransportUDP then Inr (TUDP (NewUDP (wn_ID wcfg) [] serverAddr bind))
         else Inl (UnsupportedTransport (wn_ID wcfg) (wn_Transport wcfg)))"

section \<open>Redundancy\<close>

text \<open>
  \<open>fecParamsFor\<close> reads of the configuration only the redundancy section and the MTU; \<open>None\<close> for
  the uplink is a nil pointer. First the three ways to size the parity.
\<close>

definition no_params :: Params where
  "no_params = \<lparr>DataShards = 0, ParityShards = 0, BlockTimeout = 0, Adaptive = None, CrossPath = False, CrossPathMinParity = 0\<rparr>"

definition data_shards_of :: "FECCfg \<Rightarrow> int" where
  "data_shards_of f = (if fc_DataShards f > 0 then fc_DataShards f else DefaultDataShards)"

definition crosspath_params :: "FECCfg \<Rightarrow> int \<Rightarrow> Params" where
  "crosspath_params f timeout =
     (let k = data_shards_of f;
          minParity = f64_trunc (fceil (fmul (f64_of_int k) (fc_ProtectionLevel f)));
          minParity = (if minParity < 1 then 1 else minParity)
      in no_params\<lparr>DataShards := k, ParityShards := minParity, BlockTimeout := timeout, CrossPath := True, CrossPathMinParity := minParity\<rparr>)"

definition wan_max_loss :: "FECCfg \<Rightarrow> WAN option \<Rightarrow> f64" where
  "wan_max_loss f wan =
     (case Option.bind wan wn_FECMaxLossPct of
        None \<Rightarrow> fdiv (fc_MaxLossPct f) (Fin 100)
      | Some pct \<Rightarrow> fdiv pct (Fin 100))"

definition mode_parity :: "FECCfg \<Rightarrow> WAN option \<Rightarrow> int \<Rightarrow> param_error + int \<times> AdaptiveParams option" where
  "mode_parity f wan k =
     (if fc_Mode f = FECFixed then
        Inr (f64_trunc (fceil (fdiv (fmul (f64_of_int k) (fc_FixedOverheadPct f)) (Fin 100))), None)
      else if fc_Mode f = FECAdaptive then
        (let l = wan_max_loss f wan
         in if fle l (Fin 0) \<or> fle (Fin 1) l then Inl (InvalidMaxLoss (fmul l (Fin 100)))
            else Inr (f64_trunc (fceil (fdiv (fmul (f64_of_int k) l) (fsub (Fin 1) l))),
                      Some \<lparr>OnLossPct = fc_AdaptMinLossPct f, OffLossPct = fc_AdaptResumePct f,
                            Hold = f64_trunc (fmul (fc_AdaptHoldSec f) (f64_of_int Second)),
                            MaxLossPct = fc_MaxLossPct f, Safety = f64_of (13/10)\<rparr>))
      else Inl (UnknownFECMode (fc_Mode f)))"

definition fecParamsFor :: "FECCfg \<Rightarrow> int \<Rightarrow> WAN option \<Rightarrow> param_error + Params" where
  "fecParamsFor f mtu wan =
     (let timeout = fc_BlockTimeoutMS f * Millisecond in
      if \<not> fc_Enabled f \<or> fc_Mode f = FECOff then Inr (no_params\<lparr>BlockTimeout := timeout\<rparr>)
      else if fc_Mode f = FECCrosspath then Inr (crosspath_params f timeout)
      else
        (let k = data_shards_of f in
         case mode_parity f wan k of
           Inl e \<Rightarrow> Inl e
         | Inr (parity, adaptive) \<Rightarrow>
             (let parity = (if parity < 1 then 1 else parity) in
              if k + parity > 256 then Inl (GeometryTooLarge k parity)
              else
                (let maxInner = pathMTU - int HeaderSize - int TagSize - int (ParityHeaderSize (nat k))
                 in if mtu > maxInner then Inl (MTUTooLarge mtu maxInner)
                    else Inr (no_params\<lparr>DataShards := k, ParityShards := parity, BlockTimeout := timeout, Adaptive := adaptive\<rparr>)))))"

definition fecCompensableLoss :: "Params \<Rightarrow> f64" where
  "fecCompensableLoss p =
     (if \<not> Enabled p then Fin 0 else fdiv (f64_of_int (ParityShards p)) (f64_of_int (DataShards p + ParityShards p)))"

definition monitorMaxLoss :: "Params \<Rightarrow> f64" where
  "monitorMaxLoss p = (let l = fecCompensableLoss p in if flt (Fin 0) l then l else f64_of (1/100))"

section \<open>Weights and options\<close>

definition effectiveCapacity :: "int \<Rightarrow> f64 \<Rightarrow> Params \<Rightarrow> string \<Rightarrow> f64" where
  "effectiveCapacity capacityMbps weight p balanceBy =
     (if balanceBy = BalanceByRoundRobin then Fin 1
      else
        (let cap = f64_of_int capacityMbps;
             cap = (if fle cap (Fin 0) then Fin 1 else cap);
             cap = (if balanceBy = BalanceByFEC \<and> Enabled p
                    then fmul cap (fsub (Fin 1) (fdiv (f64_of_int (ParityShards p)) (f64_of_int (DataShards p + ParityShards p))))
                    else cap)
         in if flt (Fin 0) weight then fmul cap weight else cap))"

definition seconds_of :: "f64 \<Rightarrow> int" where
  "seconds_of x = f64_trunc (fmul x (f64_of_int Second))"

definition healthOptions :: "HealthCfg \<Rightarrow> f64 \<Rightarrow> Options" where
  "healthOptions h ml =
     \<lparr>o_MaxLoss = ml,
      o_DegradeAfter = seconds_of (hc_DegradeSec h),
      o_RecoverAfter = f64_trunc (fmul (hc_RecoverMin h) (f64_of_int Minute)),
      o_DownAfterMisses = hc_DownAfterMisses h,
      o_DownGrace = seconds_of (hc_DownGraceSec h),
      o_LossAlphaFast = hc_LossAlphaFast h,
      o_LossAlphaSlow = hc_LossAlphaSlow h,
      o_JitterAlpha = hc_JitterAlpha h\<rparr>"

definition schedulerOptions :: "Config \<Rightarrow> SchedOptions" where
  "schedulerOptions cfg =
     \<lparr>so_Mode = sc_Mode (cf_Scheduler cfg), so_Affinity = sc_Affinity (cf_Scheduler cfg), so_BalanceBy = sc_BalanceBy (cf_Scheduler cfg)\<rparr>"

section \<open>Reloading\<close>

datatype reload_error = StructuralChange | TopologyChange | CapacityCapChange | ReloadParams param_error

definition same_link :: "WAN \<Rightarrow> WAN \<Rightarrow> bool" where
  "same_link a b \<longleftrightarrow>
     wn_ID a = wn_ID b \<and> wn_Transport a = wn_Transport b \<and> wn_Iface a = wn_Iface b \<and> wn_LocalIP a = wn_LocalIP b \<and> wn_FIB a = wn_FIB b"

definition clientReloadable :: "Config \<Rightarrow> Config \<Rightarrow> reload_error option" where
  "clientReloadable st nc =
     (if cf_Listen nc \<noteq> cf_Listen st \<or> cf_Server nc \<noteq> cf_Server st \<or> cf_WGPeer nc \<noteq> cf_WGPeer st \<or>
         cf_SessionID nc \<noteq> cf_SessionID st \<or> cf_MTU nc \<noteq> cf_MTU st \<or> cf_Transport nc \<noteq> cf_Transport st \<or>
         cc_Key (cf_Crypto nc) \<noteq> cc_Key (cf_Crypto st) \<or> cc_Cipher (cf_Crypto nc) \<noteq> cc_Cipher (cf_Crypto st) \<or>
         fc_Mode (cf_FEC nc) \<noteq> fc_Mode (cf_FEC st) \<or> sc_Mode (cf_Scheduler nc) \<noteq> sc_Mode (cf_Scheduler st) \<or>
         sc_Affinity (cf_Scheduler nc) \<noteq> sc_Affinity (cf_Scheduler st) \<or> sc_BalanceBy (cf_Scheduler nc) \<noteq> sc_BalanceBy (cf_Scheduler st) \<or>
         length (cf_WANs nc) \<noteq> length (cf_WANs st)
      then Some StructuralChange
      else if \<not> list_all2 same_link (cf_WANs st) (cf_WANs nc) then Some TopologyChange
      else None)"

section \<open>What the parameters promise\<close>

lemma fecParamsFor_off: "fecParamsFor f mtu wan = Inr p \<Longrightarrow> \<not> fc_Enabled f \<or> fc_Mode f = FECOff \<Longrightarrow> \<not> Enabled p"
  by (auto simp: fecParamsFor_def Let_def Enabled_def no_params_def)

lemma fecParamsFor_coded:
  assumes "fecParamsFor f mtu wan = Inr p" "fc_Enabled f" "fc_Mode f \<noteq> FECOff" "fc_Mode f \<noteq> FECCrosspath"
  shows "DataShards p = data_shards_of f" "1 \<le> ParityShards p" "DataShards p + ParityShards p \<le> 256" "\<not> CrossPath p"
    "mtu + int (HeaderSize + TagSize + ParityHeaderSize (nat (DataShards p))) \<le> pathMTU"
  using assms by (auto simp: fecParamsFor_def Let_def no_params_def split: sum.splits if_splits prod.splits)

end
