(* ===== verification/Replay.thy ===== *)
theory Replay
  imports FB_Prelude
begin

unbundle bit_operations_syntax

text \<open>
  The anti-replay filter \<open>ReplayWindow\<close> of \<open>internal/crypto/crypto.go\<close>: a bitmap of 64-bit
  words over the sequence numbers \<open>base .. base + window - 1\<close>. The state is the record
  \<open>ReplayWindow\<close>, the operations are \<open>NewReplayWindow\<close>, \<open>CheckAndMark\<close> and the in-place
  \<open>shiftRight\<close>.

  Shown here: the in-place shift moves every bit of the bitmap down at once; after any
  sequence of calls the window holds exactly the recent numbers of the history, so a
  number is accepted exactly when it is new and not older than the window behind the
  largest number presented. The locale \<open>anti_replay\<close> states what the sessions rely on.
\<close>

section \<open>The contract of an anti-replay filter\<close>

text \<open>The numbers a filter accepts in a run, in order.\<close>

fun accepted_seqs :: "('s \<Rightarrow> u32 \<Rightarrow> 's \<times> bool) \<Rightarrow> 's \<Rightarrow> u32 list \<Rightarrow> u32 list" where
  "accepted_seqs chk s [] = []"
| "accepted_seqs chk s (x # xs) =
     (let (s', ok) = chk s x in (if ok then [x] else []) @ accepted_seqs chk s' xs)"

text \<open>
  A number that was presented is rejected from then on, and what is rejected once stays
  rejected. A client of these laws never processes a frame twice.
\<close>

locale anti_replay =
  fixes chk :: "'s \<Rightarrow> u32 \<Rightarrow> 's \<times> bool" and inv :: "'s \<Rightarrow> bool"
  assumes inv_chk: "inv s \<Longrightarrow> inv (fst (chk s x))"
    and chk_again: "inv s \<Longrightarrow> \<not> snd (chk (fst (chk s x)) x)"
    and chk_stays: "inv s \<Longrightarrow> \<not> snd (chk s y) \<Longrightarrow> \<not> snd (chk (fst (chk s x)) y)"
begin

lemma rejected_not_accepted:
  "inv s \<Longrightarrow> \<not> snd (chk s y) \<Longrightarrow> y \<notin> set (accepted_seqs chk s xs)"
proof (induction xs arbitrary: s)
  case (Cons x xs)
  have "y \<notin> set (accepted_seqs chk (fst (chk s x)) xs)"
    using Cons.IH inv_chk chk_stays Cons.prems by blast
  with Cons.prems show ?case by (auto simp: Let_def case_prod_unfold)
qed simp

lemma accepted_once: "inv s \<Longrightarrow> distinct (accepted_seqs chk s xs)"
proof (induction xs arbitrary: s)
  case (Cons x xs)
  have "x \<notin> set (accepted_seqs chk (fst (chk s x)) xs)"
    using rejected_not_accepted inv_chk chk_again Cons.prems by blast
  moreover have "distinct (accepted_seqs chk (fst (chk s x)) xs)"
    using Cons.IH inv_chk Cons.prems by blast
  ultimately show ?case by (auto simp: Let_def case_prod_unfold)
qed simp

end

section \<open>The window\<close>

definition DefaultReplayWindow :: u32 where "DefaultReplayWindow = 4096"

record ReplayWindow =
  rw_window :: u32
  rw_base :: u32
  rw_bits :: "u64 list"

definition NewReplayWindow :: "u32 \<Rightarrow> ReplayWindow" where
  "NewReplayWindow sz =
     (let sz = (if sz = 0 then DefaultReplayWindow else sz)
      in \<lparr>rw_window = sz, rw_base = 0, rw_bits = replicate ((unat sz + 63) div 64) 0\<rparr>)"

text \<open>The loop of \<open>shiftRight\<close> writes word \<open>i\<close> in place and reads the words from \<open>i + wordShift\<close> on.\<close>

definition shifted_word :: "u64 list \<Rightarrow> nat \<Rightarrow> nat \<Rightarrow> nat \<Rightarrow> u64" where
  "shifted_word bits wordShift bitShift i =
     (let src = i + wordShift in
      if src < length bits then
        (let v = drop_bit bitShift (bits ! src) in
         if bitShift \<noteq> 0 \<and> src + 1 < length bits
         then v OR push_bit (64 - bitShift) (bits ! (src + 1)) else v)
      else 0)"

function shift_loop :: "nat \<Rightarrow> nat \<Rightarrow> nat \<Rightarrow> u64 list \<Rightarrow> u64 list" where
  "shift_loop wordShift bitShift i bits =
     (if i < length bits
      then shift_loop wordShift bitShift (i + 1) (bits[i := shifted_word bits wordShift bitShift i])
      else bits)"
  by pat_completeness auto
termination by (relation "measure (\<lambda>(_, _, i, bits). length bits - i)") auto

declare shift_loop.simps [simp del]

definition shiftRight :: "ReplayWindow \<Rightarrow> u64 \<Rightarrow> ReplayWindow" where
  "shiftRight w n =
     (let words = length (rw_bits w);
          wordShift = unat (n div 64);
          bitShift = unat (n mod 64)
      in if words \<le> wordShift then w\<lparr>rw_bits := replicate words 0\<rparr>
         else w\<lparr>rw_bits := shift_loop wordShift bitShift 0 (rw_bits w)\<rparr>)"

text \<open>
  \<open>CheckAndMark\<close>: too old, ahead of the window (slide), or inside; then test and set the
  bit. \<open>diff\<close> is an \<open>int64\<close> that holds the difference of two \<open>uint32\<close> exactly.
\<close>

definition mark_bit :: "ReplayWindow \<Rightarrow> int \<Rightarrow> ReplayWindow \<times> bool" where
  "mark_bit w diff =
     (let bit_no = nat diff;
          mask = push_bit (bit_no mod 64) (1 :: u64)
      in if rw_bits w ! (bit_no div 64) AND mask \<noteq> 0 then (w, False)
         else (w\<lparr>rw_bits := (rw_bits w)[bit_no div 64 := rw_bits w ! (bit_no div 64) OR mask]\<rparr>, True))"

definition CheckAndMark :: "ReplayWindow \<Rightarrow> u32 \<Rightarrow> ReplayWindow \<times> bool" where
  "CheckAndMark w s =
     (let diff = uint s - uint (rw_base w) in
      if diff < 0 then (w, False)
      else if uint (rw_window w) \<le> diff then
        (let w = shiftRight w (of_int (diff - uint (rw_window w) + 1));
             w = w\<lparr>rw_base := s - rw_window w + 1\<rparr>
         in mark_bit w (uint (rw_window w) - 1))
      else mark_bit w diff)"

section \<open>The bitmap\<close>

text \<open>Bit \<open>i\<close> of the bitmap; the bits past its end count as clear.\<close>

definition bm :: "u64 list \<Rightarrow> nat \<Rightarrow> bool" where
  "bm bits i \<longleftrightarrow> i < 64 * length bits \<and> bit (bits ! (i div 64)) (i mod 64)"

lemma bm_replicate [simp]: "\<not> bm (replicate n 0) i"
  by (simp add: bm_def less_mult_imp_div_less mult.commute)

lemma length_shift_loop [simp]: "length (shift_loop ws bs i bits) = length bits"
  by (induction ws bs i bits rule: shift_loop.induct) (subst shift_loop.simps, simp)

text \<open>The loop reads only words that it has not written, so it is a simultaneous update.\<close>

lemma shifted_word_cong:
  assumes "length bits' = length bits" "\<And>j. i \<le> j \<Longrightarrow> j < length bits \<Longrightarrow> bits' ! j = bits ! j"
  shows "shifted_word bits' ws bs i = shifted_word bits ws bs i"
  using assms by (simp add: shifted_word_def Let_def)

lemma shift_loop_nth:
  "j < length bits \<Longrightarrow>
     shift_loop ws bs i bits ! j = (if i \<le> j then shifted_word bits ws bs j else bits ! j)"
proof (induction ws bs i bits rule: shift_loop.induct)
  case (1 ws bs i bits)
  show ?case
  proof (cases "i < length bits")
    case True
    let ?b = "bits[i := shifted_word bits ws bs i]"
    have cong: "shifted_word ?b ws bs j = shifted_word bits ws bs j" if "i < j"
      using that by (intro shifted_word_cong) auto
    have "shift_loop ws bs i bits ! j = shift_loop ws bs (i + 1) ?b ! j"
      using True by (simp add: shift_loop.simps [of ws bs i bits])
    also have "\<dots> = (if i + 1 \<le> j then shifted_word ?b ws bs j else ?b ! j)"
      using 1 True by simp
    also have "\<dots> = (if i \<le> j then shifted_word bits ws bs j else bits ! j)"
      using 1(2) cong by (cases "i = j") (auto simp: nth_list_update)
    finally show ?thesis .
  next
    case False
    then show ?thesis using 1(2) by (simp add: shift_loop.simps [of ws bs i bits])
  qed
qed

lemma idx_less: "i < 64 * n \<longleftrightarrow> i div 64 < (n :: nat)"
  by (simp add: div_less_iff_less_mult mult.commute)

lemma idx_eq: "i = j \<longleftrightarrow> i div 64 = j div 64 \<and> i mod 64 = j mod (64 :: nat)"
  by (metis mult_div_mod_eq)

lemma bit_shifted_word:
  assumes "bs < 64" "k < 64"
  shows "bit (shifted_word bits ws bs i) k \<longleftrightarrow> bm bits (64 * i + k + (64 * ws + bs))"
proof -
  have pos: "64 * i + k + (64 * ws + bs) = k + bs + 64 * (i + ws)" by simp
  have dm: "(k + bs + 64 * (i + ws)) div 64 = (k + bs) div 64 + (i + ws)"
    using div_mult_self2 [of 64 "k + bs" "i + ws"] by simp
  show ?thesis
  proof (cases "k + bs < 64")
    case True
    with assms show ?thesis
      unfolding bm_def pos idx_less dm mod_mult_self2
      by (auto simp: shifted_word_def Let_def bit_simps ac_simps)
  next
    case False
    then have "(k + bs) div 64 = 1" "(k + bs) mod 64 = k + bs - 64"
      using assms by (simp_all add: div_if mod_if)
    then show ?thesis
      using False assms unfolding bm_def pos idx_less dm mod_mult_self2
      by (auto simp: shifted_word_def Let_def bit_simps ac_simps dest: bit_imp_le_length)
  qed
qed

lemma bm_shiftRight: "bm (rw_bits (shiftRight w n)) i \<longleftrightarrow> bm (rw_bits w) (i + unat n)"
proof -
  let ?ws = "unat (n div 64)" and ?bs = "unat (n mod 64)"
  have n: "unat n = 64 * ?ws + ?bs" and bs: "?bs < 64"
    by (simp_all add: unat_div unat_mod)
  show ?thesis
  proof (cases "length (rw_bits w) \<le> ?ws \<or> 64 * length (rw_bits w) \<le> i")
    case True
    then show ?thesis by (auto simp: shiftRight_def Let_def bm_def n)
  next
    case False
    then have "i div 64 < length (rw_bits w)" by (simp add: idx_less [symmetric])
    with False bs have "bm (rw_bits (shiftRight w n)) i
        \<longleftrightarrow> bm (rw_bits w) (64 * (i div 64) + i mod 64 + (64 * ?ws + ?bs))"
      by (simp add: shiftRight_def Let_def bm_def [of "shift_loop _ _ _ _"] shift_loop_nth bit_shifted_word
               del: mult_div_mod_eq)
    then show ?thesis by (simp add: n)
  qed
qed

lemma shiftRight_frame [simp]:
  "rw_window (shiftRight w n) = rw_window w" "rw_base (shiftRight w n) = rw_base w"
  "length (rw_bits (shiftRight w n)) = length (rw_bits w)"
  by (simp_all add: shiftRight_def Let_def)

lemma bm_set:
  assumes "i < 64 * length bits"
  shows "bm (bits[i div 64 := v]) j \<longleftrightarrow> (if j div 64 = i div 64 then bit v (j mod 64) else bm bits j)"
  using assms unfolding bm_def length_list_update idx_less by (auto simp: idx_less)

lemma mark_bit_spec:
  assumes "nat d < 64 * length (rw_bits w)"
  shows "snd (mark_bit w d) \<longleftrightarrow> \<not> bm (rw_bits w) (nat d)"
    and "bm (rw_bits (fst (mark_bit w d))) j \<longleftrightarrow> bm (rw_bits w) j \<or> j = nat d"
    and "rw_window (fst (mark_bit w d)) = rw_window w"
    and "rw_base (fst (mark_bit w d)) = rw_base w"
    and "length (rw_bits (fst (mark_bit w d))) = length (rw_bits w)"
proof -
  have bit_d: "bit (rw_bits w ! (nat d div 64)) (nat d mod 64) \<longleftrightarrow> bm (rw_bits w) (nat d)"
    using assms by (simp add: bm_def)
  show "snd (mark_bit w d) \<longleftrightarrow> \<not> bm (rw_bits w) (nat d)"
    by (simp add: mark_bit_def Let_def and_exp_eq_0_iff_not_bit bit_d)
  have or_d: "bit (rw_bits w ! (nat d div 64) OR push_bit (nat d mod 64) 1) (j mod 64)
      \<longleftrightarrow> bm (rw_bits w) j \<or> j mod 64 = nat d mod 64" if "j div 64 = nat d div 64"
    using assms that unfolding bm_def idx_less by (auto simp: bit_simps)
  show "bm (rw_bits (fst (mark_bit w d))) j \<longleftrightarrow> bm (rw_bits w) j \<or> j = nat d"
  proof (cases "bm (rw_bits w) (nat d)")
    case True
    then show ?thesis by (auto simp: mark_bit_def Let_def and_exp_eq_0_iff_not_bit bit_d)
  next
    case False
    then have "rw_bits (fst (mark_bit w d)) =
        (rw_bits w)[nat d div 64 := rw_bits w ! (nat d div 64) OR push_bit (nat d mod 64) 1]"
      by (simp add: mark_bit_def Let_def and_exp_eq_0_iff_not_bit bit_d)
    then show ?thesis
      using or_d by (cases "j div 64 = nat d div 64") (simp_all only: bm_set [OF assms] idx_eq [of j] if_True if_False simp_thms)
  qed
qed (simp_all add: mark_bit_def Let_def)

section \<open>The window and its history\<close>

text \<open>
  What the window knows of the numbers \<open>xs\<close> it has been shown: its base trails the largest
  by the window size (or is still 0), and its bits are the numbers from the base on.
\<close>

definition replay_hist :: "ReplayWindow \<Rightarrow> u32 list \<Rightarrow> bool" where
  "replay_hist w xs \<longleftrightarrow>
     rw_window w \<noteq> 0 \<and> length (rw_bits w) = (unat (rw_window w) + 63) div 64 \<and>
     (\<forall>x\<in>set xs. unat x < unat (rw_base w) + unat (rw_window w)) \<and>
     (rw_base w = 0 \<or> (\<exists>x\<in>set xs. unat x + 1 = unat (rw_base w) + unat (rw_window w))) \<and>
     (\<forall>i. bm (rw_bits w) i \<longleftrightarrow> (\<exists>x\<in>set xs. unat x = unat (rw_base w) + i))"

definition replay_fresh :: "u32 \<Rightarrow> u32 list \<Rightarrow> u32 \<Rightarrow> bool" where
  "replay_fresh win xs s \<longleftrightarrow> s \<notin> set xs \<and> (\<forall>x\<in>set xs. unat x < unat s + unat win)"

lemma replay_hist_New: "replay_hist (NewReplayWindow n) []"
  by (simp add: replay_hist_def NewReplayWindow_def Let_def DefaultReplayWindow_def)

lemma hist_old:
  assumes "replay_hist w xs" "unat s < unat (rw_base w)"
  shows "replay_hist w (s # xs)" "\<not> replay_fresh (rw_window w) xs s"
proof -
  have "rw_base w \<noteq> 0" using assms(2) by auto
  with assms(1) obtain x where "x \<in> set xs" "unat x + 1 = unat (rw_base w) + unat (rw_window w)"
    by (auto simp: replay_hist_def)
  then show "\<not> replay_fresh (rw_window w) xs s"
    using assms(2) by (auto simp: replay_fresh_def intro!: bexI [of _ x])
  show "replay_hist w (s # xs)" using assms by (auto simp: replay_hist_def)
qed

lemma hist_inside:
  assumes h: "replay_hist w xs" and s: "unat (rw_base w) \<le> unat s" "unat s < unat (rw_base w) + unat (rw_window w)"
    and d: "nat d = unat s - unat (rw_base w)"
  shows "replay_hist (fst (mark_bit w d)) (s # xs)" "snd (mark_bit w d) \<longleftrightarrow> replay_fresh (rw_window w) xs s"
proof -
  have len: "nat d < 64 * length (rw_bits w)" using assms by (auto simp: replay_hist_def)
  have pos: "unat (rw_base w) + nat d = unat s" using s d by simp
  have "bm (rw_bits w) (nat d) \<longleftrightarrow> s \<in> set xs"
    using h by (auto simp: replay_hist_def pos word_unat_eq_iff [symmetric])
  moreover have "\<forall>x\<in>set xs. unat x < unat s + unat (rw_window w)"
    using h s by (fastforce simp: replay_hist_def)
  ultimately show "snd (mark_bit w d) \<longleftrightarrow> replay_fresh (rw_window w) xs s"
    by (simp add: mark_bit_spec [OF len] replay_fresh_def)
  have "(\<exists>x\<in>set (s # xs). unat x = unat (rw_base w) + i) \<longleftrightarrow> bm (rw_bits w) i \<or> i = nat d" for i
    using h by (auto simp: replay_hist_def pos [symmetric])
  then show "replay_hist (fst (mark_bit w d)) (s # xs)"
    using h s by (auto simp: replay_hist_def mark_bit_spec [OF len])
qed

text \<open>Sliding alone changes the base and keeps the numbers that are still in range.\<close>

definition slide :: "ReplayWindow \<Rightarrow> u32 \<Rightarrow> ReplayWindow" where
  "slide w s = (shiftRight w (of_int (uint s - uint (rw_base w) - uint (rw_window w) + 1)))
                 \<lparr>rw_base := s - rw_window w + 1\<rparr>"

lemma unat_slide_base:
  assumes "unat (rw_base w) + unat (rw_window w) \<le> unat (s :: u32)" "rw_window w \<noteq> 0"
  shows "unat (rw_base (slide w s)) = unat s - unat (rw_window w) + 1"
proof -
  have "unat (s - rw_window w) = unat s - unat (rw_window w)"
    using assms(1) by (simp add: unat_sub word_le_nat_alt)
  moreover have "unat s < 2 ^ 32" using unsigned_less [of s] by simp
  moreover have "0 < unat (rw_window w)" using assms(2) by (simp add: unat_gt_0)
  ultimately show ?thesis
    using assms(1) by (simp add: slide_def unat_word_ariths)
qed

lemma bm_slide:
  assumes "unat (rw_base w) + unat (rw_window w) \<le> unat (s :: u32)" "rw_window w \<noteq> 0"
  shows "bm (rw_bits (slide w s)) i \<longleftrightarrow> bm (rw_bits w) (i + (unat s - unat (rw_window w) + 1 - unat (rw_base w)))"
proof -
  let ?d = "uint s - uint (rw_base w) - uint (rw_window w) + 1"
  have d: "?d = int (unat s - unat (rw_window w) + 1 - unat (rw_base w))"
    using assms(1) by (simp add: of_nat_diff)
  have "unat s < 2 ^ 32" using unsigned_less [of s] by simp
  then have "unat (of_int ?d :: u64) = unat s - unat (rw_window w) + 1 - unat (rw_base w)"
    unfolding d of_int_of_nat_eq unat_of_nat by simp
  moreover have "rw_bits (slide w s) = rw_bits (shiftRight w (of_int ?d))" by (simp add: slide_def)
  ultimately show ?thesis by (simp only: bm_shiftRight)
qed

lemma hist_ahead:
  assumes h: "replay_hist w xs" and s: "unat (rw_base w) + unat (rw_window w) \<le> unat (s :: u32)"
  defines "w' \<equiv> mark_bit (slide w s) (uint (rw_window w) - 1)"
  shows "replay_hist (fst w') (s # xs)" "snd w'" "replay_fresh (rw_window w) xs s"
proof -
  have win: "rw_window w \<noteq> 0" "0 < unat (rw_window w)" using h by (simp_all add: replay_hist_def unat_gt_0)
  have words: "length (rw_bits w) = (unat (rw_window w) + 63) div 64"
    and inside: "\<And>x. x \<in> set xs \<Longrightarrow> unat x < unat (rw_base w) + unat (rw_window w)"
    using h by (simp_all add: replay_hist_def)
  have base: "unat (rw_base (slide w s)) = unat s - unat (rw_window w) + 1"
    by (rule unat_slide_base [OF s win(1)])
  have d: "nat (uint (rw_window w) - 1) = unat (rw_window w) - 1"
    unfolding uint_nat by arith
  have frame: "rw_window (slide w s) = rw_window w" "length (rw_bits (slide w s)) = length (rw_bits w)"
    by (simp_all add: slide_def)
  have len: "nat (uint (rw_window w) - 1) < 64 * length (rw_bits (slide w s))"
    using win(2) unfolding frame d words by arith
  have below: "unat x < unat s" if "x \<in> set xs" for x
    using inside [OF that] s by linarith
  have bits: "bm (rw_bits (slide w s)) i \<longleftrightarrow> (\<exists>x\<in>set xs. unat x = unat (rw_base (slide w s)) + i)" for i
  proof -
    have shift: "unat (rw_base w) + (i + (unat s - unat (rw_window w) + 1 - unat (rw_base w)))
        = unat (rw_base (slide w s)) + i"
      using s base by simp
    have "bm (rw_bits w) j \<longleftrightarrow> (\<exists>x\<in>set xs. unat x = unat (rw_base w) + j)" for j
      using h by (simp only: replay_hist_def)
    then show ?thesis by (simp only: bm_slide [OF s win(1)] shift)
  qed
  have last: "unat (rw_base (slide w s)) + (unat (rw_window w) - 1) = unat s"
    using s win base by simp
  have "\<not> bm (rw_bits (slide w s)) (unat (rw_window w) - 1)"
    unfolding bits last using below less_irrefl by metis
  then show "snd w'" by (simp add: w'_def mark_bit_spec [OF len] d)
  show "replay_fresh (rw_window w) xs s"
    unfolding replay_fresh_def using below trans_less_add1 by blast
  have upper: "unat x < unat (rw_base (slide w s)) + unat (rw_window w)" if "x \<in> set (s # xs)" for x
    using that below [of x] last win(2) by (cases "x = s") simp_all
  have bits': "(\<exists>x\<in>set (s # xs). unat x = unat (rw_base (slide w s)) + i)
      \<longleftrightarrow> bm (rw_bits (slide w s)) i \<or> i = unat (rw_window w) - 1" for i
  proof -
    have "unat s = unat (rw_base (slide w s)) + i \<longleftrightarrow> i = unat (rw_window w) - 1"
      using last by linarith
    then show ?thesis unfolding bits by simp blast
  qed
  have "\<exists>x\<in>set (s # xs). unat x + 1 = unat (rw_base (slide w s)) + unat (rw_window w)"
    using last win(2) by (intro bexI [of _ s]) simp_all
  with words show "replay_hist (fst w') (s # xs)"
    unfolding replay_hist_def w'_def mark_bit_spec [OF len] frame bits' d
    using win(1) upper by blast
qed

text \<open>Every call extends the history, and its answer is whether the number is fresh in it.\<close>

lemma CheckAndMark_hist:
  assumes h: "replay_hist w xs"
  shows "replay_hist (fst (CheckAndMark w s)) (s # xs)"
    and "snd (CheckAndMark w s) \<longleftrightarrow> replay_fresh (rw_window w) xs s"
proof -
  have nat_diff: "nat (uint s - uint (rw_base w)) = unat s - unat (rw_base w)"
    unfolding uint_nat by arith
  have neg: "uint s - uint (rw_base w) < 0 \<longleftrightarrow> unat s < unat (rw_base w)"
    and far: "uint (rw_window w) \<le> uint s - uint (rw_base w) \<longleftrightarrow> unat (rw_base w) + unat (rw_window w) \<le> unat s"
    unfolding uint_nat by arith+
  consider (old) "unat s < unat (rw_base w)"
    | (ahead) "unat (rw_base w) + unat (rw_window w) \<le> unat s"
    | (inside) "unat (rw_base w) \<le> unat s" "unat s < unat (rw_base w) + unat (rw_window w)"
    by linarith
  then have "replay_hist (fst (CheckAndMark w s)) (s # xs)
      \<and> (snd (CheckAndMark w s) \<longleftrightarrow> replay_fresh (rw_window w) xs s)"
  proof cases
    case old
    then have "CheckAndMark w s = (w, False)" by (simp only: CheckAndMark_def Let_def neg if_True)
    with hist_old [OF h old] show ?thesis by simp
  next
    case ahead
    then have "CheckAndMark w s = mark_bit (slide w s) (uint (rw_window w) - 1)"
      by (simp add: CheckAndMark_def Let_def neg far slide_def del: diff_less_0_iff_less)
    with hist_ahead [OF h ahead] show ?thesis by simp
  next
    case inside
    then have "CheckAndMark w s = mark_bit w (uint s - uint (rw_base w))"
      by (simp add: CheckAndMark_def Let_def neg far del: diff_less_0_iff_less)
    with hist_inside [OF h inside nat_diff] show ?thesis by simp
  qed
  then show "replay_hist (fst (CheckAndMark w s)) (s # xs)"
    and "snd (CheckAndMark w s) \<longleftrightarrow> replay_fresh (rw_window w) xs s" by blast+
qed

lemma CheckAndMark_window [simp]: "rw_window (fst (CheckAndMark w s)) = rw_window w"
  by (simp add: CheckAndMark_def Let_def mark_bit_def)

text \<open>A run is determined by its history: the numbers shown so far, latest first.\<close>

definition replay_run :: "ReplayWindow \<Rightarrow> u32 list \<Rightarrow> ReplayWindow" where
  "replay_run w xs = fold (\<lambda>x w. fst (CheckAndMark w x)) xs w"

lemma replay_run_hist:
  "replay_hist w ys \<Longrightarrow> replay_hist (replay_run w xs) (rev xs @ ys) \<and> rw_window (replay_run w xs) = rw_window w"
proof (induction xs arbitrary: w ys)
  case (Cons x xs)
  from Cons.IH [OF CheckAndMark_hist(1) [OF Cons.prems, of x]] show ?case by (simp add: replay_run_def)
qed (simp add: replay_run_def)

definition replay_inv :: "ReplayWindow \<Rightarrow> bool" where
  "replay_inv w \<longleftrightarrow> (\<exists>xs. replay_hist w xs)"

lemma replay_inv_New [simp]: "replay_inv (NewReplayWindow n)"
  using replay_hist_New replay_inv_def by blast

interpretation rw: anti_replay CheckAndMark replay_inv
proof
  fix s x y
  assume "replay_inv s"
  then obtain xs where h: "replay_hist s xs" by (auto simp: replay_inv_def)
  note h' = CheckAndMark_hist(1) [OF h]
  show "replay_inv (fst (CheckAndMark s x))" using h' replay_inv_def by blast
  show "\<not> snd (CheckAndMark (fst (CheckAndMark s x)) x)"
    by (simp add: CheckAndMark_hist(2) [OF h'] replay_fresh_def)
  assume "\<not> snd (CheckAndMark s y)"
  then show "\<not> snd (CheckAndMark (fst (CheckAndMark s x)) y)"
    by (auto simp: CheckAndMark_hist(2) [OF h'] CheckAndMark_hist(2) [OF h] replay_fresh_def)
qed



section \<open>Properties\<close>

text \<open>C7: Exact behaviour of the filter. After any sequence of calls on a fresh window, a number is
  accepted exactly when it was never presented and every number presented is less than the
  window size ahead of it; the base index of the bitmap never leaves it.\<close>

theorem CheckAndMark_exact:
  "(snd (CheckAndMark (replay_run (NewReplayWindow n) xs) s) \<longleftrightarrow>
      s \<notin> set xs \<and> (\<forall>x\<in>set xs. unat x < unat s + unat (if n = 0 then DefaultReplayWindow else n)))
   \<and> length (rw_bits (replay_run (NewReplayWindow n) xs)) * 64
       \<ge> unat (rw_window (replay_run (NewReplayWindow n) xs))"
proof -
  let ?w = "replay_run (NewReplayWindow n) xs"
  have "replay_hist ?w (rev xs)" "rw_window ?w = (if n = 0 then DefaultReplayWindow else n)"
    using replay_run_hist [OF replay_hist_New [of n], of xs] by (simp_all add: NewReplayWindow_def Let_def)
  then show ?thesis
    by (auto simp: CheckAndMark_hist(2) replay_fresh_def) (auto simp: replay_hist_def)
qed

theorem CheckAndMark_exact_witness:
  "\<not> snd (CheckAndMark (replay_run (NewReplayWindow 64) [7, 200, 150]) 136)
   \<and> snd (CheckAndMark (replay_run (NewReplayWindow 64) [7, 200, 150]) 137)"
  using CheckAndMark_exact [of 64 "[7, 200, 150]" 136] CheckAndMark_exact [of 64 "[7, 200, 150]" 137]
  by simp

text \<open>\<open>shiftRight\<close>, which overwrites the bitmap word by word, moves every bit down by the
  given amount as if all words were written at once; the bits shifted below 0 are lost and
  zeroes enter at the top.\<close>

theorem shiftRight_bits:
  "bm (rw_bits (shiftRight w n)) i = bm (rw_bits w) (i + unat n)
   \<and> length (rw_bits (shiftRight w n)) = length (rw_bits w)"
  by (simp add: bm_shiftRight)

text \<open>No number is accepted twice: the numbers accepted in a run are pairwise distinct,
  whatever is presented and in whatever order.\<close>

theorem replay_accepts_once:
  "distinct (accepted_seqs CheckAndMark (NewReplayWindow n) xs)"
  by (rule rw.accepted_once) simp

end
