(* ===== verification/Crypto.thy ===== *)
theory Crypto
  imports Frame
begin

unbundle bit_operations_syntax

text \<open>
  Channel security of \<open>internal/crypto\<close>: key derivation (\<open>crypto.go\<close>, \<open>pfs.go\<close>), the
  nonce, and the sealing and opening of frames. The primitives are arguments: HMAC-SHA256
  as a function from key and message to a digest, an AEAD cipher as a record of its two
  operations and its overhead, X25519 as three functions. What is relied on of them is
  stated as hypotheses (\<open>hmac_ok\<close>, \<open>aead_ok\<close>, \<open>x25519_ok\<close>), each of which holds for
  the documented primitive.

  Shown here: HKDF-Expand terminates and computes RFC 5869, nonces are injective in
  direction and sequence number, sealing and opening are inverse to each other, and both
  ends of the X25519 exchange derive the same key.
\<close>

section \<open>Primitives\<close>

type_synonym hmac = "bytes \<Rightarrow> bytes \<Rightarrow> bytes"

definition hmac_ok :: "hmac \<Rightarrow> bool" where
  "hmac_ok hmac \<longleftrightarrow> (\<forall>key msg. length (hmac key msg) = 32)"

record aead =
  aead_Seal :: "bytes \<Rightarrow> bytes \<Rightarrow> bytes \<Rightarrow> bytes"
  aead_Open :: "bytes \<Rightarrow> bytes \<Rightarrow> bytes \<Rightarrow> bytes option"
  aead_Overhead :: nat

text \<open>
  A cipher opens exactly what it sealed under the same nonce and associated data, and the
  sealed text is longer than the plaintext by the overhead.
\<close>

definition aead_ok :: "aead \<Rightarrow> bool" where
  "aead_ok a \<longleftrightarrow>
     (\<forall>n p ad. length (aead_Seal a n p ad) = length p + aead_Overhead a) \<and>
     (\<forall>n p ad c. aead_Open a n c ad = Some p \<longleftrightarrow> c = aead_Seal a n p ad)"

datatype crypto_error =
    EmptyPSK
  | BadKeyLength nat
  | UnknownCipher string
  | CipherInit
  | TooShortToSeal
  | SealedTooShort
  | AuthFailed
  | BadPrivateKey
  | BadPeerKey
  | ECDHFailed
  | NoEntropy

datatype NonceDirection = DirClientToServer | DirServerToClient

fun dir_byte :: "NonceDirection \<Rightarrow> u8" where
  "dir_byte DirClientToServer = 0"
| "dir_byte DirServerToClient = 1"

definition nonceSize :: nat where "nonceSize = 12"
definition keySize :: nat where "keySize = 32"

section \<open>Key derivation\<close>

text \<open>A Go string literal as the bytes it holds.\<close>

definition str_bytes :: "string \<Rightarrow> bytes" where
  "str_bytes s = map (of_nat \<circ> of_char) s"

definition hmacSHA256 :: "hmac \<Rightarrow> bytes \<Rightarrow> bytes \<Rightarrow> bytes" where
  "hmacSHA256 hmac key msg = hmac key msg"

text \<open>
  The loop of \<open>hkdfExpand\<close>: it appends digests until \<open>n\<close> bytes are collected. The counter
  is a byte and wraps; the loop has no bound of its own, so not returning is \<open>None\<close>.
\<close>

partial_function (option) hkdf_loop ::
  "hmac \<Rightarrow> bytes \<Rightarrow> bytes \<Rightarrow> nat \<Rightarrow> u8 \<Rightarrow> bytes \<Rightarrow> bytes \<Rightarrow> bytes option" where
  "hkdf_loop hmac prk info n counter t out =
     (if length out < n
      then (let t = hmac prk (t @ info @ [counter])
            in hkdf_loop hmac prk info n (counter + 1) t (out @ t))
      else Some out)"

definition hkdfExpand :: "hmac \<Rightarrow> bytes \<Rightarrow> bytes \<Rightarrow> nat \<Rightarrow> bytes option" where
  "hkdfExpand hmac prk info n = map_option (take n) (hkdf_loop hmac prk info n 1 [] [])"

definition derive :: "hmac \<Rightarrow> bytes \<Rightarrow> bytes \<Rightarrow> bytes \<Rightarrow> bytes option" where
  "derive hmac psk salt info =
     (let prk = hmacSHA256 hmac salt psk in hkdfExpand hmac prk info keySize)"

definition DeriveKey :: "hmac \<Rightarrow> bytes \<Rightarrow> crypto_error + bytes option" where
  "DeriveKey hmac psk =
     (if length psk = 0 then Inl EmptyPSK
      else Inr (derive hmac psk (str_bytes ''flexbraid-v1'') (str_bytes ''channel-key'')))"

text \<open>RFC 5869, section 2.3: the blocks T(1), T(2), ... and their concatenation.\<close>

fun hkdf_T :: "hmac \<Rightarrow> bytes \<Rightarrow> bytes \<Rightarrow> nat \<Rightarrow> bytes" where
  "hkdf_T hmac prk info 0 = []"
| "hkdf_T hmac prk info (Suc i) = hmac prk (hkdf_T hmac prk info i @ info @ [of_nat (Suc i)])"

definition hkdf_okm :: "hmac \<Rightarrow> bytes \<Rightarrow> bytes \<Rightarrow> nat \<Rightarrow> bytes" where
  "hkdf_okm hmac prk info m = concat (map (hkdf_T hmac prk info) [1..<Suc m])"

lemma length_hkdf_T: "hmac_ok hmac \<Longrightarrow> 0 < i \<Longrightarrow> length (hkdf_T hmac prk info i) = 32"
  by (cases i) (simp_all add: hmac_ok_def)

lemma hkdf_okm_0: "hkdf_okm hmac prk info 0 = []"
  by (simp add: hkdf_okm_def)

lemma hkdf_okm_Suc:
  "hkdf_okm hmac prk info (Suc m) = hkdf_okm hmac prk info m @ hkdf_T hmac prk info (Suc m)"
  by (simp add: hkdf_okm_def del: hkdf_T.simps)

lemma length_hkdf_okm: "hmac_ok hmac \<Longrightarrow> length (hkdf_okm hmac prk info m) = 32 * m"
  by (induction m) (simp_all add: hkdf_okm_0 hkdf_okm_Suc length_hkdf_T del: hkdf_T.simps)

text \<open>One pass of the loop turns the first \<open>m\<close> blocks into the first \<open>m + 1\<close>.\<close>

lemma hkdf_loop_stop:
  assumes "hmac_ok hmac" and "n \<le> 32 * m"
  shows "hkdf_loop hmac prk info n c t (hkdf_okm hmac prk info m) = Some (hkdf_okm hmac prk info m)"
  using assms by (simp add: hkdf_loop.simps [of hmac prk info n c t] length_hkdf_okm)

lemma hkdf_loop_step:
  assumes "hmac_ok hmac" and "32 * m < n"
  shows "hkdf_loop hmac prk info n (of_nat (Suc m)) (hkdf_T hmac prk info m) (hkdf_okm hmac prk info m)
       = hkdf_loop hmac prk info n (of_nat (Suc (Suc m))) (hkdf_T hmac prk info (Suc m)) (hkdf_okm hmac prk info (Suc m))"
proof -
  have c: "(of_nat (Suc m) :: u8) + 1 = of_nat (Suc (Suc m))" by simp
  show ?thesis
    using assms
    unfolding hkdf_loop.simps [of hmac prk info n "of_nat (Suc m)" "hkdf_T hmac prk info m"] c Let_def
      hkdf_okm_Suc hkdf_T.simps(2) by (simp only: length_hkdf_okm if_True)
qed

lemma hkdf_loop_spec:
  assumes "hmac_ok hmac" and "n \<le> 32 * (m + k)"
  shows "\<exists>m'. n \<le> 32 * m' \<and>
      hkdf_loop hmac prk info n (of_nat (Suc m)) (hkdf_T hmac prk info m) (hkdf_okm hmac prk info m)
      = Some (hkdf_okm hmac prk info m')"
  using assms(2)
proof (induction k arbitrary: m)
  case 0
  then show ?case using hkdf_loop_stop [OF assms(1)] by (intro exI [of _ m]) simp
next
  case (Suc k)
  show ?case
  proof (cases "32 * m < n")
    case True
    have "n \<le> 32 * (Suc m + k)" using Suc.prems by simp
    from Suc.IH [OF this] show ?thesis by (simp only: hkdf_loop_step [OF assms(1) True])
  next
    case False
    then show ?thesis using hkdf_loop_stop [OF assms(1)] by (intro exI [of _ m]) simp
  qed
qed

lemma hkdf_okm_prefix: "m \<le> m' \<Longrightarrow> \<exists>xs. hkdf_okm hmac prk info m' = hkdf_okm hmac prk info m @ xs"
proof (induction m')
  case (Suc m')
  then show ?case by (cases "m = Suc m'") (auto simp: hkdf_okm_Suc le_Suc_eq)
qed simp

lemma take_hkdf_okm:
  assumes "hmac_ok hmac" "n \<le> 32 * m" "m \<le> m'"
  shows "take n (hkdf_okm hmac prk info m') = take n (hkdf_okm hmac prk info m)"
proof -
  obtain xs where "hkdf_okm hmac prk info m' = hkdf_okm hmac prk info m @ xs"
    using hkdf_okm_prefix [OF assms(3)] by blast
  with assms show ?thesis by (simp add: length_hkdf_okm)
qed

lemma hkdfExpand_spec:
  assumes "hmac_ok hmac"
  shows "\<exists>okm. hkdfExpand hmac prk info n = Some okm \<and> length okm = n
           \<and> (\<forall>m. n \<le> 32 * m \<longrightarrow> okm = take n (hkdf_okm hmac prk info m))"
proof -
  obtain m' where m': "hkdf_loop hmac prk info n 1 [] [] = Some (hkdf_okm hmac prk info m')" "n \<le> 32 * m'"
    using hkdf_loop_spec [OF assms, of n 0 n prk info] by (auto simp: hkdf_okm_0)
  have "take n (hkdf_okm hmac prk info m') = take n (hkdf_okm hmac prk info m)" if "n \<le> 32 * m" for m
  proof (cases "m \<le> m'")
    case True
    show ?thesis by (rule take_hkdf_okm [OF assms that True])
  next
    case False
    then have "m' \<le> m" by simp
    show ?thesis by (rule take_hkdf_okm [OF assms m'(2) \<open>m' \<le> m\<close>, symmetric])
  qed
  moreover have "hkdfExpand hmac prk info n = Some (take n (hkdf_okm hmac prk info m'))"
    by (simp add: hkdfExpand_def m'(1))
  moreover have "length (take n (hkdf_okm hmac prk info m')) = n"
    using m'(2) by (simp add: length_hkdf_okm [OF assms])
  ultimately show ?thesis by blast
qed

text \<open>The 32-byte keys of this protocol take one block.\<close>

lemma derive_one_block:
  assumes "hmac_ok hmac"
  shows "derive hmac psk salt info = Some (hmac (hmac salt psk) (info @ [1]))"
proof -
  obtain okm where okm: "hkdfExpand hmac (hmac salt psk) info 32 = Some okm"
    "okm = take 32 (hkdf_okm hmac (hmac salt psk) info 1)"
    using hkdfExpand_spec [OF assms, of "hmac salt psk" info 32] by auto
  then show ?thesis
    using assms by (simp add: derive_def hmacSHA256_def keySize_def hkdf_okm_def hmac_ok_def)
qed

section \<open>The cipher\<close>

text \<open>\<open>NewAEAD\<close>; the constructors of the two ciphers are arguments.\<close>

definition NewAEAD ::
  "(bytes \<Rightarrow> aead option) \<Rightarrow> (bytes \<Rightarrow> aead option) \<Rightarrow> bytes \<Rightarrow> string \<Rightarrow> crypto_error + aead" where
  "NewAEAD chacha gcm key name =
     (if length key \<noteq> keySize then Inl (BadKeyLength (length key))
      else if name = '''' \<or> name = ''chacha20poly1305'' then
        (case chacha key of None \<Rightarrow> Inl CipherInit | Some a \<Rightarrow> Inr a)
      else if name = ''aes256gcm'' then
        (case gcm key of None \<Rightarrow> Inl CipherInit | Some a \<Rightarrow> Inr a)
      else Inl (UnknownCipher name))"

definition makeNonce :: "NonceDirection \<Rightarrow> u32 \<Rightarrow> bytes" where
  "makeNonce dir s =
     (let n = make_bytes nonceSize;
          n = n[4 := dir_byte dir]
      in copy_at 8 (put_u32 s) n)"

definition frameSeq :: "bytes \<Rightarrow> u32" where
  "frameSeq header = get_u32 header 16"

definition Seal :: "aead \<Rightarrow> NonceDirection \<Rightarrow> bytes \<Rightarrow> crypto_error + bytes" where
  "Seal aead dir plaintext =
     (if length plaintext < 28 then Inl TooShortToSeal
      else
        (let header = take 28 plaintext;
             payload = drop 28 plaintext;
             nonce = makeNonce dir (frameSeq header);
             sealed = aead_Seal aead nonce payload header
         in Inr (header @ sealed)))"

definition Open :: "aead \<Rightarrow> NonceDirection \<Rightarrow> bytes \<Rightarrow> crypto_error + bytes" where
  "Open aead dir sealed =
     (if length sealed < 28 + aead_Overhead aead then Inl SealedTooShort
      else
        (let header = take 28 sealed;
             body = drop 28 sealed;
             nonce = makeNonce dir (frameSeq header)
         in case aead_Open aead nonce body header of
              None \<Rightarrow> Inl AuthFailed
            | Some payload \<Rightarrow> Inr (header @ payload)))"

lemma makeNonce_eq: "makeNonce dir s = [0, 0, 0, 0, dir_byte dir, 0, 0, 0] @ put_u32 s"
  by (simp add: makeNonce_def nonceSize_def make_bytes_def copy_at_def numeral_eq_Suc)

lemma length_makeNonce [simp]: "length (makeNonce dir s) = nonceSize"
  by (simp add: makeNonce_eq nonceSize_def)

lemma dir_byte_inj [simp]: "dir_byte d = dir_byte d' \<longleftrightarrow> d = d'"
  by (cases d; cases d') simp_all

lemma put_u32_inj [simp]: "put_u32 v = put_u32 w \<longleftrightarrow> v = w"
proof
  assume "put_u32 v = put_u32 w"
  then have "get_u32 ([] @ put_u32 v @ []) 0 = get_u32 ([] @ put_u32 w @ []) 0" by (simp only:)
  then show "v = w" by (simp only: get_put_u32 list.size)
qed simp

lemma frameSeq_header: "frameSeq (header_bytes f) = fSeq f"
  using header_fields(5) [of f "[]"] by (simp add: frameSeq_def)

lemma Seal_ok:
  "28 \<le> length p \<Longrightarrow>
     Seal a d p = Inr (take 28 p @ aead_Seal a (makeNonce d (frameSeq (take 28 p))) (drop 28 p) (take 28 p))"
  by (simp add: Seal_def Let_def)

lemma sealed_seq:
  assumes "Encode f = Inr p" "Seal a d p = Inr s"
  shows "frameSeq s = fSeq f"
proof -
  have p: "p = header_bytes f @ fPayload f"
    using assms(1) Encode_ok [of f] Encode_error [of f] by (cases "length (fPayload f) \<le> MaxPayload") auto
  have "take 28 p = header_bytes f" by (simp add: p)
  then have "s = header_bytes f @ aead_Seal a (makeNonce d (frameSeq (take 28 p))) (drop 28 p) (take 28 p)"
    using assms(2) Seal_ok [of p a d] by (simp add: p)
  then show ?thesis using header_fields(5) by (simp add: frameSeq_def)
qed

lemma Open_Inr_iff:
  assumes "aead_ok a"
  shows "Open a d s = Inr p \<longleftrightarrow> Seal a d p = Inr s"
proof
  assume "Open a d s = Inr p"
  then obtain q where len: "28 + aead_Overhead a \<le> length s" and p: "p = take 28 s @ q"
    and q: "aead_Open a (makeNonce d (frameSeq (take 28 s))) (drop 28 s) (take 28 s) = Some q"
    by (auto simp: Open_def Let_def split: if_splits option.splits)
  from q assms have body: "aead_Seal a (makeNonce d (frameSeq (take 28 s))) q (take 28 s) = drop 28 s"
    by (simp add: aead_ok_def)
  from p len have "28 \<le> length p" "take 28 p = take 28 s" "drop 28 p = q"
    by simp_all
  then show "Seal a d p = Inr s"
    by (simp only: Seal_ok body append_take_drop_id)
next
  assume "Seal a d p = Inr s"
  then have len: "28 \<le> length p"
    and s: "s = take 28 p @ aead_Seal a (makeNonce d (frameSeq (take 28 p))) (drop 28 p) (take 28 p)"
    by (auto simp: Seal_def Let_def split: if_splits)
  have o: "aead_Open a n (aead_Seal a n q ad) ad = Some q" for n q ad
    using assms by (simp add: aead_ok_def)
  have "length s = length p + aead_Overhead a" "take 28 s = take 28 p"
    "drop 28 s = aead_Seal a (makeNonce d (frameSeq (take 28 p))) (drop 28 p) (take 28 p)"
    using assms len by (simp_all add: s aead_ok_def)
  with len o show "Open a d s = Inr p"
    by (simp add: Open_def Let_def)
qed

section \<open>Forward-secrecy key exchange\<close>

text \<open>
  X25519 as its three operations: the public key of a private key, key-format checks, and
  the shared secret (which fails on low-order points). \<open>GenerateEphemeralKey\<close> draws the
  private key from the entropy source, an argument.
\<close>

record x25519 =
  x_pub :: "bytes \<Rightarrow> bytes"
  x_valid_priv :: "bytes \<Rightarrow> bool"
  x_valid_pub :: "bytes \<Rightarrow> bool"
  x_ecdh :: "bytes \<Rightarrow> bytes \<Rightarrow> bytes option"

text \<open>
  Diffie-Hellman commutes: both parties compute the same secret. Every 32-byte string is an
  accepted private key, public keys are 32 bytes and accepted, as \<open>crypto/ecdh\<close> documents.
\<close>

definition x25519_ok :: "x25519 \<Rightarrow> bool" where
  "x25519_ok x \<longleftrightarrow>
     (\<forall>a b. length a = 32 \<longrightarrow> length b = 32 \<longrightarrow> x_ecdh x a (x_pub x b) = x_ecdh x b (x_pub x a)) \<and>
     (\<forall>a. length a = 32 \<longrightarrow> x_valid_priv x a \<and> length (x_pub x a) = 32 \<and> x_valid_pub x (x_pub x a))"

definition PublicKeySize :: nat where "PublicKeySize = 32"

definition GenerateEphemeralKey :: "x25519 \<Rightarrow> bytes option \<Rightarrow> crypto_error + bytes \<times> bytes" where
  "GenerateEphemeralKey x entropy =
     (case entropy of None \<Rightarrow> Inl NoEntropy | Some k \<Rightarrow> Inr (k, x_pub x k))"

definition ECDHShared :: "x25519 \<Rightarrow> bytes \<Rightarrow> bytes \<Rightarrow> crypto_error + bytes" where
  "ECDHShared x priv peerPub =
     (if length priv \<noteq> PublicKeySize then Inl BadPrivateKey
      else if length peerPub \<noteq> PublicKeySize then Inl BadPeerKey
      else if \<not> x_valid_priv x priv then Inl BadPrivateKey
      else if \<not> x_valid_pub x peerPub then Inl BadPeerKey
      else (case x_ecdh x priv peerPub of None \<Rightarrow> Inl ECDHFailed | Some s \<Rightarrow> Inr s))"

definition DerivePFSKey :: "hmac \<Rightarrow> bytes \<Rightarrow> bytes \<Rightarrow> u64 \<Rightarrow> bytes option" where
  "DerivePFSKey hmac psk shared sessionID =
     (let info = [] @ str_bytes ''pfs-session:'';
          b = put_u64 sessionID;
          info = info @ b
      in derive hmac shared psk info)"

lemma ECDHShared_agree:
  assumes "x25519_ok x" "length a = 32" "length b = 32"
  shows "ECDHShared x a (x_pub x b) = ECDHShared x b (x_pub x a)"
  using assms by (simp add: ECDHShared_def PublicKeySize_def x25519_ok_def)

section \<open>Instances of the primitives\<close>

text \<open>
  Concrete functions that satisfy the hypotheses, for the witnesses: a cipher that leaves
  the plaintext alone and appends a tag made of nonce and associated data, a digest that
  cuts its input to 32 bytes, and a commutative key exchange.
\<close>

definition plain_tag :: "bytes \<Rightarrow> bytes \<Rightarrow> bytes" where
  "plain_tag n ad = take 16 (n @ ad @ make_bytes 16)"

definition plain_aead :: aead where
  "plain_aead =
     \<lparr>aead_Seal = (\<lambda>n p ad. p @ plain_tag n ad),
      aead_Open = (\<lambda>n c ad. if 16 \<le> length c \<and> drop (length c - 16) c = plain_tag n ad
                            then Some (take (length c - 16) c) else None),
      aead_Overhead = 16\<rparr>"

lemma length_plain_tag [simp]: "length (plain_tag n ad) = 16"
  by (simp add: plain_tag_def)

lemma split_suffix:
  assumes "length t = n"
  shows "n \<le> length c \<and> drop (length c - n) c = t \<and> take (length c - n) c = p \<longleftrightarrow> c = p @ t"
proof
  assume "n \<le> length c \<and> drop (length c - n) c = t \<and> take (length c - n) c = p"
  then have "take (length c - n) c = p" "drop (length c - n) c = t" by simp_all
  then have "take (length c - n) c @ drop (length c - n) c = p @ t" by (simp only:)
  then show "c = p @ t" by (simp only: append_take_drop_id)
next
  assume "c = p @ t"
  with assms show "n \<le> length c \<and> drop (length c - n) c = t \<and> take (length c - n) c = p"
    by simp
qed

lemma plain_aead_ok: "aead_ok plain_aead"
  using split_suffix [of "plain_tag n ad" 16 c p for n ad c p]
  by (simp add: aead_ok_def plain_aead_def conj_commute) blast

definition plain_hmac :: hmac where
  "plain_hmac key msg = take 32 (key @ msg @ make_bytes 32)"

lemma plain_hmac_ok: "hmac_ok plain_hmac"
  by (simp add: hmac_ok_def plain_hmac_def) arith

definition plain_x25519 :: x25519 where
  "plain_x25519 =
     \<lparr>x_pub = (\<lambda>a. a), x_valid_priv = (\<lambda>a. length a = 32), x_valid_pub = (\<lambda>a. length a = 32),
      x_ecdh = (\<lambda>a b. Some (map2 (+) a b))\<rparr>"

lemma map2_add_commute: "map2 (+) a b = map2 (+) b (a :: bytes)"
  by (simp add: zip_commute [of a b] add.commute case_prod_beta)

lemma plain_x25519_ok: "x25519_ok plain_x25519"
  by (simp add: x25519_ok_def plain_x25519_def map2_add_commute)

section \<open>Properties\<close>

text \<open>C20: \<open>hkdfExpand\<close> returns for every requested length, yields exactly that many bytes, and these
  are the first bytes of T(1) | T(2) | ... of RFC 5869 for any sufficient number of blocks.\<close>

theorem hkdfExpand_rfc5869:
  assumes "hmac_ok hmac"
  shows "\<exists>okm. hkdfExpand hmac prk info n = Some okm \<and> length okm = n
           \<and> (\<forall>m. n \<le> 32 * m \<longrightarrow> okm = take n (hkdf_okm hmac prk info m))"
  using assms by (rule hkdfExpand_spec)

theorem hkdfExpand_rfc5869_witness:
  "hmac_ok plain_hmac
   \<and> (\<exists>okm. hkdfExpand plain_hmac [1, 2] [3] 40 = Some okm \<and> length okm = 40
        \<and> okm = take 40 (hkdf_okm plain_hmac [1, 2] [3] 2))"
proof -
  obtain okm where "hkdfExpand plain_hmac [1, 2] [3] 40 = Some okm" "length okm = 40"
    "40 \<le> 32 * (2::nat) \<longrightarrow> okm = take 40 (hkdf_okm plain_hmac [1, 2] [3] 2)"
    using hkdfExpand_rfc5869 [OF plain_hmac_ok, of "[1, 2]" "[3]" 40] by blast
  then show ?thesis using plain_hmac_ok by simp
qed

text \<open>C8: Sealing and opening are inverse: a frame of at least a header seals, the sealed frame
  opens to the same plaintext in the same direction, and whatever opens is exactly the
  sealing of the plaintext it opens to, header included.\<close>

theorem Open_Seal:
  assumes "aead_ok a" "HeaderSize \<le> length p"
  shows "\<exists>s. Seal a d p = Inr s \<and> Open a d s = Inr p \<and> take HeaderSize s = take HeaderSize p
           \<and> length s = length p + aead_Overhead a
           \<and> (\<forall>s' p'. Open a d s' = Inr p' \<longrightarrow> Seal a d p' = Inr s')"
proof -
  from assms(2) have len: "28 \<le> length p" by (simp add: HeaderSize_def)
  show ?thesis
    using Open_Inr_iff [OF assms(1)] Seal_ok [OF len, of a d] assms len
    by (simp add: HeaderSize_def aead_ok_def)
qed

theorem Open_Seal_witness:
  "aead_ok plain_aead \<and>
   (\<exists>s. Seal plain_aead DirClientToServer (make_bytes 28 @ [5, 6]) = Inr s
      \<and> Open plain_aead DirClientToServer s = Inr (make_bytes 28 @ [5, 6]) \<and> length s = 46)"
  using plain_aead_ok Open_Seal [OF plain_aead_ok, of "make_bytes 28 @ [5, 6]" DirClientToServer]
  by (auto simp: HeaderSize_def plain_aead_def)

text \<open>Two nonces are equal exactly when direction and sequence number are. The nonce carries
  no session: frames of different sessions sealed under one key in the same direction with
  the same sequence number share their nonce.\<close>

theorem makeNonce_inj:
  "(makeNonce d s = makeNonce d' s' \<longleftrightarrow> d = d' \<and> s = s') \<and> length (makeNonce d s) = nonceSize"
  by (auto simp: makeNonce_eq nonceSize_def)

text \<open>Both ends of the key exchange derive the same 32-byte session key, and it exists: the
  server from its private key and the client's public key, the client from its private key
  and the server's public key.\<close>

theorem pfs_key_agreement:
  assumes "x25519_ok x" "hmac_ok hmac"
    and "GenerateEphemeralKey x (Some c) = Inr (cPriv, cPub)" "length c = 32"
    and "GenerateEphemeralKey x (Some s) = Inr (sPriv, sPub)" "length s = 32"
    and "ECDHShared x sPriv cPub = Inr shared"
  shows "ECDHShared x cPriv sPub = Inr shared
       \<and> (\<exists>key. DerivePFSKey hmac psk shared sid = Some key \<and> length key = keySize)"
proof -
  have keys: "cPriv = c" "cPub = x_pub x c" "sPriv = s" "sPub = x_pub x s"
    using assms(3,5) by (auto simp: GenerateEphemeralKey_def)
  have "ECDHShared x cPriv sPub = Inr shared"
    using ECDHShared_agree [OF assms(1) assms(4) assms(6)] assms(7) unfolding keys by simp
  moreover have "\<exists>key. DerivePFSKey hmac psk shared sid = Some key \<and> length key = keySize"
    using assms(2) by (simp add: DerivePFSKey_def derive_one_block keySize_def hmac_ok_def)
  ultimately show ?thesis by blast
qed

theorem pfs_key_agreement_witness:
  "ECDHShared plain_x25519 (make_bytes 32) (replicate 32 1) = Inr (replicate 32 1)
   \<and> ECDHShared plain_x25519 (replicate 32 1) (make_bytes 32) = Inr (replicate 32 1)"
proof -
  have e: "ECDHShared plain_x25519 (make_bytes 32) (replicate 32 1) = Inr (replicate 32 1)"
    by (simp add: ECDHShared_def PublicKeySize_def plain_x25519_def make_bytes_def zip_replicate)
  have g: "GenerateEphemeralKey plain_x25519 (Some k) = Inr (k, k)" for k
    by (simp add: GenerateEphemeralKey_def plain_x25519_def)
  show ?thesis
    using e pfs_key_agreement [OF plain_x25519_ok plain_hmac_ok g [of "replicate 32 1"] _ g [of "make_bytes 32"] _ e]
    by simp
qed

end
