(* ===== verification/Session.thy ===== *)
theory Session
  imports Replay Crypto Fec_Encoder Net_Addr "HOL-Library.Multiset"
begin

text \<open>
  Tunnel sessions, \<open>internal/session/session.go\<close>: the client's and the server's per-session
  state (sequence counter, replay window, endpoints, last activity) and the manager with its
  table of sessions and its handshake replay windows. Sessions are shared by pointer in the
  source; here the table holds their state, and the operations on a session of the table go
  through \<open>upd_session\<close>. The clock, the random bytes and the order of a range statement are
  arguments. A UDP socket is a handle; closing returns the handles closed.

  Shown here: the replay check of both ends accepts no number twice, nor does that of the handshake
  while the window of the session is in its table; the
  handshake table never exceeds its bound; expiry removes exactly the idle sessions and closes
  exactly their sockets; the counters run through all 32-bit numbers before they repeat.
\<close>

section \<open>Client side\<close>

text \<open>\<open>NewID\<close>: the random source yields eight bytes or fails.\<close>

definition NewID :: "bytes option \<Rightarrow> u64 option" where
  "NewID rand = (case rand of None \<Rightarrow> None | Some b \<Rightarrow> Some (get_u64 b 0))"

record Client =
  c_ID :: u64
  c_seq :: u32
  c_replay :: ReplayWindow
  c_wgAddr :: "udp_addr option"

definition NewClientWithID :: "u64 \<Rightarrow> Client" where
  "NewClientWithID ID = \<lparr>c_ID = ID, c_seq = 0, c_replay = NewReplayWindow DefaultReplayWindow, c_wgAddr = None\<rparr>"

definition NewClient :: "bytes option \<Rightarrow> Client option" where
  "NewClient rand = map_option NewClientWithID (NewID rand)"

definition Client_NextSeq :: "Client \<Rightarrow> Client \<times> u32" where
  "Client_NextSeq c = (c\<lparr>c_seq := c_seq c + 1\<rparr>, c_seq c + 1)"

definition Client_CheckReplay :: "Client \<Rightarrow> u32 \<Rightarrow> Client \<times> bool" where
  "Client_CheckReplay c s = (let (w, ok) = CheckAndMark (c_replay c) s in (c\<lparr>c_replay := w\<rparr>, ok))"

definition SetWGAddr :: "Client \<Rightarrow> udp_addr \<Rightarrow> Client" where
  "SetWGAddr c addr = c\<lparr>c_wgAddr := Some addr\<rparr>"

definition WGAddr :: "Client \<Rightarrow> udp_addr option" where
  "WGAddr c = c_wgAddr c"

section \<open>Server side\<close>

record ServerSession =
  s_ID :: u64
  s_aead :: aead
  s_Enc :: "Encoder option"
  s_seq :: u32
  s_replay :: ReplayWindow
  s_ServerPub :: bytes
  s_egress :: "nat option"
  s_endpoints :: "(string \<times> udp_addr) list"
  s_lastSeen :: int

definition Touch :: "ServerSession \<Rightarrow> int \<Rightarrow> ServerSession" where
  "Touch s now = s\<lparr>s_lastSeen := now\<rparr>"

definition NewServerSession :: "u64 \<Rightarrow> aead \<Rightarrow> int \<Rightarrow> ServerSession" where
  "NewServerSession ID a now =
     Touch \<lparr>s_ID = ID, s_aead = a, s_Enc = None, s_seq = 0, s_replay = NewReplayWindow DefaultReplayWindow, s_ServerPub = [],
            s_egress = None, s_endpoints = [], s_lastSeen = 0\<rparr> now"

definition Server_NextSeq :: "ServerSession \<Rightarrow> ServerSession \<times> u32" where
  "Server_NextSeq s = (s\<lparr>s_seq := s_seq s + 1\<rparr>, s_seq s + 1)"

definition Server_CheckReplay :: "ServerSession \<Rightarrow> u32 \<Rightarrow> ServerSession \<times> bool" where
  "Server_CheckReplay s q = (let (w, ok) = CheckAndMark (s_replay s) q in (s\<lparr>s_replay := w\<rparr>, ok))"

definition IdleSince :: "ServerSession \<Rightarrow> int" where
  "IdleSince s = s_lastSeen s"

definition SetEgress :: "ServerSession \<Rightarrow> nat \<Rightarrow> ServerSession" where
  "SetEgress s c = s\<lparr>s_egress := Some c\<rparr>"

definition CloseEgress :: "ServerSession \<Rightarrow> nat list" where
  "CloseEgress s = (case s_egress s of None \<Rightarrow> [] | Some c \<Rightarrow> [c])"

definition SetEndpoint :: "ServerSession \<Rightarrow> string \<Rightarrow> udp_addr \<Rightarrow> ServerSession" where
  "SetEndpoint s pathID addr = s\<lparr>s_endpoints := AList.update pathID addr (s_endpoints s)\<rparr>"

definition Endpoints :: "ServerSession \<Rightarrow> (string \<times> udp_addr) list" where
  "Endpoints s = s_endpoints s"

section \<open>The manager\<close>

record firstWindow =
  fw_win :: ReplayWindow
  fw_created :: int

record Manager =
  m_sessions :: "(u64 \<times> ServerSession) list"
  m_firstWindows :: "(u64 \<times> firstWindow) list"

definition maxFirstWindows :: nat where "maxFirstWindows = 4096"

definition NewManager :: Manager where
  "NewManager = \<lparr>m_sessions = [], m_firstWindows = []\<rparr>"

text \<open>The entry the eviction loop settles on; \<open>None\<close> stands for the zero time before the first round.\<close>

definition oldest_first :: "(u64 \<times> firstWindow) list \<Rightarrow> u64 \<times> int option" where
  "oldest_first ws =
     foldl (\<lambda>(old, t) (k, v). if t = None \<or> fw_created v < the t then (k, Some (fw_created v)) else (old, t)) (0, None) ws"

definition CheckFirstReplay ::
    "((u64 \<times> firstWindow) list \<Rightarrow> (u64 \<times> firstWindow) list) \<Rightarrow> Manager \<Rightarrow> u64 \<Rightarrow> u32 \<Rightarrow> int \<Rightarrow> Manager \<times> bool" where
  "CheckFirstReplay rng m ID s now =
     (let m = (if map_of (m_firstWindows m) ID = None then
                 (let m = (if length (m_firstWindows m) \<ge> maxFirstWindows
                           then m\<lparr>m_firstWindows := AList.delete (fst (oldest_first (rng (m_firstWindows m)))) (m_firstWindows m)\<rparr>
                           else m)
                  in m\<lparr>m_firstWindows := AList.update ID \<lparr>fw_win = NewReplayWindow DefaultReplayWindow, fw_created = now\<rparr> (m_firstWindows m)\<rparr>)
               else m);
          fw = the (map_of (m_firstWindows m) ID);
          (w, ok) = CheckAndMark (fw_win fw) s
      in (m\<lparr>m_firstWindows := AList.update ID (fw\<lparr>fw_win := w\<rparr>) (m_firstWindows m)\<rparr>, ok))"

definition ExpireFirsts :: "Manager \<Rightarrow> int \<Rightarrow> int \<Rightarrow> Manager \<times> nat" where
  "ExpireFirsts m ttl now =
     (let cutoff = now - ttl
      in (m\<lparr>m_firstWindows := filter (\<lambda>(ID, fw). \<not> fw_created fw < cutoff) (m_firstWindows m)\<rparr>,
          length (filter (\<lambda>(ID, fw). fw_created fw < cutoff) (m_firstWindows m))))"

definition Get :: "Manager \<Rightarrow> u64 \<Rightarrow> ServerSession option" where
  "Get m ID = map_of (m_sessions m) ID"

definition Put :: "Manager \<Rightarrow> ServerSession \<Rightarrow> Manager" where
  "Put m s = m\<lparr>m_sessions := AList.update (s_ID s) s (m_sessions m)\<rparr>"

definition Delete :: "Manager \<Rightarrow> u64 \<Rightarrow> Manager" where
  "Delete m ID = m\<lparr>m_sessions := AList.delete ID (m_sessions m)\<rparr>"

definition Count :: "Manager \<Rightarrow> nat" where
  "Count m = length (m_sessions m)"

definition All :: "Manager \<Rightarrow> ServerSession list" where
  "All m = map snd (m_sessions m)"

definition Expire :: "Manager \<Rightarrow> int \<Rightarrow> int \<Rightarrow> Manager \<times> nat \<times> nat list" where
  "Expire m ttl now =
     (let cutoff = now - ttl;
          victims = map snd (filter (\<lambda>(ID, s). IdleSince s < cutoff) (m_sessions m))
      in (m\<lparr>m_sessions := filter (\<lambda>(ID, s). \<not> IdleSince s < cutoff) (m_sessions m)\<rparr>,
          length victims, concat (map CloseEgress victims)))"

definition CloseAll :: "Manager \<Rightarrow> Manager \<times> nat list" where
  "CloseAll m = (m\<lparr>m_sessions := []\<rparr>, concat (map CloseEgress (map snd (m_sessions m))))"

text \<open>A method of a session that sits in the table: the state behind the pointer changes.\<close>

definition upd_session :: "Manager \<Rightarrow> u64 \<Rightarrow> (ServerSession \<Rightarrow> ServerSession) \<Rightarrow> Manager" where
  "upd_session m ID f =
     (case Get m ID of None \<Rightarrow> m | Some s \<Rightarrow> m\<lparr>m_sessions := AList.update ID (f s) (m_sessions m)\<rparr>)"

section \<open>Replay checks\<close>

interpretation client: anti_replay Client_CheckReplay "\<lambda>c. replay_inv (c_replay c)"
  by unfold_locales (simp_all add: Client_CheckReplay_def case_prod_unfold Let_def rw.inv_chk rw.chk_again rw.chk_stays)

interpretation server: anti_replay Server_CheckReplay "\<lambda>s. replay_inv (s_replay s)"
  by unfold_locales (simp_all add: Server_CheckReplay_def case_prod_unfold Let_def rw.inv_chk rw.chk_again rw.chk_stays)

text \<open>
  A run of the handshake table: checks, and the sweeps that forget old windows. The result is the
  list of the pairs of session and number it accepts.
\<close>

datatype first_event = FCheck u64 u32 int | FExpire int int

fun first_run ::
    "((u64 \<times> firstWindow) list \<Rightarrow> (u64 \<times> firstWindow) list) \<Rightarrow> Manager \<Rightarrow> first_event list \<Rightarrow> (u64 \<times> u32) list" where
  "first_run rng m [] = []"
| "first_run rng m (FCheck ID s now # evs) =
     (let (m, ok) = CheckFirstReplay rng m ID s now in (if ok then [(ID, s)] else []) @ first_run rng m evs)"
| "first_run rng m (FExpire ttl now # evs) = first_run rng (fst (ExpireFirsts m ttl now)) evs"

definition checked_ids :: "first_event list \<Rightarrow> u64 list" where
  "checked_ids evs = concat (map (\<lambda>e. case e of FCheck i s t \<Rightarrow> [i] | FExpire ttl now \<Rightarrow> []) evs)"

definition checked_seqs :: "u64 \<Rightarrow> first_event list \<Rightarrow> u32 list" where
  "checked_seqs ID evs = concat (map (\<lambda>e. case e of FCheck i s t \<Rightarrow> if i = ID then [s] else [] | FExpire ttl now \<Rightarrow> []) evs)"

text \<open>What one session is promised: a window of its own from its first check on, until a sweep finds it too old.\<close>

definition session_check :: "firstWindow option \<Rightarrow> u32 \<Rightarrow> int \<Rightarrow> firstWindow \<times> bool" where
  "session_check w s now =
     (let fw = (case w of None \<Rightarrow> \<lparr>fw_win = NewReplayWindow DefaultReplayWindow, fw_created = now\<rparr> | Some fw \<Rightarrow> fw);
          (win, ok) = CheckAndMark (fw_win fw) s
      in (fw\<lparr>fw_win := win\<rparr>, ok))"

definition session_expire :: "firstWindow option \<Rightarrow> int \<Rightarrow> int \<Rightarrow> firstWindow option" where
  "session_expire w ttl now = (case w of None \<Rightarrow> None | Some fw \<Rightarrow> if \<not> fw_created fw < now - ttl then Some fw else None)"

fun session_run :: "u64 \<Rightarrow> firstWindow option \<Rightarrow> first_event list \<Rightarrow> u32 list" where
  "session_run ID w [] = []"
| "session_run ID w (FCheck i s now # evs) =
     (if i = ID then (let (fw, ok) = session_check w s now in (if ok then [s] else []) @ session_run ID (Some fw) evs) else session_run ID w evs)"
| "session_run ID w (FExpire ttl now # evs) = session_run ID (session_expire w ttl now) evs"

lemma map_of_filter_distinct:
  assumes "distinct (map fst xs)"
  shows "map_of (filter (\<lambda>(k, v). P v) xs) k = (case map_of xs k of None \<Rightarrow> None | Some v \<Rightarrow> if P v then Some v else None)"
  using assms
proof (induction xs)
  case (Cons x xs)
  have "map_of xs (fst x) = None" using Cons.prems by (simp add: map_of_eq_None_iff)
  then show ?case using Cons by (cases x) auto
qed simp

text \<open>As long as nothing is evicted, a check touches the window of its own session only.\<close>

lemma CheckFirst_entry:
  assumes "map_of (m_firstWindows m) ID = None \<Longrightarrow> length (m_firstWindows m) < maxFirstWindows"
  shows "snd (CheckFirstReplay rng m ID s now) = snd (session_check (map_of (m_firstWindows m) ID) s now)"
    "map_of (m_firstWindows (fst (CheckFirstReplay rng m ID s now))) ID' =
       (if ID' = ID then Some (fst (session_check (map_of (m_firstWindows m) ID) s now)) else map_of (m_firstWindows m) ID')"
    "fst ` set (m_firstWindows (fst (CheckFirstReplay rng m ID s now))) = insert ID (fst ` set (m_firstWindows m))"
  using assms by (cases "map_of (m_firstWindows m) ID";
      simp add: CheckFirstReplay_def session_check_def Let_def case_prod_unfold update_conv' dom_update; fail)+

lemma CheckFirst_distinct:
  "distinct (map fst (m_firstWindows m)) \<Longrightarrow> distinct (map fst (m_firstWindows (fst (CheckFirstReplay rng m ID s now))))"
  by (simp add: CheckFirstReplay_def Let_def case_prod_unfold distinct_update distinct_delete)

lemma ExpireFirsts_entry:
  assumes "distinct (map fst (m_firstWindows m))"
  shows "map_of (m_firstWindows (fst (ExpireFirsts m ttl now))) ID = session_expire (map_of (m_firstWindows m) ID) ttl now"
    "fst ` set (m_firstWindows (fst (ExpireFirsts m ttl now))) \<subseteq> fst ` set (m_firstWindows m)"
    "distinct (map fst (m_firstWindows (fst (ExpireFirsts m ttl now))))"
  using map_of_filter_distinct [OF assms, of "\<lambda>fw. \<not> fw_created fw < now - ttl" ID] assms
  by (auto simp: ExpireFirsts_def session_expire_def Let_def distinct_map_filter)

lemma first_run_session:
  assumes "distinct (map fst (m_firstWindows m))" "fst ` set (m_firstWindows m) \<union> set (checked_ids evs) \<subseteq> A" "finite A" "card A \<le> maxFirstWindows"
  shows "map snd (filter (\<lambda>p. fst p = ID) (first_run rng m evs)) = session_run ID (map_of (m_firstWindows m) ID) evs"
  using assms(1,2)
proof (induction evs arbitrary: m)
  case (Cons e evs)
  show ?case
  proof (cases e)
    case (FCheck i s now)
    let ?m = "fst (CheckFirstReplay rng m i s now)"
    have room: "length (m_firstWindows m) < maxFirstWindows" if "map_of (m_firstWindows m) i = None"
    proof -
      have "insert i (fst ` set (m_firstWindows m)) \<subseteq> A" "i \<notin> fst ` set (m_firstWindows m)"
        using Cons.prems(2) that FCheck by (auto simp: map_of_eq_None_iff checked_ids_def)
      then have "Suc (card (fst ` set (m_firstWindows m))) \<le> card A"
        using assms(3) by (metis card_insert_disjoint card_mono finite_imageI finite_set)
      moreover have "card (fst ` set (m_firstWindows m)) = length (m_firstWindows m)"
        using distinct_card [OF Cons.prems(1)] by simp
      ultimately show ?thesis using assms(4) by simp
    qed
    note w = CheckFirst_entry [OF room, where rng = rng and s = s and now = now]
    have "map snd (filter (\<lambda>p. fst p = ID) (first_run rng ?m evs)) = session_run ID (map_of (m_firstWindows ?m) ID) evs"
      using Cons.prems FCheck w(3) by (intro Cons.IH CheckFirst_distinct) (auto simp: checked_ids_def)
    then show ?thesis using w(1,2) by (simp add: FCheck Let_def case_prod_unfold)
  next
    case (FExpire ttl now)
    note x = ExpireFirsts_entry [OF Cons.prems(1), of ttl now]
    have "map snd (filter (\<lambda>p. fst p = ID) (first_run rng (fst (ExpireFirsts m ttl now)) evs)) = session_run ID (session_expire (map_of (m_firstWindows m) ID) ttl now) evs"
      using Cons.IH [OF x(3)] Cons.prems(2) x(1,2) FExpire by (auto simp: checked_ids_def)
    then show ?thesis by (simp add: FExpire)
  qed
qed simp

text \<open>A window that no sweep finds too old is never reset.\<close>

lemma session_kept:
  assumes "\<forall>ttl now. FExpire ttl now \<in> set evs \<longrightarrow> (\<forall>fw. w = Some fw \<longrightarrow> now - ttl \<le> fw_created fw) \<and> (\<forall>s t. FCheck ID s t \<in> set evs \<longrightarrow> now - ttl \<le> t)"
  shows "session_run ID w evs = accepted_seqs CheckAndMark (case w of None \<Rightarrow> NewReplayWindow DefaultReplayWindow | Some fw \<Rightarrow> fw_win fw) (checked_seqs ID evs)"
  using assms
proof (induction evs arbitrary: w)
  case (Cons e evs)
  show ?case
  proof (cases e)
    case (FCheck i s now)
    let ?fw = "fst (session_check w s now)"
    have "fw_created ?fw = (case w of None \<Rightarrow> now | Some fw \<Rightarrow> fw_created fw)"
      "fw_win ?fw = fst (CheckAndMark (case w of None \<Rightarrow> NewReplayWindow DefaultReplayWindow | Some fw \<Rightarrow> fw_win fw) s)"
      "snd (session_check w s now) = snd (CheckAndMark (case w of None \<Rightarrow> NewReplayWindow DefaultReplayWindow | Some fw \<Rightarrow> fw_win fw) s)"
      by (simp_all add: session_check_def Let_def case_prod_unfold split: option.split)
    then show ?thesis using Cons.IH [of w] Cons.IH [of "Some ?fw"] Cons.prems FCheck
      by (cases "i = ID"; cases w) (auto simp: checked_seqs_def Let_def case_prod_unfold)
  next
    case (FExpire ttl now)
    have "session_expire w ttl now = w" using Cons.prems FExpire by (force simp: session_expire_def split: option.split)
    then show ?thesis using Cons.IH [of w] Cons.prems FExpire by (simp add: checked_seqs_def)
  qed
qed (simp add: checked_seqs_def)

section \<open>The bound of the handshake table\<close>

definition permutes_entries :: "((u64 \<times> firstWindow) list \<Rightarrow> (u64 \<times> firstWindow) list) \<Rightarrow> bool" where
  "permutes_entries rng \<longleftrightarrow> (\<forall>ws. mset (rng ws) = mset ws)"

text \<open>The loop settles on an entry that is at least as old as all others.\<close>

lemma oldest_first_spec:
  assumes "ws \<noteq> []"
  shows "\<exists>fw. (fst (oldest_first ws), fw) \<in> set ws \<and> snd (oldest_first ws) = Some (fw_created fw)
    \<and> (\<forall>(k, v)\<in>set ws. fw_created fw \<le> fw_created v)"
  using assms
proof (induction ws rule: rev_induct)
  case (snoc w ws)
  show ?case
  proof (cases "ws = []")
    case True
    then show ?thesis by (cases w) (auto simp: oldest_first_def)
  next
    case False
    then obtain fw where "(fst (oldest_first ws), fw) \<in> set ws" "snd (oldest_first ws) = Some (fw_created fw)"
      "\<forall>(k, v)\<in>set ws. fw_created fw \<le> fw_created v" using snoc.IH by blast
    moreover obtain k v where "w = (k, v)" by (cases w)
    moreover have "oldest_first (ws @ [(k, v)])
        = (if snd (oldest_first ws) = None \<or> fw_created v < the (snd (oldest_first ws)) then (k, Some (fw_created v)) else oldest_first ws)"
      by (simp add: oldest_first_def case_prod_unfold)
    ultimately show ?thesis by (cases "fw_created v < fw_created fw") fastforce+
  qed
qed simp

lemma length_update_in: "k \<in> fst ` set p \<Longrightarrow> length (AList.update k v p) = length p"
  by (induction p) auto

lemma CheckFirst_bounded:
  assumes "permutes_entries rng" "length (m_firstWindows m) \<le> maxFirstWindows"
  shows "length (m_firstWindows (fst (CheckFirstReplay rng m ID s now))) \<le> maxFirstWindows"
proof (cases "map_of (m_firstWindows m) ID")
  case None
  let ?ws = "m_firstWindows m"
  define ws where "ws = (if maxFirstWindows \<le> length ?ws then AList.delete (fst (oldest_first (rng ?ws))) ?ws else ?ws)"
  have "length ws < maxFirstWindows"
  proof (cases "maxFirstWindows \<le> length ?ws")
    case True
    have ms: "mset (rng ?ws) = mset ?ws" using assms(1) by (simp add: permutes_entries_def)
    have "?ws \<noteq> []" using True by (auto simp: maxFirstWindows_def)
    then have "rng ?ws \<noteq> []" using ms by auto
    then obtain fw where "(fst (oldest_first (rng ?ws)), fw) \<in> set (rng ?ws)" using oldest_first_spec by blast
    then have "fst (oldest_first (rng ?ws)) \<in> fst ` set ?ws" unfolding mset_eq_setD [OF ms] by (metis fst_conv imageI)
    from length_delete_less [OF this] show ?thesis using True assms(2) by (simp add: ws_def)
  qed (simp add: ws_def)
  then have "length (AList.update ID x ws) \<le> maxFirstWindows" for x using length_update_le [of ID x ws] by simp
  then show ?thesis
    using None by (simp add: CheckFirstReplay_def Let_def case_prod_unfold ws_def [symmetric] if_distrib [of m_firstWindows] cong: if_cong)
next
  case (Some fw)
  then have "ID \<in> fst ` set (m_firstWindows m)" by (metis map_of_eq_None_iff option.distinct(1))
  then show ?thesis using Some assms(2) by (simp add: CheckFirstReplay_def Let_def case_prod_unfold length_update_in)
qed

section \<open>Runs of the manager\<close>

datatype mgr_event =
    MFirst u64 u32 int
  | MExpireFirsts int int
  | MPut ServerSession
  | MDelete u64
  | MTouch u64 int
  | MReplay u64 u32
  | MExpire int int

text \<open>The outputs are the sockets that are closed.\<close>

fun mgr_step ::
    "((u64 \<times> firstWindow) list \<Rightarrow> (u64 \<times> firstWindow) list) \<Rightarrow> Manager \<Rightarrow> mgr_event \<Rightarrow> Manager \<times> nat list" where
  "mgr_step rng m (MFirst ID s now) = (fst (CheckFirstReplay rng m ID s now), [])"
| "mgr_step rng m (MExpireFirsts ttl now) = (fst (ExpireFirsts m ttl now), [])"
| "mgr_step rng m (MPut s) = (Put m s, [])"
| "mgr_step rng m (MDelete ID) = (Delete m ID, [])"
| "mgr_step rng m (MTouch ID now) = (upd_session m ID (\<lambda>s. Touch s now), [])"
| "mgr_step rng m (MReplay ID q) = (upd_session m ID (\<lambda>s. fst (Server_CheckReplay s q)), [])"
| "mgr_step rng m (MExpire ttl now) = (case Expire m ttl now of (m, n, socks) \<Rightarrow> (m, socks))"

definition mgr_inv :: "((u64 \<times> firstWindow) list \<Rightarrow> (u64 \<times> firstWindow) list) \<Rightarrow> Manager \<Rightarrow> bool" where
  "mgr_inv rng m \<longleftrightarrow>
     distinct (map fst (m_sessions m)) \<and> (\<forall>(ID, s)\<in>set (m_sessions m). s_ID s = ID) \<and>
     distinct (map fst (m_firstWindows m)) \<and> (permutes_entries rng \<longrightarrow> length (m_firstWindows m) \<le> maxFirstWindows)"

lemma sessions_CheckFirst [simp]: "m_sessions (fst (CheckFirstReplay rng m ID s now)) = m_sessions m"
  by (simp add: CheckFirstReplay_def Let_def case_prod_unfold)



lemma ids_update:
  assumes "\<forall>(ID, s)\<in>set xs. s_ID s = ID" "s_ID s = ID"
  shows "\<forall>(ID, s)\<in>set (AList.update ID s xs). s_ID s = ID"
  using assms set_update_sub [of ID s xs] by fastforce

lemma mgr_inv_upd:
  assumes "mgr_inv rng m" "\<And>s. s_ID (f s) = s_ID s"
  shows "mgr_inv rng (upd_session m ID f)"
proof (cases "Get m ID")
  case (Some s)
  have "s_ID (f s) = ID" using assms Some by (auto simp: mgr_inv_def Get_def dest: map_of_SomeD)
  then have "\<forall>(ID, s)\<in>set (AList.update ID (f s) (m_sessions m)). s_ID s = ID"
    using assms(1) by (intro ids_update) (simp_all add: mgr_inv_def)
  then show ?thesis using assms(1) Some by (simp add: mgr_inv_def upd_session_def distinct_update)
qed (use assms in \<open>simp add: upd_session_def\<close>)

lemma mgr_inv_step: "mgr_inv rng m \<Longrightarrow> mgr_inv rng (fst (mgr_step rng m ev))"
proof (cases ev)
  case (MFirst ID s now)
  assume "mgr_inv rng m"
  then show ?thesis using MFirst CheckFirst_distinct CheckFirst_bounded by (simp add: mgr_inv_def)
next
  case (MExpireFirsts ttl now)
  assume inv: "mgr_inv rng m"
  then show ?thesis
    using MExpireFirsts by (auto simp: mgr_inv_def ExpireFirsts_def Let_def distinct_map_filter intro: order.trans [OF length_filter_le])
next
  case (MPut s)
  assume "mgr_inv rng m"
  then show ?thesis using MPut ids_update [of "m_sessions m" s] by (auto simp: mgr_inv_def Put_def distinct_update)
next
  case (MDelete ID)
  assume "mgr_inv rng m"
  then show ?thesis using MDelete by (auto simp: mgr_inv_def Delete_def AList.delete_eq distinct_map_filter)
next
  case (MTouch ID now)
  assume "mgr_inv rng m"
  then show ?thesis using MTouch by (simp add: mgr_inv_upd Touch_def)
next
  case (MReplay ID q)
  assume "mgr_inv rng m"
  then show ?thesis using MReplay by (simp add: mgr_inv_upd Server_CheckReplay_def case_prod_unfold Let_def)
next
  case (MExpire ttl now)
  assume "mgr_inv rng m"
  then show ?thesis using MExpire by (auto simp: mgr_inv_def Expire_def Let_def distinct_map_filter)
qed

interpretation mgr: stateful "mgr_step rng" "mgr_inv rng" "\<lambda>_. True" for rng
  by unfold_locales (rule mgr_inv_step)

lemma mgr_inv_New: "mgr_inv rng NewManager"
  by (simp add: mgr_inv_def NewManager_def)

text \<open>The \<open>n\<close>-th sequence number of a session, on either side.\<close>

fun nth_seq :: "('s \<Rightarrow> 's \<times> u32) \<Rightarrow> 's \<Rightarrow> nat \<Rightarrow> u32" where
  "nth_seq f s 0 = snd (f s)"
| "nth_seq f s (Suc n) = nth_seq f (fst (f s)) n"

lemma Client_seqs: "nth_seq Client_NextSeq c n = c_seq c + of_nat (Suc n)"
  by (induction n arbitrary: c) (simp_all add: Client_NextSeq_def add.assoc)

lemma Server_seqs: "nth_seq Server_NextSeq s n = s_seq s + of_nat (Suc n)"
  by (induction n arbitrary: s) (simp_all add: Server_NextSeq_def add.assoc)

section \<open>Properties\<close>

text \<open>
  C17: The handshake replay table refines one replay window per session, within its two limits.  In
  any sequence of handshake checks and expiry sweeps, interleaved in any way, with checks for at
  most \<open>maxFirstWindows\<close> different sessions (beyond that the oldest window is evicted), the numbers
  accepted for a session are those of a window of its own that lives from the session's first check
  until a sweep finds it older than the time to live, whatever the other sessions do.  If no sweep
  finds the session's window too old, the numbers are exactly those one replay window accepts, and
  none is accepted twice; after such a sweep a number can be accepted again.
\<close>

theorem first_frames_once:
  assumes "card (set (checked_ids evs)) \<le> maxFirstWindows"
  shows "map snd (filter (\<lambda>p. fst p = ID) (first_run rng NewManager evs)) = session_run ID None evs
    \<and> ((\<forall>ttl now s t. FExpire ttl now \<in> set evs \<and> FCheck ID s t \<in> set evs \<longrightarrow> now - ttl \<le> t) \<longrightarrow>
        session_run ID None evs = accepted_seqs CheckAndMark (NewReplayWindow DefaultReplayWindow) (checked_seqs ID evs)
        \<and> distinct (filter (\<lambda>p. fst p = ID) (first_run rng NewManager evs)))"
proof -
  have w: "map snd (filter (\<lambda>p. fst p = ID) (first_run rng NewManager evs)) = session_run ID None evs"
    using first_run_session [of NewManager evs "set (checked_ids evs)" ID rng] assms by (simp add: NewManager_def)
  moreover have "distinct (filter (\<lambda>p. fst p = ID) (first_run rng NewManager evs))"
    if "session_run ID None evs = accepted_seqs CheckAndMark (NewReplayWindow DefaultReplayWindow) (checked_seqs ID evs)"
  proof -
    have "distinct (map snd (filter (\<lambda>p. fst p = ID) (first_run rng NewManager evs)))"
      unfolding w that by (rule rw.accepted_once) (rule replay_inv_New)
    then show ?thesis by (simp add: distinct_map)
  qed
  ultimately show ?thesis using session_kept [of evs None ID] by auto
qed

theorem first_frames_once_witness:
  "distinct (filter (\<lambda>p. fst p = 7) (first_run id NewManager [FCheck 7 1 0, FCheck 8 1 0, FExpire 30 20, FCheck 7 1 25]))"
proof -
  let ?evs = "[FCheck 7 1 0, FCheck 8 1 0, FExpire 30 20, FCheck 7 1 25]"
  have "card (set (checked_ids ?evs)) \<le> maxFirstWindows" by (simp add: checked_ids_def maxFirstWindows_def card_insert_if)
  moreover have "\<forall>ttl now s t. FExpire ttl now \<in> set ?evs \<and> FCheck 7 s t \<in> set ?evs \<longrightarrow> now - ttl \<le> t" by auto
  ultimately show ?thesis using first_frames_once [of ?evs 7 id] by blast
qed

text \<open>
  The handshake table is bounded.  Whatever the network sends and whenever entries expire,
  the manager keeps at most \<open>maxFirstWindows\<close> handshake windows, one entry per session in both
  tables, and every session under its own identifier.
\<close>

theorem manager_bounded:
  assumes "permutes_entries rng"
  shows "(let m = fst (exec (mgr_step rng) NewManager evs)
    in length (m_firstWindows m) \<le> maxFirstWindows \<and> distinct (map fst (m_sessions m)) \<and> distinct (map fst (m_firstWindows m))
       \<and> list_all (\<lambda>(ID, s). s_ID s = ID) (m_sessions m))"
  using mgr.exec_inv [OF mgr_inv_New, of evs rng] assms by (simp add: list_all_iff mgr_inv_def Let_def)

theorem manager_bounded_witness:
  "length (m_firstWindows (fst (exec (mgr_step id) NewManager (map (\<lambda>i. MFirst (of_nat i) 1 0) [0..<10000])))) \<le> maxFirstWindows"
  using manager_bounded [of id "map (\<lambda>i. MFirst (of_nat i) 1 0) [0..<10000]"]
  by (simp add: permutes_entries_def Let_def del: upt_Suc upt_conv_Cons_Cons)

text \<open>
  Expiry is exact.  In every state of the manager, \<open>Expire\<close> removes the sessions whose last
  authenticated frame is older than the time to live and no other, reports how many, and closes
  exactly the egress sockets of those sessions.
\<close>

theorem expire_exact:
  assumes "m = fst (exec (mgr_step rng) NewManager evs)" "Expire m ttl now = (m', n, socks)"
  shows "(\<forall>ID. Get m' ID = (case Get m ID of None \<Rightarrow> None | Some s \<Rightarrow> if s_lastSeen s + ttl < now then None else Some s))
    \<and> Count m = Count m' + n \<and> m_firstWindows m' = m_firstWindows m
    \<and> set socks = {c. \<exists>s\<in>set (All m). s_lastSeen s + ttl < now \<and> s_egress s = Some c}"
proof -
  have inv: "distinct (map fst (m_sessions m))"
    using mgr.exec_inv [OF mgr_inv_New, of evs rng] assms(1) by (simp add: list_all_iff mgr_inv_def)
  have late: "IdleSince s < now - ttl \<longleftrightarrow> s_lastSeen s + ttl < now" for s by (auto simp: IdleSince_def)
  have "Get m' ID = (case Get m ID of None \<Rightarrow> None | Some s \<Rightarrow> if s_lastSeen s + ttl < now then None else Some s)" for ID
    using assms(2) map_of_filter_distinct [OF inv, of "\<lambda>s. \<not> s_lastSeen s + ttl < now" ID]
    by (auto simp: Expire_def Get_def Let_def late split: option.split)
  moreover have "Count m = Count m' + n"
    using assms(2) sum_length_filter_compl [of "\<lambda>(ID, s). s_lastSeen s + ttl < now" "m_sessions m"]
    by (auto simp: Expire_def Count_def Let_def late split_def)
  moreover have "set socks = {c. \<exists>s\<in>set (All m). s_lastSeen s + ttl < now \<and> s_egress s = Some c}"
    using assms(2) by (auto simp: Expire_def All_def Let_def late CloseEgress_def image_iff split: option.splits) force+
  ultimately show ?thesis using assms(2) by (auto simp: Expire_def Let_def)
qed

theorem expire_exact_witness:
  "Count (fst (exec (mgr_step id) NewManager [MPut (NewServerSession 7 plain_aead 3)]))
     = Count (fst (Expire (fst (exec (mgr_step id) NewManager [MPut (NewServerSession 7 plain_aead 3)])) 10 20)) + 1"
proof -
  let ?m = "fst (exec (mgr_step id) NewManager [MPut (NewServerSession 7 plain_aead 3)])"
  have "fst (snd (Expire ?m 10 20)) = 1"
    by (simp add: Put_def NewManager_def Expire_def Let_def IdleSince_def NewServerSession_def Touch_def)
  moreover have "Expire ?m 10 20 = (fst (Expire ?m 10 20), fst (snd (Expire ?m 10 20)), snd (snd (Expire ?m 10 20)))" by simp
  note conjunct1 [OF conjunct2 [OF expire_exact [OF refl this]]]
  with calculation show ?thesis by (simp only:)
qed

end
