(* ===== verification/Fec_Decoder.thy ===== *)
theory Fec_Decoder
  imports Fec_Encoder "HOL-Library.AList" "HOL-Library.Multiset"
begin

unbundle bit_operations_syntax

text \<open>
  The forward-error-correction decoder of \<open>internal/fec/fec.go\<close>: assembly of blocks,
  reconstruction, flushing on timeout, and the two loss counters (unrecovered loss per
  stream, raw loss from pass-through counters). Go maps are association lists with unique
  keys; the order in which \<open>Tick\<close> ranges over the blocks is an argument. \<open>None\<close> as the result
  of an operation is a run-time panic (a slice past the end of a shard).

  Shown here: a block is rebuilt exactly from any \<open>k\<close> of its frames among which is a parity frame, it is delivered at most
  once, every pass-through counter is booked exactly once, and the insertion sort sorts.
\<close>

section \<open>State\<close>

record streamKey =
  sk_sessionID :: u64
  sk_path :: string

record blockKey =
  bk_sessionID :: u64
  bk_path :: string
  bk_blockSeq :: u32

record blockState =
  b_k :: nat
  b_p :: nat
  b_seqs :: "u32 list"
  b_lens :: "u16 list"
  b_maxLen :: nat
  b_data :: "(u32 \<times> bytes) list"
  b_parity :: "(nat \<times> bytes) list"
  b_deadline :: "int option"
  b_flushed :: bool

record streamStat =
  ss_lost :: nat
  ss_received :: nat

record rawPathStat =
  ps_next :: nat
  ps_received :: nat
  ps_lost :: nat
  ps_pending :: "nat list"
  ps_gapSince :: "int option"

record Decoder =
  d_params :: Params
  d_blocks :: "(blockKey \<times> blockState) list"
  d_rsByParity :: "(nat \<times> rs_codec) list"
  d_lastFlushed :: "(streamKey \<times> u32) list"
  d_stats :: "(streamKey \<times> streamStat) list"
  d_recovered :: nat
  d_pathSeq :: "(streamKey \<times> rawPathStat) list"

definition pathGapWindow :: int where "pathGapWindow = 40 * Millisecond"

definition empty_block :: blockState where
  "empty_block = \<lparr>b_k = 0, b_p = 0, b_seqs = [], b_lens = [], b_maxLen = 0, b_data = [], b_parity = [],
     b_deadline = None, b_flushed = False\<rparr>"

definition zero_stat :: streamStat where
  "zero_stat = \<lparr>ss_lost = 0, ss_received = 0\<rparr>"

definition zero_path :: rawPathStat where
  "zero_path = \<lparr>ps_next = 0, ps_received = 0, ps_lost = 0, ps_pending = [], ps_gapSince = None\<rparr>"

definition NewDecoder :: "Params \<Rightarrow> Decoder" where
  "NewDecoder p =
     \<lparr>d_params = fill_params p, d_blocks = [], d_rsByParity = [], d_lastFlushed = [], d_stats = [],
      d_recovered = 0, d_pathSeq = []\<rparr>"

definition rsFor :: "rs_lib \<Rightarrow> Decoder \<Rightarrow> nat \<Rightarrow> nat \<Rightarrow> Decoder \<times> rs_codec option" where
  "rsFor rs_New d k p =
     (case map_of (d_rsByParity d) p of
        Some rs \<Rightarrow> (d, Some rs)
      | None \<Rightarrow>
          (case rs_New (int k) (int p) of
             None \<Rightarrow> (d, None)
           | Some rs \<Rightarrow> (d\<lparr>d_rsByParity := AList.update p rs (d_rsByParity d)\<rparr>, Some rs)))"

section \<open>Raw path loss\<close>

function drainPathPending :: "rawPathStat \<Rightarrow> rawPathStat" where
  "drainPathPending ps =
     (if ps_next ps \<in> set (ps_pending ps)
      then drainPathPending (ps\<lparr>ps_pending := removeAll (ps_next ps) (ps_pending ps),
                               ps_received := ps_received ps + 1, ps_next := ps_next ps + 1\<rparr>)
      else ps)"
  by pat_completeness auto
termination
  by (relation "measure (\<lambda>ps. length (ps_pending ps))") (auto intro: length_removeAll_less)

declare drainPathPending.simps [simp del]

definition observe_stat :: "rawPathStat \<Rightarrow> u32 \<Rightarrow> int \<Rightarrow> rawPathStat" where
  "observe_stat ps s now =
     (let c = unat s in
      if ps_next ps = 0 then ps\<lparr>ps_next := c + 1, ps_received := ps_received ps + 1\<rparr>
      else if c < ps_next ps then ps
      else if c = ps_next ps then
        (let ps = drainPathPending (ps\<lparr>ps_received := ps_received ps + 1, ps_next := c + 1\<rparr>)
         in if length (ps_pending ps) = 0 then ps\<lparr>ps_gapSince := None\<rparr> else ps)
      else
        (let ps = (if c \<in> set (ps_pending ps) then ps else ps\<lparr>ps_pending := c # ps_pending ps\<rparr>)
         in if ps_gapSince ps = None then ps\<lparr>ps_gapSince := Some now\<rparr> else ps))"

text \<open>
  \<open>observePathSeq\<close>. The early return on a duplicate stores nothing; storing the unchanged
  entry of a stream that exists is the same.
\<close>

definition observePathSeq :: "Decoder \<Rightarrow> u64 \<Rightarrow> string \<Rightarrow> u32 \<Rightarrow> int \<Rightarrow> Decoder" where
  "observePathSeq d sid path s now =
     (let sk = \<lparr>sk_sessionID = sid, sk_path = path\<rparr>;
          ps = lookup_def zero_path (d_pathSeq d) sk
      in d\<lparr>d_pathSeq := AList.update sk (observe_stat ps s now) (d_pathSeq d)\<rparr>)"

definition flush_gap :: "int \<Rightarrow> rawPathStat \<Rightarrow> rawPathStat" where
  "flush_gap now ps =
     (case ps_gapSince ps of
        None \<Rightarrow> ps
      | Some t \<Rightarrow>
          if ps_next ps = 0 \<or> now - t < pathGapWindow then ps
          else if length (ps_pending ps) = 0 then
            ps\<lparr>ps_lost := ps_lost ps + 1, ps_next := ps_next ps + 1, ps_gapSince := None\<rparr>
          else
            (let lo = Min (set (ps_pending ps));
                 ps = drainPathPending (ps\<lparr>ps_lost := ps_lost ps + (lo - ps_next ps), ps_next := lo\<rparr>)
             in if length (ps_pending ps) = 0 then ps\<lparr>ps_gapSince := None\<rparr> else ps\<lparr>ps_gapSince := Some now\<rparr>))"

definition flushPathGaps :: "Decoder \<Rightarrow> int \<Rightarrow> Decoder" where
  "flushPathGaps d now = d\<lparr>d_pathSeq := map (\<lambda>(sk, ps). (sk, flush_gap now ps)) (d_pathSeq d)\<rparr>"

definition TakePathStats :: "Decoder \<Rightarrow> u64 \<Rightarrow> string \<Rightarrow> Decoder \<times> nat \<times> nat" where
  "TakePathStats d sid path =
     (let sk = \<lparr>sk_sessionID = sid, sk_path = path\<rparr>;
          ps = lookup_def zero_path (d_pathSeq d) sk
      in (d\<lparr>d_pathSeq := AList.update sk (ps\<lparr>ps_lost := 0, ps_received := 0\<rparr>) (d_pathSeq d)\<rparr>,
          ps_lost ps, ps_received ps))"

section \<open>Sorting\<close>

text \<open>The inner loop moves element \<open>j\<close> down while it is smaller than its neighbour.\<close>

fun sift :: "u32 list \<Rightarrow> nat \<Rightarrow> u32 list" where
  "sift s 0 = s"
| "sift s (Suc j) = (if s ! Suc j < s ! j then sift (s[Suc j := s ! j, j := s ! Suc j]) j else s)"

definition sortUint32 :: "u32 list \<Rightarrow> u32 list" where
  "sortUint32 s = foldl sift s [1..<length s]"

section \<open>Blocks\<close>

definition addParity :: "Decoder \<Rightarrow> blockState \<Rightarrow> frame \<Rightarrow> int \<Rightarrow> blockState \<times> bool" where
  "addParity d st f now =
     (let pl = fPayload f in
      if length pl < parityHdrFixed then (st, False)
      else
        (let k = unat (get_u16 pl 0);
             pidx = unat (get_u16 pl 2);
             maxLen = unat (get_u16 pl 4);
             p = unat (get_u16 pl 6);
             need = parityHdrFixed + 4 * k + 2 * k + maxLen
         in if length pl < need then (st, False)
         else
           (let st = (if b_k st = 0 then
                        (let st = st\<lparr>b_k := k, b_p := p, b_maxLen := maxLen,
                               b_seqs := map (\<lambda>i. get_u32 pl (parityHdrFixed + 4 * i)) [0..<k],
                               b_lens := map (\<lambda>i. get_u16 pl (parityHdrFixed + 4 * k + 2 * i)) [0..<k]\<rparr>
                         in if length (b_data st) = 0 \<and> length (b_parity st) = 0
                            then st\<lparr>b_deadline := Some (now + BlockTimeout (d_params d))\<rparr> else st)
                      else st)
            in if b_k st \<noteq> k \<or> b_maxLen st \<noteq> maxLen then (st, False)
               else
                 (let shard = copy_at 0 (drop (parityHdrFixed + 4 * k + 2 * k) pl) (make_bytes maxLen)
                  in (st\<lparr>b_parity := AList.update pidx shard (b_parity st)\<rparr>, True)))))"

definition out_frame :: "u64 \<Rightarrow> u32 \<Rightarrow> bytes \<Rightarrow> frame" where
  "out_frame sid s payload = zero_frame\<lparr>fSessionID := sid, fSeq := s, fPayload := payload\<rparr>"

definition stream_of :: "blockKey \<Rightarrow> streamKey" where
  "stream_of key = \<lparr>sk_sessionID = bk_sessionID key, sk_path = bk_path key\<rparr>"

definition flush :: "Decoder \<Rightarrow> blockKey \<Rightarrow> blockState \<Rightarrow> Decoder \<times> frame list" where
  "flush d key st =
     (let sk = stream_of key;
          d = (if lookup_def 0 (d_lastFlushed d) sk < bk_blockSeq key
               then d\<lparr>d_lastFlushed := AList.update sk (bk_blockSeq key) (d_lastFlushed d)\<rparr> else d);
          d = (if 0 < length (b_seqs st) \<and> length (b_data st) < length (b_seqs st)
               then (let s = lookup_def zero_stat (d_stats d) sk
                     in d\<lparr>d_stats := AList.update sk
                            (s\<lparr>ss_lost := ss_lost s + (length (b_seqs st) - length (b_data st))\<rparr>) (d_stats d)\<rparr>)
               else d);
          order = (if length (b_seqs st) = 0 then sortUint32 (map fst (b_data st)) else b_seqs st);
          out = List.map_filter (\<lambda>s. map_option (out_frame (bk_sessionID key) s) (map_of (b_data st) s)) order
      in (d\<lparr>d_blocks := AList.delete key (d_blocks d)\<rparr>, out))"

text \<open>The shard list handed to the codec: empty where nothing has arrived.\<close>

definition recv_shards :: "blockState \<Rightarrow> bytes list" where
  "recv_shards st =
     (let n = b_k st + b_p st;
          shards = map (\<lambda>s. case map_of (b_data st) s of
                      None \<Rightarrow> [] | Some payload \<Rightarrow> copy_at 0 payload (make_bytes (b_maxLen st))) (b_seqs st)
                   @ replicate (n - length (b_seqs st)) []
      in foldl (\<lambda>sh (pidx, shard). if b_k st + pidx < n then sh[b_k st + pidx := shard] else sh)
           shards (b_parity st))"

text \<open>
  The loop that stores the rebuilt payloads; a length beyond the shard panics. Go slices up to the
  capacity of the shard, which the codec library does not document; here it is the length.
\<close>

fun fill_loop :: "(u32 \<times> bytes) list \<Rightarrow> nat \<Rightarrow> (u32 \<times> u16 \<times> bytes) list \<Rightarrow> ((u32 \<times> bytes) list \<times> nat) option" where
  "fill_loop data rec [] = Some (data, rec)"
| "fill_loop data rec ((s, l, shard) # rest) =
     (case map_of data s of
        Some _ \<Rightarrow> fill_loop data rec rest
      | None \<Rightarrow>
          if length shard < unat l then None
          else fill_loop (AList.update s (take (unat l) shard) data) (rec + 1) rest)"

definition reconstruct :: "rs_lib \<Rightarrow> Decoder \<Rightarrow> blockKey \<Rightarrow> blockState \<Rightarrow> (Decoder \<times> blockState \<times> frame list) option" where
  "reconstruct rs_New d key st =
     (case rsFor rs_New d (b_k st) (b_p st) of
        (d, None) \<Rightarrow> Some (d, st, [])
      | (d, Some rs) \<Rightarrow>
          (case rs_Reconstruct rs (recv_shards st) of
             None \<Rightarrow> Some (d, st, [])
           | Some shards \<Rightarrow>
               (case fill_loop (b_data st) (d_recovered d) (zip (b_seqs st) (zip (b_lens st) shards)) of
                  None \<Rightarrow> None
                | Some (data, rec) \<Rightarrow>
                    (let st = st\<lparr>b_data := data\<rparr>;
                         (d, out) = flush (d\<lparr>d_recovered := rec\<rparr>) key st
                     in Some (d, st\<lparr>b_flushed := True\<rparr>, out)))))"

definition maybeDeliver :: "rs_lib \<Rightarrow> Decoder \<Rightarrow> blockKey \<Rightarrow> blockState \<Rightarrow> (Decoder \<times> blockState \<times> frame list) option" where
  "maybeDeliver rs_New d key st =
     (if b_k st = 0 then Some (d, st, [])
      else if length (b_data st) + length (b_parity st) < b_k st then Some (d, st, [])
      else if length (b_data st) = b_k st then
        (let (d, out) = flush d key st in Some (d, st\<lparr>b_flushed := True\<rparr>, out))
      else reconstruct rs_New d key st)"

text \<open>
  \<open>blockState\<close> is shared by pointer: after the call the block, if it is still in the table,
  has the state the callee left.
\<close>

definition store_block :: "blockKey \<Rightarrow> Decoder \<times> blockState \<times> 'a \<Rightarrow> Decoder \<times> 'a" where
  "store_block key r =
     (case r of (d, st, out) \<Rightarrow>
        (if map_of (d_blocks d) key \<noteq> None then d\<lparr>d_blocks := AList.update key st (d_blocks d)\<rparr> else d, out))"

definition block_key :: "Decoder \<Rightarrow> string \<Rightarrow> frame \<Rightarrow> blockKey" where
  "block_key d path f =
     \<lparr>bk_sessionID = fSessionID f, bk_path = (if CrossPath (d_params d) then [] else path), bk_blockSeq = fBlockSeq f\<rparr>"

definition push_data :: "Decoder \<Rightarrow> blockKey \<Rightarrow> blockState \<Rightarrow> frame \<Rightarrow> int \<Rightarrow> Decoder \<times> blockState" where
  "push_data d key st f now =
     (let st = (if length (b_data st) = 0 \<and> length (b_parity st) = 0
                then st\<lparr>b_deadline := Some (now + BlockTimeout (d_params d))\<rparr> else st)
      in if map_of (b_data st) (fSeq f) = None then
           (let st = st\<lparr>b_data := AList.update (fSeq f) (fPayload f) (b_data st)\<rparr>;
                s = lookup_def zero_stat (d_stats d) (stream_of key)
            in (d\<lparr>d_stats := AList.update (stream_of key) (s\<lparr>ss_received := ss_received s + 1\<rparr>) (d_stats d)\<rparr>, st))
         else (d, st))"

definition Decoder_Push :: "rs_lib \<Rightarrow> Decoder \<Rightarrow> string \<Rightarrow> frame \<Rightarrow> int \<Rightarrow> (Decoder \<times> frame list) option" where
  "Decoder_Push rs_New d path f now =
     (if HasFlag f FlagPassSeq \<and> \<not> HasFlag f FlagFECParity
      then Some (observePathSeq d (fSessionID f) path (fBlockSeq f) now, [f])
      else if \<not> Enabled (d_params d) then
        (if HasFlag f FlagFECParity then Some (d, []) else Some (d, [f]))
      else if \<not> HasFlag f FlagFECParity \<and> fBlockSeq f = 0 then Some (d, [f])
      else
        (let key = block_key d path f in
         if map_of (d_blocks d) key = None \<and> bk_blockSeq key \<le> lookup_def 0 (d_lastFlushed d) (stream_of key)
         then Some (d, [])
         else
           (let st = lookup_def empty_block (d_blocks d) key;
                d = d\<lparr>d_blocks := AList.update key st (d_blocks d)\<rparr>
            in if b_flushed st then Some (d, [])
               else if HasFlag f FlagFECParity then
                 (case addParity d st f now of
                    (st, False) \<Rightarrow> Some (store_block key (d, st, []))
                  | (st, True) \<Rightarrow> map_option (store_block key) (maybeDeliver rs_New d key st))
               else
                 (case push_data d key st f now of
                    (d, st) \<Rightarrow> map_option (store_block key) (maybeDeliver rs_New d key st)))))"

text \<open>\<open>order\<close> lists the blocks as the range statement visits them.\<close>

fun tick_loop :: "Decoder \<Rightarrow> int \<Rightarrow> blockKey list \<Rightarrow> Decoder \<times> frame list" where
  "tick_loop d now [] = (d, [])"
| "tick_loop d now (key # keys) =
     (case map_of (d_blocks d) key of
        None \<Rightarrow> tick_loop d now keys
      | Some st \<Rightarrow>
          if b_flushed st \<or> (case b_deadline st of None \<Rightarrow> False | Some t \<Rightarrow> now < t) then tick_loop d now keys
          else
            (let (d, out) = flush d key st;
                 (d, rest) = tick_loop d now keys
             in (d, out @ rest)))"

definition Decoder_Tick :: "Decoder \<Rightarrow> int \<Rightarrow> blockKey list \<Rightarrow> Decoder \<times> frame list" where
  "Decoder_Tick d now order =
     (let d = flushPathGaps d now
      in if \<not> Enabled (d_params d) then (d, []) else tick_loop d now order)"

definition TakeStreamStats :: "Decoder \<Rightarrow> u64 \<Rightarrow> string \<Rightarrow> Decoder \<times> nat \<times> nat" where
  "TakeStreamStats d sid path =
     (let sk = \<lparr>sk_sessionID = sid, sk_path = path\<rparr>;
          s = lookup_def zero_stat (d_stats d) sk
      in (d\<lparr>d_stats := AList.update sk zero_stat (d_stats d)\<rparr>, ss_lost s, ss_received s))"

definition Decoder_Stats :: "Decoder \<Rightarrow> nat \<times> nat" where
  "Decoder_Stats d = (sum_list (map (ss_lost \<circ> snd) (d_stats d)), d_recovered d)"

section \<open>The sort\<close>

lemma sorted_unique: "sorted xs \<Longrightarrow> sorted ys \<Longrightarrow> mset xs = mset ys \<Longrightarrow> xs = (ys :: 'a :: linorder list)"
  by (metis properties_for_sort)

lemma insort_snoc_less: "x \<le> y \<Longrightarrow> insort x (ys @ [y]) = insort x ys @ [y]"
  by (induction ys) auto

lemma insort_snoc_ge: "sorted ys \<Longrightarrow> (\<And>z. z \<in> set ys \<Longrightarrow> z \<le> x) \<Longrightarrow> insort x ys = ys @ [x]"
  by (rule sorted_unique) (auto simp: sorted_insort sorted_append)

lemma sift_insort:
  "j < length s \<Longrightarrow> sorted (take j s) \<Longrightarrow> sift s j = insort (s ! j) (take j s) @ drop (Suc j) s"
proof (induction s j rule: sift.induct)
  case (1 s)
  then show ?case by (simp add: Cons_nth_drop_Suc)
next
  case (2 s j)
  let ?t = "s[Suc j := s ! j, j := s ! Suc j]"
  have take: "take (Suc j) s = take j s @ [s ! j]" using 2(2) by (simp add: take_Suc_conv_app_nth)
  show ?case
  proof (cases "s ! Suc j < s ! j")
    case True
    have "sorted (take j ?t)" using 2(3) take by (simp add: sorted_append)
    then have "sift ?t j = insort (?t ! j) (take j ?t) @ drop (Suc j) ?t" using 2(1) True 2(2) by simp
    moreover have "drop (Suc j) ?t = s ! j # drop (Suc (Suc j)) s"
      using 2(2) Cons_nth_drop_Suc [of "Suc j" s, symmetric] by (simp add: drop_update_swap)
    ultimately show ?thesis using True 2(2) take by (simp add: insort_snoc_less)
  next
    case False
    have "z \<le> s ! Suc j" if "z \<in> set (take (Suc j) s)" for z
      using that False 2(3) take by (auto simp: sorted_append)
    then have "insort (s ! Suc j) (take (Suc j) s) = take (Suc j) s @ [s ! Suc j]"
      using 2(3) by (intro insort_snoc_ge)
    then show ?thesis using False 2(2) by (simp add: Cons_nth_drop_Suc)
  qed
qed

lemma sort_prefix:
  "i \<le> length s \<Longrightarrow> 0 < i \<Longrightarrow> foldl sift s [1..<i] = sort (take i s) @ drop i s"
proof (induction i)
  case (Suc i)
  show ?case
  proof (cases "i = 0")
    case True
    with Suc.prems show ?thesis by (cases s) simp_all
  next
    case False
    let ?t = "sort (take i s) @ drop i s"
    have "foldl sift s [1..<Suc i] = sift ?t i" using Suc False by simp
    also have "\<dots> = insort (?t ! i) (take i ?t) @ drop (Suc i) ?t"
      using Suc.prems by (intro sift_insort) simp_all
    also have "\<dots> = insort (s ! i) (sort (take i s)) @ drop (Suc i) s"
      using Suc.prems by (simp add: nth_append)
    also have "insort (s ! i) (sort (take i s)) = sort (take (Suc i) s)"
      using Suc.prems by (intro sorted_unique) (simp_all add: sorted_insort take_Suc_conv_app_nth)
    finally show ?thesis .
  qed
qed simp

lemma sortUint32_sort: "sortUint32 s = sort s"
  using sort_prefix [of "length s" s] by (cases s) (simp_all add: sortUint32_def del: upt_Suc)

section \<open>Accounting of raw loss\<close>

datatype path_event = PObserve u32 int | PFlush int | PTake

fun path_step :: "rawPathStat \<Rightarrow> path_event \<Rightarrow> rawPathStat \<times> (nat \<times> nat) list" where
  "path_step ps (PObserve s now) = (observe_stat ps s now, [])"
| "path_step ps (PFlush now) = (flush_gap now ps, [])"
| "path_step ps PTake = (ps\<lparr>ps_lost := 0, ps_received := 0\<rparr>, [(ps_lost ps, ps_received ps)])"

definition path_inv :: "nat \<Rightarrow> rawPathStat \<Rightarrow> bool" where
  "path_inv c0 ps \<longleftrightarrow> c0 < ps_next ps \<and> distinct (ps_pending ps) \<and> (\<forall>c\<in>set (ps_pending ps). ps_next ps < c) \<and>
     (ps_gapSince ps = None \<longleftrightarrow> ps_pending ps = [])"

lemma drain_spec:
  assumes "distinct (ps_pending ps)" "\<And>c. c \<in> set (ps_pending ps) \<Longrightarrow> ps_next ps \<le> c"
  shows "distinct (ps_pending (drainPathPending ps))
    \<and> (\<forall>c\<in>set (ps_pending (drainPathPending ps)). ps_next (drainPathPending ps) < c)
    \<and> ps_next ps \<le> ps_next (drainPathPending ps)
    \<and> ps_received (drainPathPending ps) + ps_next ps = ps_received ps + ps_next (drainPathPending ps)
    \<and> ps_lost (drainPathPending ps) = ps_lost ps \<and> ps_gapSince (drainPathPending ps) = ps_gapSince ps
    \<and> set (ps_pending ps) = {ps_next ps..<ps_next (drainPathPending ps)} \<union> set (ps_pending (drainPathPending ps))"
  using assms
proof (induction ps rule: drainPathPending.induct)
  case (1 ps)
  show ?case
  proof (cases "ps_next ps \<in> set (ps_pending ps)")
    case True
    let ?ps = "ps\<lparr>ps_pending := removeAll (ps_next ps) (ps_pending ps),
        ps_received := ps_received ps + 1, ps_next := ps_next ps + 1\<rparr>"
    have "drainPathPending ps = drainPathPending ?ps" using True by (simp add: drainPathPending.simps [of ps])
    moreover have "distinct (ps_pending ?ps)" using 1(2) by (simp add: distinct_removeAll)
    moreover have "ps_next ?ps \<le> c" if "c \<in> set (ps_pending ?ps)" for c
      using 1(3) [of c] that by auto
    ultimately obtain q where q: "drainPathPending ps = q" "distinct (ps_pending q)" "\<forall>c\<in>set (ps_pending q). ps_next q < c"
      "Suc (ps_next ps) \<le> ps_next q" "ps_received q + Suc (ps_next ps) = Suc (ps_received ps) + ps_next q"
      "ps_lost q = ps_lost ps" "ps_gapSince q = ps_gapSince ps"
      "set (ps_pending ps) - {ps_next ps} = {Suc (ps_next ps)..<ps_next q} \<union> set (ps_pending q)"
      using 1(1) [OF True] by simp
    have "{ps_next ps..<ps_next q} = insert (ps_next ps) {Suc (ps_next ps)..<ps_next q}"
      using q(4) by auto
    then have "set (ps_pending ps) = {ps_next ps..<ps_next q} \<union> set (ps_pending q)"
      using insert_Diff [OF True] by (simp only: q(8) Un_insert_left)
    then show ?thesis using q(2-7) unfolding q(1) by (intro conjI) simp_all
  next
    case False
    then show ?thesis using 1(2,3) by (auto simp: drainPathPending.simps [of ps] order_le_less)
  qed
qed

lemma observe_inv:
  assumes "path_inv c0 ps"
  shows "path_inv c0 (observe_stat ps s now)
    \<and> ps_lost (observe_stat ps s now) + ps_received (observe_stat ps s now) + ps_next ps
      = ps_lost ps + ps_received ps + ps_next (observe_stat ps s now)"
proof (cases "unat s = ps_next ps")
  case True
  let ?ps = "ps\<lparr>ps_received := ps_received ps + 1, ps_next := unat s + 1\<rparr>"
  have "distinct (ps_pending ?ps)" "\<And>c. c \<in> set (ps_pending ?ps) \<Longrightarrow> ps_next ?ps \<le> c"
    using assms True by (auto simp: path_inv_def)
  note d = drain_spec [OF this]
  have "ps_gapSince ps = None \<Longrightarrow> ps_pending (drainPathPending ?ps) = []"
    using d assms by (auto simp: path_inv_def)
  then show ?thesis using d assms True by (auto simp: observe_stat_def Let_def path_inv_def)
next
  case False
  then show ?thesis using assms by (auto simp: observe_stat_def Let_def path_inv_def)
qed

lemma flush_gap_inv:
  assumes "path_inv c0 ps"
  shows "path_inv c0 (flush_gap now ps)
    \<and> ps_lost (flush_gap now ps) + ps_received (flush_gap now ps) + ps_next ps
      = ps_lost ps + ps_received ps + ps_next (flush_gap now ps)"
proof (cases "ps_pending ps = [] \<or> (\<exists>t. ps_gapSince ps = Some t \<and> now - t < pathGapWindow)")
  case True
  then show ?thesis using assms by (auto simp: flush_gap_def path_inv_def split: option.split)
next
  case False
  let ?lo = "Min (set (ps_pending ps))"
  let ?ps = "ps\<lparr>ps_lost := ps_lost ps + (?lo - ps_next ps), ps_next := ?lo\<rparr>"
  have lo: "?lo \<in> set (ps_pending ps)" "ps_next ps < ?lo" using False assms by (auto simp: path_inv_def)
  have "distinct (ps_pending ?ps)" "\<And>c. c \<in> set (ps_pending ?ps) \<Longrightarrow> ps_next ?ps \<le> c"
    using assms by (auto simp: path_inv_def)
  note d = drain_spec [OF this]
  define q where "q = drainPathPending ?ps"
  have g: "flush_gap now ps = (if ps_pending q = [] then q\<lparr>ps_gapSince := None\<rparr> else q\<lparr>ps_gapSince := Some now\<rparr>)"
    using False assms by (auto simp: flush_gap_def path_inv_def Let_def q_def split: option.split)
  have q: "distinct (ps_pending q)" "\<forall>c\<in>set (ps_pending q). ps_next q < c" "?lo \<le> ps_next q"
    "ps_received q + ?lo = ps_received ps + ps_next q" "ps_lost q = ps_lost ps + (?lo - ps_next ps)"
    using d unfolding q_def by simp_all
  have "c0 < ps_next q" using q(3) lo(2) assms unfolding path_inv_def by linarith
  then have "path_inv c0 (flush_gap now ps)" using q(1,2) by (simp add: g path_inv_def)
  moreover have "ps_lost q + ps_received q + ps_next ps = ps_lost ps + ps_received ps + ps_next q"
    using q(4,5) lo by simp
  ultimately show ?thesis by (simp add: g)
qed

lemma path_run:
  "path_inv c0 ps \<Longrightarrow>
     path_inv c0 (fst (exec path_step ps evs)) \<and>
     (\<Sum>(l, r)\<leftarrow>snd (exec path_step ps evs). l + r) + ps_lost (fst (exec path_step ps evs))
       + ps_received (fst (exec path_step ps evs)) + ps_next ps
     = ps_lost ps + ps_received ps + ps_next (fst (exec path_step ps evs))"
proof (induction evs arbitrary: ps)
  case (Cons ev evs)
  let ?ps = "fst (path_step ps ev)"
  have one: "path_inv c0 ?ps \<and> (\<Sum>(l, r)\<leftarrow>snd (path_step ps ev). l + r) + ps_lost ?ps + ps_received ?ps + ps_next ps
      = ps_lost ps + ps_received ps + ps_next ?ps"
    using Cons.prems observe_inv flush_gap_inv by (cases ev) (auto simp: path_inv_def)
  with Cons.IH [of ?ps] show ?case by (simp add: Let_def case_prod_unfold)
qed simp

section \<open>Delivery at most once\<close>

definition delivered :: "blockKey \<Rightarrow> Decoder \<Rightarrow> bool" where
  "delivered key d \<longleftrightarrow>
     map_of (d_blocks d) key = None \<and> bk_blockSeq key \<le> lookup_def 0 (d_lastFlushed d) (stream_of key)"

lemma flush_delivers: "delivered key (fst (flush d key st))"
  by (simp add: delivered_def flush_def Let_def delete_conv' not_less)

lemma flush_keeps: "delivered key d \<Longrightarrow> delivered key (fst (flush d key' st))"
  by (auto simp: delivered_def flush_def Let_def delete_conv')

lemma flush_frame [simp]: "d_params (fst (flush d key st)) = d_params d"
  "d_blocks (fst (flush d key st)) = AList.delete key (d_blocks d)"
  by (simp_all add: flush_def Let_def)

lemma rsFor_frame:
  assumes "rsFor rs_New d k p = (d', rs)"
  shows "d_blocks d' = d_blocks d" "d_lastFlushed d' = d_lastFlushed d" "d_params d' = d_params d"
    "d_recovered d' = d_recovered d"
  using assms by (auto simp: rsFor_def split: option.splits)

text \<open>A call either leaves the table of blocks as it was or ends with a flush of this block.\<close>

lemma reconstruct_cases:
  assumes "reconstruct rs_New d key st = Some (d', st', out)"
  shows "(d_blocks d' = d_blocks d \<and> d_lastFlushed d' = d_lastFlushed d \<and> d_params d' = d_params d \<and> out = [])
    \<or> (\<exists>d1 st1. d_blocks d1 = d_blocks d \<and> d_lastFlushed d1 = d_lastFlushed d \<and> d_params d1 = d_params d
          \<and> flush d1 key st1 = (d', out))"
proof -
  obtain d1 rs where rs: "rsFor rs_New d (b_k st) (b_p st) = (d1, rs)" by fastforce
  note f = rsFor_frame [OF rs]
  show ?thesis
  proof (cases "\<exists>r shards data rec. rs = Some r \<and> rs_Reconstruct r (recv_shards st) = Some shards
      \<and> fill_loop (b_data st) (d_recovered d1) (zip (b_seqs st) (zip (b_lens st) shards)) = Some (data, rec)")
    case True
    then obtain data rec where "flush (d1\<lparr>d_recovered := rec\<rparr>) key (st\<lparr>b_data := data\<rparr>) = (d', out)"
      using assms by (auto simp: reconstruct_def rs Let_def split: prod.splits)
    moreover have "d_blocks (d1\<lparr>d_recovered := rec\<rparr>) = d_blocks d" "d_lastFlushed (d1\<lparr>d_recovered := rec\<rparr>) = d_lastFlushed d"
      "d_params (d1\<lparr>d_recovered := rec\<rparr>) = d_params d" using f by simp_all
    ultimately show ?thesis by blast
  next
    case False
    then show ?thesis using assms f by (auto simp: reconstruct_def rs split: option.splits)
  qed
qed

lemma maybeDeliver_cases:
  assumes "maybeDeliver rs_New d key st = Some (d', st', out)"
  shows "(d_blocks d' = d_blocks d \<and> d_lastFlushed d' = d_lastFlushed d \<and> d_params d' = d_params d \<and> out = [])
    \<or> (\<exists>d1 st1. d_blocks d1 = d_blocks d \<and> d_lastFlushed d1 = d_lastFlushed d \<and> d_params d1 = d_params d
          \<and> flush d1 key st1 = (d', out))"
  using assms reconstruct_cases [of rs_New d key st d' st' out]
  by (auto simp: maybeDeliver_def Let_def split: if_splits prod.splits)

lemma maybeDeliver_delivered:
  assumes "maybeDeliver rs_New d key st = Some r"
  shows "delivered key' d \<Longrightarrow> key' \<noteq> key \<Longrightarrow> delivered key' (fst (store_block key r))"
    and "snd (snd r) \<noteq> [] \<Longrightarrow> delivered key (fst (store_block key r))"
    and "d_params (fst (store_block key r)) = d_params d"
proof -
  obtain d' st' out where r: "r = (d', st', out)" by (metis prod.collapse)
  note c = maybeDeliver_cases [OF assms [unfolded r]]
  have keep: "delivered key' d1 = delivered key' d" if "d_blocks d1 = d_blocks d" "d_lastFlushed d1 = d_lastFlushed d" for d1
    using that by (simp add: delivered_def)
  have fl: "delivered key d'" "delivered key' d \<Longrightarrow> delivered key' d'" "d_params d' = d_params d1" "map_of (d_blocks d') key = None"
    if "d_blocks d1 = d_blocks d" "d_lastFlushed d1 = d_lastFlushed d" "flush d1 key st1 = (d', out)" for d1 st1
    using that flush_delivers [of key d1 st1] flush_keeps [of key' d1 key st1] keep [OF that(1,2)]
      flush_frame [of d1 key st1] by (simp_all add: delete_conv')
  show "delivered key' d \<Longrightarrow> key' \<noteq> key \<Longrightarrow> delivered key' (fst (store_block key r))"
    using c fl(2,4) keep by (auto simp: r store_block_def delivered_def update_conv')
  show "delivered key (fst (store_block key r))" if ne: "snd (snd r) \<noteq> []"
  proof -
    obtain d1 st1 where "d_blocks d1 = d_blocks d" "d_lastFlushed d1 = d_lastFlushed d" "flush d1 key st1 = (d', out)"
      using c ne by (auto simp: r)
    note fl = fl(1,4) [OF this]
    show ?thesis using fl by (simp add: r store_block_def)
  qed
  show "d_params (fst (store_block key r)) = d_params d"
    using c fl(3) by (auto simp: r store_block_def)
qed

text \<open>A frame that belongs to a block: neither pass-through nor from a sender without coding.\<close>

definition coded :: "frame \<Rightarrow> bool" where
  "coded f \<longleftrightarrow> HasFlag f FlagFECParity \<or> \<not> HasFlag f FlagPassSeq \<and> fBlockSeq f \<noteq> 0"

lemma uncoded_Push:
  "Enabled (d_params d) \<Longrightarrow> \<not> coded f \<Longrightarrow> Decoder_Push rs_New d path f now =
     Some (if HasFlag f FlagPassSeq then observePathSeq d (fSessionID f) path (fBlockSeq f) now else d, [f])"
  by (cases "HasFlag f FlagPassSeq") (auto simp: Decoder_Push_def coded_def)

lemma push_data_frame:
  assumes "push_data d key st f now = (d', st')"
  shows "d_blocks d' = d_blocks d" "d_lastFlushed d' = d_lastFlushed d" "d_params d' = d_params d"
    "d_rsByParity d' = d_rsByParity d"
  using assms by (auto simp: push_data_def Let_def split: if_splits)

lemma coded_Push_cases:
  assumes "Enabled (d_params d)" "coded f" "key = block_key d path f" "Decoder_Push rs_New d path f now = Some (d', out)"
  shows "(delivered key d \<and> d' = d \<and> out = [])
    \<or> (\<not> delivered key d \<and> (\<exists>d1 st1. d_lastFlushed d1 = d_lastFlushed d \<and> d_params d1 = d_params d
         \<and> (\<forall>key'. key' \<noteq> key \<longrightarrow> map_of (d_blocks d1) key' = map_of (d_blocks d) key')
         \<and> (d' = d1 \<and> out = [] \<or> d' = fst (store_block key (d1, st1, [] :: frame list)) \<and> out = []
            \<or> (\<exists>r. maybeDeliver rs_New d1 key st1 = Some r \<and> store_block key r = (d', out)))))"
proof (cases "delivered key d")
  case True
  then show ?thesis using assms by (auto simp: Decoder_Push_def Let_def coded_def delivered_def)
next
  case False
  let ?st = "lookup_def empty_block (d_blocks d) key"
  let ?d = "d\<lparr>d_blocks := AList.update key ?st (d_blocks d)\<rparr>"
  have push: "(if b_flushed ?st then Some (?d, [])
               else if HasFlag f FlagFECParity then
                 (case addParity ?d ?st f now of
                    (st, False) \<Rightarrow> Some (store_block key (?d, st, []))
                  | (st, True) \<Rightarrow> map_option (store_block key) (maybeDeliver rs_New ?d key st))
               else
                 (case push_data ?d key ?st f now of
                    (d, st) \<Rightarrow> map_option (store_block key) (maybeDeliver rs_New d key st))) = Some (d', out)"
    using assms False by (auto simp: Decoder_Push_def Let_def coded_def delivered_def)
  obtain st1 ok where addp: "addParity ?d ?st f now = (st1, ok)" by fastforce
  obtain d2 st2 where pushd: "push_data ?d key ?st f now = (d2, st2)" by fastforce
  have d: "d_lastFlushed ?d = d_lastFlushed d" "d_params ?d = d_params d"
    "\<forall>key'. key' \<noteq> key \<longrightarrow> map_of (d_blocks ?d) key' = map_of (d_blocks d) key'"
    by (simp_all add: update_conv')
  consider (fl) "b_flushed ?st" "d' = ?d" "out = []"
    | (bad) "d' = fst (store_block key (?d, st1, [] :: frame list))" "out = []"
    | (par) r where "maybeDeliver rs_New ?d key st1 = Some r" "store_block key r = (d', out)"
    | (dat) r where "maybeDeliver rs_New d2 key st2 = Some r" "store_block key r = (d', out)"
  proof (cases "b_flushed ?st")
    case True
    with push fl show thesis by simp
  next
    case nf: False
    show thesis
    proof (cases "HasFlag f FlagFECParity")
      case True
      with push nf have r: "(if ok then map_option (store_block key) (maybeDeliver rs_New ?d key st1)
          else Some (store_block key (?d, st1, []))) = Some (d', out)"
        by (cases ok) (simp_all only: addp if_False if_True prod.case bool.case)
      show thesis
      proof (cases ok)
        case True
        with r par show thesis by auto
      next
        case False
        with r have "store_block key (?d, st1, []) = (d', out)" by simp
        then show thesis using bad by (simp add: store_block_def)
      qed
    next
      case False
      with push nf have "map_option (store_block key) (maybeDeliver rs_New d2 key st2) = Some (d', out)"
        by (simp only: pushd if_False prod.case)
      then show thesis using dat by auto
    qed
  qed
  then show ?thesis
  proof cases
    case fl
    with False d show ?thesis by blast
  next
    case bad
    with False d show ?thesis by blast
  next
    case par
    with False d show ?thesis by blast
  next
    case dat
    with False d push_data_frame [OF pushd] show ?thesis
      by (metis (no_types, lifting))
  qed
qed

datatype dec_event =
    DPush string frame int
  | DTick int "blockKey list"
  | DTakeStream u64 string
  | DTakePath u64 string

text \<open>A panic ends the run.\<close>

fun dec_step :: "rs_lib \<Rightarrow> Decoder option \<Rightarrow> dec_event \<Rightarrow> Decoder option \<times> frame list" where
  "dec_step rs_New None ev = (None, [])"
| "dec_step rs_New (Some d) (DPush path f now) =
     (case Decoder_Push rs_New d path f now of None \<Rightarrow> (None, []) | Some (d, out) \<Rightarrow> (Some d, out))"
| "dec_step rs_New (Some d) (DTick now order) = (let (d, out) = Decoder_Tick d now order in (Some d, out))"
| "dec_step rs_New (Some d) (DTakeStream sid path) = (Some (fst (TakeStreamStats d sid path)), [])"
| "dec_step rs_New (Some d) (DTakePath sid path) = (Some (fst (TakePathStats d sid path)), [])"

definition done_inv :: "blockKey \<Rightarrow> bool \<Rightarrow> Decoder option \<Rightarrow> bool" where
  "done_inv key cross d \<longleftrightarrow>
     (case d of None \<Rightarrow> True | Some d \<Rightarrow> delivered key d \<and> Enabled (d_params d) \<and> CrossPath (d_params d) = cross)"

lemma tick_loop_keeps:
  "delivered key d \<Longrightarrow> delivered key (fst (tick_loop d now keys))"
  "d_params (fst (tick_loop d now keys)) = d_params d"
proof -
  have "(delivered key d \<longrightarrow> delivered key (fst (tick_loop d now keys))) \<and> d_params (fst (tick_loop d now keys)) = d_params d"
  proof (induction keys arbitrary: d)
    case (Cons k keys)
    then show ?case
      using flush_keeps flush_frame(1) by (auto simp: Let_def case_prod_unfold split: option.splits)
  qed simp
  then show "delivered key d \<Longrightarrow> delivered key (fst (tick_loop d now keys))"
    "d_params (fst (tick_loop d now keys)) = d_params d" by blast+
qed

lemma Push_keeps:
  assumes "delivered key d" "Enabled (d_params d)" "Decoder_Push rs_New d path f now = Some (d', out)"
  shows "delivered key d' \<and> d_params d' = d_params d"
proof (cases "coded f")
  case False
  then show ?thesis
    using assms by (auto simp: uncoded_Push observePathSeq_def Let_def delivered_def)
next
  case True
  let ?key = "block_key d path f"
  from coded_Push_cases [OF assms(2) True refl assms(3)] show ?thesis
  proof (elim disjE conjE exE)
    assume "d' = d" then show ?thesis using assms(1) by simp
  next
    fix d1 :: Decoder and st1
    assume nd: "\<not> delivered ?key d" and f: "d_lastFlushed d1 = d_lastFlushed d" "d_params d1 = d_params d"
      "\<forall>key'. key' \<noteq> ?key \<longrightarrow> map_of (d_blocks d1) key' = map_of (d_blocks d) key'"
    have ne: "key \<noteq> ?key" using nd assms(1) by auto
    then have d1: "delivered key d1" using f assms(1) by (simp add: delivered_def)
    { assume "d' = d1" then show ?thesis using d1 f(2) by simp }
    { assume "d' = fst (store_block ?key (d1, st1, []))"
      then show ?thesis using d1 f(2) ne by (auto simp: store_block_def delivered_def update_conv') }
    { fix r assume "maybeDeliver rs_New d1 ?key st1 = Some r" "store_block ?key r = (d', out)"
      then show ?thesis
        using maybeDeliver_delivered(1) [of rs_New d1 ?key st1 r key]
          maybeDeliver_delivered(3) [of rs_New d1 ?key st1 r] d1 ne f(2) by simp }
  qed
qed

lemma Tick_keeps:
  "delivered key d \<Longrightarrow> delivered key (fst (Decoder_Tick d now order))"
  "d_params (fst (Decoder_Tick d now order)) = d_params d"
proof -
  have "d_params (flushPathGaps d now) = d_params d" by (simp add: flushPathGaps_def)
  then show "d_params (fst (Decoder_Tick d now order)) = d_params d"
    by (simp add: Decoder_Tick_def Let_def tick_loop_keeps(2))
  assume "delivered key d"
  then have "delivered key (flushPathGaps d now)" by (simp add: delivered_def flushPathGaps_def)
  then show "delivered key (fst (Decoder_Tick d now order))"
    by (simp add: Decoder_Tick_def Let_def tick_loop_keeps(1))
qed

lemma Take_keeps:
  "delivered key d \<Longrightarrow> delivered key (fst (TakeStreamStats d sid path))"
  "delivered key d \<Longrightarrow> delivered key (fst (TakePathStats d sid path))"
  "d_params (fst (TakeStreamStats d sid path)) = d_params d" "d_params (fst (TakePathStats d sid path)) = d_params d"
  by (simp_all add: delivered_def TakeStreamStats_def TakePathStats_def Let_def)

lemma done_inv_step:
  assumes "done_inv key cross s"
  shows "done_inv key cross (fst (dec_step rs_New s ev))"
proof (cases s)
  case None
  then show ?thesis by (simp add: done_inv_def)
next
  case (Some d)
  then have d: "delivered key d" "Enabled (d_params d)" "CrossPath (d_params d) = cross"
    using assms by (simp_all add: done_inv_def)
  show ?thesis
  proof (cases ev)
    case (DPush path f now)
    show ?thesis
    proof (cases "Decoder_Push rs_New d path f now")
      case (Some r)
      then have "delivered key (fst r) \<and> d_params (fst r) = d_params d"
        using Push_keeps [OF d(1,2), of rs_New path f now "fst r" "snd r"] by simp
      then show ?thesis using DPush \<open>s = Some d\<close> Some d by (simp add: done_inv_def case_prod_unfold)
    qed (simp add: DPush \<open>s = Some d\<close> done_inv_def)
  next
    case (DTick now order)
    then show ?thesis using Some d by (simp add: done_inv_def Let_def case_prod_unfold Tick_keeps)
  qed (use Some d in \<open>simp_all add: done_inv_def Take_keeps\<close>)
qed

interpretation dec: stateful "dec_step rs_New" "done_inv key cross" "\<lambda>_. True" for rs_New key cross
  by unfold_locales (rule done_inv_step)

lemma delivered_Push_silent:
  assumes "delivered (block_key d path f) d" "Enabled (d_params d)" "coded f"
  shows "Decoder_Push rs_New d path f now = Some (d, [])"
  using assms by (auto simp: Decoder_Push_def Let_def coded_def delivered_def)

lemma Push_delivers:
  assumes "Enabled (d_params d)" "coded f" "Decoder_Push rs_New d path f now = Some (d', out)" "out \<noteq> []"
  shows "delivered (block_key d path f) d' \<and> d_params d' = d_params d"
proof -
  from coded_Push_cases [OF assms(1,2) refl assms(3)] assms(4)
  obtain d1 st1 r where r: "d_params d1 = d_params d" "maybeDeliver rs_New d1 (block_key d path f) st1 = Some r"
    "store_block (block_key d path f) r = (d', out)" by auto
  moreover have "snd (snd r) \<noteq> []" using r(3) assms(4) by (auto simp: store_block_def split: prod.splits)
  ultimately show ?thesis using maybeDeliver_delivered(2,3) [OF r(2)] by simp
qed

section \<open>Recovery\<close>

text \<open>
  One block: its data frames \<open>ds\<close>, its parity shards \<open>par\<close>, and the codec. The frames the
  encoder emits for it are \<open>block_frames bs ds par\<close>.
\<close>

definition block_ok :: "rs_codec \<Rightarrow> u32 \<Rightarrow> frame list \<Rightarrow> bytes list \<Rightarrow> bool" where
  "block_ok rs bs ds par \<longleftrightarrow>
     0 < length ds \<and> length ds < 2 ^ 16 \<and> length par < 2 ^ 16 \<and> bs \<noteq> 0 \<and>
     0 < max_payload ds \<and> max_payload ds < 2 ^ 16 \<and> distinct (map fSeq ds) \<and>
     (\<forall>f\<in>set ds. fSessionID f = fSessionID (hd ds) \<and> \<not> HasFlag f FlagFECParity \<and> \<not> HasFlag f FlagPassSeq) \<and>
     (\<forall>s\<in>set par. length s = max_payload ds) \<and>
     rs_ok rs (length ds) (length par) \<and>
     rs_Encode rs (data_shards ds @ replicate (length par) (make_bytes (max_payload ds))) = Some (data_shards ds @ par)"

lemma block_ok_ne: "block_ok rs bs ds par \<Longrightarrow> ds \<noteq> []"
  by (auto simp only: block_ok_def length_greater_0_conv)

text \<open>What the decoder holds of the block after the data frames \<open>D\<close> and parity frames \<open>P\<close>
  (sets of indices) have arrived.\<close>

definition assembled :: "frame list \<Rightarrow> bytes list \<Rightarrow> nat set \<Rightarrow> nat set \<Rightarrow> blockState \<Rightarrow> bool" where
  "assembled ds par D P st \<longleftrightarrow>
     D \<subseteq> {..<length ds} \<and> P \<subseteq> {..<length par} \<and> \<not> b_flushed st \<and>
     length (b_data st) = card D \<and> length (b_parity st) = card P \<and> distinct (map fst (b_parity st)) \<and>
     (\<forall>i<length ds. map_of (b_data st) (fSeq (ds ! i)) = (if i \<in> D then Some (fPayload (ds ! i)) else None)) \<and>
     (\<forall>j. map_of (b_parity st) j = (if j \<in> P then Some (par ! j) else None)) \<and>
     (if P = {} then b_k st = 0 \<and> b_seqs st = []
      else b_k st = length ds \<and> b_p st = length par \<and> b_maxLen st = max_payload ds \<and>
           b_seqs st = map fSeq ds \<and> b_lens st = map (\<lambda>f. of_nat (length (fPayload f))) ds)"

lemma foldl_store_parity:
  assumes "distinct (map fst al)" "\<And>j. j \<in> fst ` set al \<Longrightarrow> k + j < n" "length sh = n"
  shows "length (foldl (\<lambda>sh (j, s). if k + j < n then sh[k + j := s] else sh) sh al) = n"
    and "i < n \<Longrightarrow> foldl (\<lambda>sh (j, s). if k + j < n then sh[k + j := s] else sh) sh al ! i
      = (if k \<le> i then (case map_of al (i - k) of None \<Rightarrow> sh ! i | Some s \<Rightarrow> s) else sh ! i)"
proof -
  have "length (foldl (\<lambda>sh (j, s). if k + j < n then sh[k + j := s] else sh) sh al) = n
    \<and> (i < n \<longrightarrow> foldl (\<lambda>sh (j, s). if k + j < n then sh[k + j := s] else sh) sh al ! i
      = (if k \<le> i then (case map_of al (i - k) of None \<Rightarrow> sh ! i | Some s \<Rightarrow> s) else sh ! i))"
    using assms
  proof (induction al arbitrary: sh)
    case (Cons a al)
    obtain j s where a: "a = (j, s)" by fastforce
    have j: "k + j < n" "map_of al j = None" using Cons.prems(1,2) a by (auto simp: map_of_eq_None_iff)
    have "distinct (map fst al)" "\<And>j. j \<in> fst ` set al \<Longrightarrow> k + j < n" "length (sh[k + j := s]) = n"
      using Cons.prems by auto
    note IH = Cons.IH [OF this]
    have "(case map_of al (i - k) of None \<Rightarrow> sh[k + j := s] ! i | Some s \<Rightarrow> s)
        = (case map_of (a # al) (i - k) of None \<Rightarrow> sh ! i | Some s \<Rightarrow> s)" if "k \<le> i" "i < n"
      using that j Cons.prems(3) by (cases "i = k + j") (auto simp: a split: option.split)
    then show ?case using IH j by (auto simp: a nth_list_update)
  qed simp
  then show "length (foldl (\<lambda>sh (j, s). if k + j < n then sh[k + j := s] else sh) sh al) = n"
    and "i < n \<Longrightarrow> foldl (\<lambda>sh (j, s). if k + j < n then sh[k + j := s] else sh) sh al ! i
      = (if k \<le> i then (case map_of al (i - k) of None \<Rightarrow> sh ! i | Some s \<Rightarrow> s) else sh ! i)" by blast+
qed

definition part_shards :: "frame list \<Rightarrow> bytes list \<Rightarrow> nat set \<Rightarrow> nat set \<Rightarrow> bytes list" where
  "part_shards ds par D P =
     map (\<lambda>i. if i \<in> D then data_shards ds ! i else []) [0..<length ds]
     @ map (\<lambda>j. if j \<in> P then par ! j else []) [0..<length par]"

lemma recv_shards_eq:
  assumes "assembled ds par D P st" "P \<noteq> {}"
  shows "recv_shards st = part_shards ds par D P"
proof -
  let ?k = "length ds" and ?n = "length ds + length par"
  have st: "b_k st = ?k" "b_p st = length par" "b_maxLen st = max_payload ds" "b_seqs st = map fSeq ds"
    "distinct (map fst (b_parity st))"
    "\<And>j. map_of (b_parity st) j = (if j \<in> P then Some (par ! j) else None)"
    "\<And>i. i < ?k \<Longrightarrow> map_of (b_data st) (fSeq (ds ! i)) = (if i \<in> D then Some (fPayload (ds ! i)) else None)"
    and P: "P \<subseteq> {..<length par}"
    using assms by (auto simp: assembled_def)
  let ?sh = "map (\<lambda>s. case map_of (b_data st) s of
      None \<Rightarrow> [] | Some payload \<Rightarrow> copy_at 0 payload (make_bytes (max_payload ds))) (map fSeq ds) @ replicate (length par) []"
  have keys: "?k + j < ?n" if "j \<in> fst ` set (b_parity st)" for j
  proof -
    have "map_of (b_parity st) j \<noteq> None" using that by (simp add: map_of_eq_None_iff)
    then have "j \<in> P" using st(6) [of j] by (simp split: if_splits)
    then show ?thesis using P by auto
  qed
  have sh: "?sh ! i = (if i \<in> D then data_shards ds ! i else [])" if "i < ?k" for i
    using that st(7) [OF that] max_payload_ge [of "ds ! i" ds]
    by (simp add: nth_append data_shards_def padded_def copy_into_zeroes)
  have lsh: "length ?sh = ?n" by simp
  have recv: "recv_shards st = foldl (\<lambda>sh (j, s). if ?k + j < ?n then sh[?k + j := s] else sh) ?sh (b_parity st)"
    unfolding recv_shards_def Let_def st(1-4) by simp
  show ?thesis
  proof (rule nth_equalityI)
    show "length (recv_shards st) = length (part_shards ds par D P)"
      unfolding recv using foldl_store_parity(1) [OF st(5) keys, of ?sh] by (simp add: part_shards_def)
    fix i assume "i < length (recv_shards st)"
    then have i: "i < ?n" unfolding recv using foldl_store_parity(1) [OF st(5) keys, of ?sh] by simp
    have "recv_shards st ! i = (if ?k \<le> i then (case map_of (b_parity st) (i - ?k) of None \<Rightarrow> ?sh ! i | Some s \<Rightarrow> s) else ?sh ! i)"
      unfolding recv by (rule foldl_store_parity(2) [OF st(5) keys lsh i])
    then show "recv_shards st ! i = part_shards ds par D P ! i"
      using i sh by (simp add: st(6) part_shards_def nth_append)
  qed
qed

lemma part_shards_erased:
  assumes "block_ok rs bs ds par" "D \<subseteq> {..<length ds}" "P \<subseteq> {..<length par}"
  shows "rs_erased (data_shards ds @ par) (part_shards ds par D P)"
    and "length (filter (\<lambda>s. s \<noteq> []) (part_shards ds par D P)) = card D + card P"
proof -
  have len: "length (data_shards ds) = length ds" by (simp add: data_shards_def)
  show "rs_erased (data_shards ds @ par) (part_shards ds par D P)"
    unfolding rs_erased_def part_shards_def
    by (intro list_all2_appendI) (auto simp: list_all2_conv_all_nth len)
  have "data_shards ds ! i \<noteq> []" if "i < length ds" for i
    using that assms(1) padded_length [of "ds ! i" ds] by (auto simp: data_shards_def block_ok_def)
  then have D: "{i. i < length (map (\<lambda>i. if i \<in> D then data_shards ds ! i else []) [0..<length ds])
      \<and> map (\<lambda>i. if i \<in> D then data_shards ds ! i else []) [0..<length ds] ! i \<noteq> []} = D"
    using assms(2) by (auto split: if_splits)
  have "par ! j \<noteq> []" if "j < length par" for j
  proof -
    have "par ! j \<in> set par" using that by simp
    then have "length (par ! j) = max_payload ds" "0 < max_payload ds" using assms(1) unfolding block_ok_def by blast+
    then show ?thesis by force
  qed
  then have P: "{j. j < length (map (\<lambda>j. if j \<in> P then par ! j else []) [0..<length par])
      \<and> map (\<lambda>j. if j \<in> P then par ! j else []) [0..<length par] ! j \<noteq> []} = P"
    using assms(3) by (auto split: if_splits)
  show "length (filter (\<lambda>s. s \<noteq> []) (part_shards ds par D P)) = card D + card P"
    unfolding part_shards_def filter_append length_append length_filter_conv_card D P ..
qed

definition delivered_frames :: "frame list \<Rightarrow> frame list" where
  "delivered_frames ds = map (\<lambda>f. out_frame (fSessionID (hd ds)) (fSeq f) (fPayload f)) ds"

text \<open>The loop over the rebuilt shards completes the data of the block.\<close>

lemma fill_loop_spec:
  assumes "\<And>f. f \<in> set fs \<Longrightarrow> length (fPayload f) \<le> m \<and> m < 2 ^ 16"
    and "\<And>f. f \<in> set fs \<Longrightarrow> map_of data (fSeq f) = None \<or> map_of data (fSeq f) = Some (fPayload f)"
    and "distinct (map fSeq fs)"
  shows "\<exists>data' rec'. fill_loop data rec (zip (map fSeq fs) (zip (map (\<lambda>f. of_nat (length (fPayload f))) fs)
            (map (\<lambda>f. padded m (fPayload f)) fs @ rest))) = Some (data', rec')
     \<and> (\<forall>f\<in>set fs. map_of data' (fSeq f) = Some (fPayload f))
     \<and> (\<forall>s. s \<notin> fSeq ` set fs \<longrightarrow> map_of data' s = map_of data s)"
  using assms
proof (induction fs arbitrary: data rec)
  case (Cons f fs)
  define data1 where "data1 = (if map_of data (fSeq f) = None then AList.update (fSeq f) (fPayload f) data else data)"
  define rec1 where "rec1 = (if map_of data (fSeq f) = None then rec + 1 else rec)"
  have f: "length (fPayload f) \<le> m" "m < 2 ^ 16" "map_of data1 (fSeq f) = Some (fPayload f)"
    using Cons.prems(1) [of f] Cons.prems(2) [of f] by (auto simp: data1_def update_conv')
  have len: "unat (of_nat (length (fPayload f)) :: u16) = length (fPayload f)"
    using f(1,2) by (simp add: unat_of_nat)
  have other: "map_of data1 s = map_of data s" if "s \<noteq> fSeq f" for s
    using that by (simp add: data1_def update_conv')
  have ne: "fSeq g \<noteq> fSeq f" if "g \<in> set fs" for g using Cons.prems(3) that by (auto simp: image_iff)
  have "\<exists>data' rec'. fill_loop data1 rec1 (zip (map fSeq fs) (zip (map (\<lambda>f. of_nat (length (fPayload f))) fs)
            (map (\<lambda>f. padded m (fPayload f)) fs @ rest))) = Some (data', rec')
     \<and> (\<forall>f\<in>set fs. map_of data' (fSeq f) = Some (fPayload f))
     \<and> (\<forall>s. s \<notin> fSeq ` set fs \<longrightarrow> map_of data' s = map_of data1 s)"
    using Cons.prems ne other by (intro Cons.IH) auto
  then obtain data' rec' where r: "fill_loop data1 rec1 (zip (map fSeq fs) (zip (map (\<lambda>f. of_nat (length (fPayload f))) fs)
            (map (\<lambda>f. padded m (fPayload f)) fs @ rest))) = Some (data', rec')"
     "\<forall>f\<in>set fs. map_of data' (fSeq f) = Some (fPayload f)"
     "\<forall>s. s \<notin> fSeq ` set fs \<longrightarrow> map_of data' s = map_of data1 s" by blast
  have "fSeq f \<notin> fSeq ` set fs" using ne by force
  then have "map_of data' (fSeq f) = Some (fPayload f)" using r(3) f(3) by simp
  moreover have "fill_loop data rec (zip (map fSeq (f # fs)) (zip (map (\<lambda>f. of_nat (length (fPayload f))) (f # fs))
            (map (\<lambda>f. padded m (fPayload f)) (f # fs) @ rest))) = Some (data', rec')"
    using r(1) len by (auto simp: data1_def rec1_def padded_def split: option.split)
  ultimately show ?case using r(2,3) other by (intro exI [of _ data'] exI [of _ rec']) auto
qed auto

lemma map_filter_all:
  "(\<And>f. f \<in> set ds \<Longrightarrow> map_of data (fSeq f) = Some (fPayload f)) \<Longrightarrow>
   List.map_filter (\<lambda>s. map_option (g s) (map_of data s)) (map fSeq ds) = map (\<lambda>f. g (fSeq f) (fPayload f)) ds"
  by (induction ds) (simp_all add: map_filter_simps)

lemma flush_complete:
  assumes "b_seqs st = map fSeq ds" "ds \<noteq> []" "bk_sessionID key = fSessionID (hd ds)"
    and "\<And>f. f \<in> set ds \<Longrightarrow> map_of (b_data st) (fSeq f) = Some (fPayload f)"
  shows "snd (flush d key st) = delivered_frames ds"
  using assms map_filter_all [of ds "b_data st" "out_frame (bk_sessionID key)"]
  by (simp add: flush_def Let_def delivered_frames_def)

lemma deliver_complete:
  assumes b: "block_ok rs bs ds par" and a: "assembled ds par D P st" and P: "P \<noteq> {}"
    and n: "length ds \<le> card D + card P"
    and lib: "rs_New (int (length ds)) (int (length par)) = Some rs"
    and cache: "map_of (d_rsByParity d) (length par) \<in> {None, Some rs}"
    and key: "bk_sessionID key = fSessionID (hd ds)"
  obtains d' st' where "maybeDeliver rs_New d key st = Some (d', st', delivered_frames ds)"
proof -
  have ne: "ds \<noteq> []" using b by (rule block_ok_ne)
  have st: "b_k st = length ds" "b_p st = length par" "b_seqs st = map fSeq ds"
    "b_lens st = map (\<lambda>f. of_nat (length (fPayload f))) ds" "length (b_data st) = card D" "length (b_parity st) = card P"
    "\<And>i. i < length ds \<Longrightarrow> map_of (b_data st) (fSeq (ds ! i)) = (if i \<in> D then Some (fPayload (ds ! i)) else None)"
    and sub: "D \<subseteq> {..<length ds}" "P \<subseteq> {..<length par}" using a P by (auto simp: assembled_def)
  have data: "map_of (b_data st) (fSeq f) = None \<or> map_of (b_data st) (fSeq f) = Some (fPayload f)" if "f \<in> set ds" for f
    using that st(7) by (auto simp: in_set_conv_nth)
  show thesis
  proof (cases "card D = length ds")
    case True
    then have "D = {..<length ds}" using sub(1) by (simp add: card_subset_eq)
    then have "map_of (b_data st) (fSeq f) = Some (fPayload f)" if "f \<in> set ds" for f
      using that st(7) by (auto simp: in_set_conv_nth)
    then have "snd (flush d key st) = delivered_frames ds" using st(3) ne key by (intro flush_complete)
    then show thesis using that True st n ne by (auto simp: maybeDeliver_def Let_def case_prod_unfold)
  next
    case False
    note e = part_shards_erased [OF b sub]
    have "rs_valid (length ds) (length par) (max_payload ds) (data_shards ds @ replicate (length par) (make_bytes (max_payload ds)))"
      using b by (auto simp: rs_valid_def block_ok_def data_shards_def padded_length)
    moreover have "rs_ok rs (length ds) (length par)"
      "rs_Encode rs (data_shards ds @ replicate (length par) (make_bytes (max_payload ds))) = Some (data_shards ds @ par)"
      using b by (simp_all add: block_ok_def)
    ultimately have rec: "rs_Reconstruct rs (recv_shards st) = Some (data_shards ds @ par)"
      unfolding recv_shards_eq [OF a P] rs_ok_def using e n by metis
    obtain d1 where rs: "rsFor rs_New d (b_k st) (b_p st) = (d1, Some rs)"
      using cache lib st(1,2) by (auto simp: rsFor_def)
    have "\<And>f. f \<in> set ds \<Longrightarrow> length (fPayload f) \<le> max_payload ds \<and> max_payload ds < 2 ^ 16"
      "distinct (map fSeq ds)" using b max_payload_ge by (auto simp: block_ok_def)
    from fill_loop_spec [OF this(1) data this(2), of "d_recovered d1" par]
    obtain data' rec' where fill: "fill_loop (b_data st) (d_recovered d1) (zip (b_seqs st) (zip (b_lens st) (data_shards ds @ par)))
        = Some (data', rec')" "\<And>f. f \<in> set ds \<Longrightarrow> map_of data' (fSeq f) = Some (fPayload f)"
      unfolding st(3,4) data_shards_def by blast
    have "snd (flush (d1\<lparr>d_recovered := rec'\<rparr>) key (st\<lparr>b_data := data'\<rparr>)) = delivered_frames ds"
      using st(3) ne key fill(2) by (intro flush_complete) simp_all
    then have "reconstruct rs_New d key st = Some (fst (flush (d1\<lparr>d_recovered := rec'\<rparr>) key (st\<lparr>b_data := data'\<rparr>)),
        st\<lparr>b_data := data', b_flushed := True\<rparr>, delivered_frames ds)"
      by (simp add: reconstruct_def rs rec fill(1) Let_def case_prod_unfold)
    then show thesis using that st n ne False by (simp add: maybeDeliver_def)
  qed
qed

lemma deliver_incomplete:
  assumes "assembled ds par D P st" "ds \<noteq> []" "P = {} \<or> card D + card P < length ds"
  shows "maybeDeliver rs_New d key st = Some (d, st, [])"
  using assms by (cases "P = {}") (auto simp: assembled_def maybeDeliver_def)

lemma push_data_assembled:
  assumes "assembled ds par D P st" "i < length ds" "i \<notin> D" "distinct (map fSeq ds)"
    and "fSeq f = fSeq (ds ! i)" "fPayload f = fPayload (ds ! i)"
  shows "assembled ds par (insert i D) P (snd (push_data d key st f now))"
proof -
  have none: "map_of (b_data st) (fSeq f) = None" using assms(1-3,5) by (simp add: assembled_def)
  have fin: "finite D" using assms(1) finite_subset by (auto simp: assembled_def)
  let ?st = "snd (push_data d key st f now)"
  have eq: "b_data ?st = AList.update (fSeq f) (fPayload f) (b_data st)" "b_parity ?st = b_parity st" "b_k ?st = b_k st"
    "b_p ?st = b_p st" "b_seqs ?st = b_seqs st" "b_lens ?st = b_lens st" "b_maxLen ?st = b_maxLen st" "b_flushed ?st = b_flushed st"
    using none by (simp_all add: push_data_def Let_def)
  have "length (b_data ?st) = card (insert i D)"
    using none fin assms(1,3) by (simp add: eq length_update_new map_of_eq_None_iff assembled_def)
  moreover have "map_of (b_data ?st) (fSeq (ds ! j)) = (if j \<in> insert i D then Some (fPayload (ds ! j)) else None)"
    if "j < length ds" for j
  proof (cases "j = i")
    case True
    then show ?thesis using assms(5,6) by (simp add: eq update_conv')
  next
    case False
    then have "fSeq (ds ! j) \<noteq> fSeq f" using assms(2,4,5) that by (simp add: distinct_conv_nth)
    then show ?thesis using False assms(1) that by (simp add: eq update_conv' assembled_def)
  qed
  ultimately show ?thesis using assms(1,2) unfolding assembled_def eq(2-) by simp
qed

lemma length_concat_const: "(\<And>x. x \<in> set xs \<Longrightarrow> length (g x) = n) \<Longrightarrow> length (concat (map g xs)) = n * length xs"
  by (induction xs) auto

lemma concat_map_nth_split:
  "i < length xs \<Longrightarrow> concat (map g xs) = concat (map g (take i xs)) @ g (xs ! i) @ concat (map g (drop (Suc i) xs))"
  by (subst id_take_nth_drop [of i xs]) simp_all

lemma get_u32_concat:
  assumes "i < length xs" "length pre = off"
  shows "get_u32 (pre @ concat (map (\<lambda>x. put_u32 (g x)) xs) @ post) (off + 4 * i) = g (xs ! i)"
proof -
  have "length (pre @ concat (map (\<lambda>x. put_u32 (g x)) (take i xs))) = off + 4 * i"
    using assms length_concat_const [of "take i xs" "\<lambda>x. put_u32 (g x)" 4] by simp
  from get_put_u32 [OF this] show ?thesis by (simp add: concat_map_nth_split [OF assms(1)])
qed

lemma get_u16_concat:
  assumes "i < length xs" "length pre = off"
  shows "get_u16 (pre @ concat (map (\<lambda>x. put_u16 (g x)) xs) @ post) (off + 2 * i) = g (xs ! i)"
proof -
  have "length (pre @ concat (map (\<lambda>x. put_u16 (g x)) (take i xs))) = off + 2 * i"
    using assms length_concat_const [of "take i xs" "\<lambda>x. put_u16 (g x)" 2] by simp
  from get_put_u16 [OF this] show ?thesis by (simp add: concat_map_nth_split [OF assms(1)])
qed

text \<open>The parity sub-header parses back to what the encoder wrote.\<close>

lemma parity_payload_parse:
  fixes ds :: "frame list"
  assumes "k = length ds" and "pl = parity_payload k j m p ds shard"
  shows "get_u16 pl 0 = of_nat k" "get_u16 pl 2 = of_nat j" "get_u16 pl 4 = of_nat m" "get_u16 pl 6 = of_nat p"
    and "map (\<lambda>i. get_u32 pl (8 + 4 * i)) [0..<k] = map fSeq ds"
    and "map (\<lambda>i. get_u16 pl (8 + 4 * k + 2 * i)) [0..<k] = map (\<lambda>f. of_nat (length (fPayload f))) ds"
    and "length pl = 8 + 6 * k + length shard" "drop (8 + 4 * k + 2 * k) pl = shard"
proof -
  let ?h = "put_u16 (of_nat k) @ put_u16 (of_nat j) @ put_u16 (of_nat m) @ put_u16 (of_nat p)"
  let ?seqs = "concat (map (\<lambda>f. put_u32 (fSeq f)) ds)"
  let ?lens = "concat (map (\<lambda>f. put_u16 (of_nat (length (fPayload f)))) ds)"
  have pl: "pl = ?h @ ?seqs @ ?lens @ shard" using assms(2) by (simp add: parity_payload_def)
  have len: "length ?h = 8" "length ?seqs = 4 * k" "length ?lens = 2 * k"
    using length_concat_const [of ds "\<lambda>f. put_u32 (fSeq f)" 4]
      length_concat_const [of ds "\<lambda>f. put_u16 (of_nat (length (fPayload f)))" 2] assms(1) by simp_all
  show "get_u16 pl 0 = of_nat k" "get_u16 pl 2 = of_nat j" "get_u16 pl 4 = of_nat m" "get_u16 pl 6 = of_nat p"
    using get_put_u16 [of "[]" 0 "of_nat k"] get_put_u16 [of "put_u16 (of_nat k)" 2 "of_nat j"]
      get_put_u16 [of "put_u16 (of_nat k) @ put_u16 (of_nat j)" 4 "of_nat m"]
      get_put_u16 [of "put_u16 (of_nat k) @ put_u16 (of_nat j) @ put_u16 (of_nat m)" 6 "of_nat p"]
    by (simp_all add: pl)
  show "map (\<lambda>i. get_u32 pl (8 + 4 * i)) [0..<k] = map fSeq ds"
    using assms(1) get_u32_concat [where xs = ds and pre = ?h and g = fSeq and off = 8]
    by (intro nth_equalityI) (simp_all add: pl)
  show "map (\<lambda>i. get_u16 pl (8 + 4 * k + 2 * i)) [0..<k] = map (\<lambda>f. of_nat (length (fPayload f))) ds"
    using assms(1) len get_u16_concat [where xs = ds and pre = "?h @ ?seqs" and g = "\<lambda>f. of_nat (length (fPayload f))" and off = "8 + 4 * k"]
    by (intro nth_equalityI) (simp_all add: pl)
  show "length pl = 8 + 6 * k + length shard" "drop (8 + 4 * k + 2 * k) pl = shard" using len by (simp_all add: pl)
qed

lemma addParity_assembled:
  assumes b: "block_ok rs bs ds par" and a: "assembled ds par D P st" and j: "j < length par" "j \<notin> P"
    and f: "fPayload f = parity_payload (length ds) j (max_payload ds) (length par) ds (par ! j)"
  obtains st' where "addParity d st f now = (st', True)" "assembled ds par D (insert j P) st'"
proof -
  have bd: "length ds < 2 ^ 16" "length par < 2 ^ 16" "0 < length ds" "max_payload ds < 2 ^ 16" "length (par ! j) = max_payload ds"
    using b j(1) by (auto simp: block_ok_def)
  note prs = parity_payload_parse [OF refl f]
  have nums: "unat (get_u16 (fPayload f) 0) = length ds" "unat (get_u16 (fPayload f) 2) = j"
    "unat (get_u16 (fPayload f) 4) = max_payload ds" "unat (get_u16 (fPayload f) 6) = length par"
    using bd j(1) by (simp_all add: prs unat_of_nat)
  have none: "map_of (b_parity st) j = None" using a j(2) by (simp add: assembled_def)
  have fin: "finite P" using a finite_subset by (auto simp: assembled_def)
  have cp: "copy_at 0 (par ! j) (make_bytes (max_payload ds)) = par ! j"
    using bd(5) copy_into_zeroes [of "par ! j" "max_payload ds"] by (simp add: make_bytes_def)
  define st1 where "st1 = fst (addParity d st f now)"
  have eq: "snd (addParity d st f now)" "b_data st1 = b_data st" "b_flushed st1 = b_flushed st"
    "b_parity st1 = AList.update j (par ! j) (b_parity st)" "b_k st1 = length ds" "b_p st1 = length par"
    "b_maxLen st1 = max_payload ds" "b_seqs st1 = map fSeq ds" "b_lens st1 = map (\<lambda>f. of_nat (length (fPayload f))) ds"
    using a bd(3,5) unfolding st1_def addParity_def Let_def nums parityHdrFixed_def prs(5-8)
    by (auto simp: assembled_def cp split: if_splits)
  have "length (b_parity st1) = card (insert j P)"
    using none fin a j(2) by (simp add: eq length_update_new map_of_eq_None_iff assembled_def)
  moreover have "distinct (map fst (b_parity st1))" using a by (simp add: eq distinct_update assembled_def)
  ultimately have "assembled ds par D (insert j P) st1"
    using a j(1) by (simp add: assembled_def eq update_conv')
  then show thesis using that [of st1] eq(1) by (simp add: st1_def prod_eq_iff)
qed

text \<open>
  The decoder while the frames with the numbers \<open>ns\<close> of a block have come in, and when they are
  enough: one of them a parity frame, as many as the block has data frames.
\<close>

definition receiving :: "rs_codec \<Rightarrow> frame list \<Rightarrow> bytes list \<Rightarrow> blockKey \<Rightarrow> nat set \<Rightarrow> Decoder \<Rightarrow> bool" where
  "receiving rs ds par key ns d \<longleftrightarrow>
     map_of (d_rsByParity d) (length par) \<in> {None, Some rs} \<and>
     (map_of (d_blocks d) key = None \<longrightarrow> lookup_def 0 (d_lastFlushed d) (stream_of key) < bk_blockSeq key) \<and>
     assembled ds par (ns \<inter> {..<length ds}) {j. length ds + j \<in> ns} (lookup_def empty_block (d_blocks d) key)"

definition decodable :: "nat \<Rightarrow> nat set \<Rightarrow> bool" where
  "decodable k ns \<longleftrightarrow> k \<le> card ns \<and> (\<exists>n\<in>ns. k \<le> n)"

lemma split_card:
  fixes ns :: "nat set"
  assumes "finite ns"
  shows "card (ns \<inter> {..<k}) + card {j. k + j \<in> ns} = card ns"
proof -
  let ?J = "{j. k + j \<in> ns}"
  have "x \<in> (+) k ` ?J" if "x \<in> ns" "\<not> x < k" for x
    using that image_eqI [of x "(+) k" "x - k" ?J] by simp
  then have ns: "ns = ns \<inter> {..<k} \<union> (+) k ` ?J" by auto
  have "(+) k ` ?J \<subseteq> ns" by auto
  then have "card (ns \<inter> {..<k} \<union> (+) k ` ?J) = card (ns \<inter> {..<k}) + card ((+) k ` ?J)"
    using assms finite_subset by (intro card_Un_disjoint) auto
  then show ?thesis using ns by (simp add: card_image)
qed

lemma block_frames_nth:
  assumes "n < length ds + length par"
  shows "block_frames bs ds par ! n =
    (if n < length ds then (ds ! n)\<lparr>fBlockSeq := bs\<rparr>
     else parity_frame (fSessionID (hd ds)) bs
       (parity_payload (length ds) (n - length ds) (max_payload ds) (length par) ds (par ! (n - length ds))))"
  using assms by (simp add: block_frames_def stamp_block_def nth_append)

text \<open>The codec cache and the table of blocks through one completing or incomplete call.\<close>

lemma store_incomplete:
  assumes "map_of (d_blocks d) key \<noteq> None"
  shows "store_block key (d, st, out) = (d\<lparr>d_blocks := AList.update key st (d_blocks d)\<rparr>, out)"
  using assms by (simp add: store_block_def)

lemma assembled_deliver:
  assumes b: "block_ok rs bs ds par" and lib: "rs_New (int (length ds)) (int (length par)) = Some rs"
    and key: "bk_sessionID key = fSessionID (hd ds)" and fin: "finite ns"
    and d: "map_of (d_rsByParity d) (length par) \<in> {None, Some rs}" "map_of (d_blocks d) key \<noteq> None"
    and a: "assembled ds par (ns \<inter> {..<length ds}) {j. length ds + j \<in> ns} st"
  shows "\<exists>d'. map_option (store_block key) (maybeDeliver rs_New d key st)
      = Some (d', if decodable (length ds) ns then delivered_frames ds else [])
    \<and> (\<not> decodable (length ds) ns \<longrightarrow> receiving rs ds par key ns d' \<and> d_params d' = d_params d)"
proof -
  have ne: "ds \<noteq> []" using b by (rule block_ok_ne)
  have P: "{j. length ds + j \<in> ns} \<noteq> {} \<longleftrightarrow> (\<exists>n\<in>ns. length ds \<le> n)" by (auto intro: le_add1) (metis le_Suc_ex)
  show ?thesis
  proof (cases "decodable (length ds) ns")
    case True
    then have "{j. length ds + j \<in> ns} \<noteq> {}" "length ds \<le> card (ns \<inter> {..<length ds}) + card {j. length ds + j \<in> ns}"
      using P split_card [OF fin] by (simp_all add: decodable_def)
    then obtain d' st' where "maybeDeliver rs_New d key st = Some (d', st', delivered_frames ds)"
      using deliver_complete [where rs_New = rs_New and d = d and key = key, OF b a _ _ lib d(1) key] by blast
    then show ?thesis using True by (simp add: store_block_def)
  next
    case False
    then have "{j. length ds + j \<in> ns} = {} \<or> card (ns \<inter> {..<length ds}) + card {j. length ds + j \<in> ns} < length ds"
      using P split_card [OF fin] by (auto simp: decodable_def)
    then have "maybeDeliver rs_New d key st = Some (d, st, [])" using deliver_incomplete [OF a ne] by blast
    then show ?thesis using False a d by (simp add: store_incomplete receiving_def update_conv' lookup_def_update)
  qed
qed

lemma block_frame_flags:
  assumes "block_ok rs bs ds par" "n < length ds + length par"
  shows "coded (block_frames bs ds par ! n)" "HasFlag (block_frames bs ds par ! n) FlagFECParity \<longleftrightarrow> length ds \<le> n"
    "fSessionID (block_frames bs ds par ! n) = fSessionID (hd ds)" "fBlockSeq (block_frames bs ds par ! n) = bs"
proof -
  have bs: "bs \<noteq> 0" using assms(1) by (simp add: block_ok_def)
  have d: "fSessionID (ds ! n) = fSessionID (hd ds) \<and> \<not> HasFlag (ds ! n) FlagFECParity \<and> \<not> HasFlag (ds ! n) FlagPassSeq"
    if "n < length ds" using nth_mem [OF that] assms(1) unfolding block_ok_def by blast
  have f: "HasFlag ((ds ! n)\<lparr>fBlockSeq := bs\<rparr>) x = HasFlag (ds ! n) x" for x by (simp add: HasFlag_def)
  have p: "HasFlag (parity_frame sid bs pl) FlagFECParity" for sid pl
    by (simp add: parity_frame_def HasFlag_def FlagFECParity_def)
  have q: "fSessionID (parity_frame sid bs pl) = sid" "fBlockSeq (parity_frame sid bs pl) = bs" for sid pl
    by (simp_all add: parity_frame_def)
  note nth = block_frames_nth [OF assms(2), of bs]
  show fp: "HasFlag (block_frames bs ds par ! n) FlagFECParity \<longleftrightarrow> length ds \<le> n"
    using d by (cases "n < length ds") (simp_all add: nth f p)
  show fs: "fSessionID (block_frames bs ds par ! n) = fSessionID (hd ds)" "fBlockSeq (block_frames bs ds par ! n) = bs"
    using d by (cases "n < length ds"; simp add: nth q)+
  show "coded (block_frames bs ds par ! n)"
    using d bs fp fs by (cases "n < length ds") (simp_all add: coded_def nth f p)
qed

lemma receiving_step:
  assumes b: "block_ok rs bs ds par" and lib: "rs_New (int (length ds)) (int (length par)) = Some rs"
    and key: "bk_sessionID key = fSessionID (hd ds)" "bk_blockSeq key = bs"
    and d: "receiving rs ds par key ns d" "Enabled (d_params d)" "bk_path key = (if CrossPath (d_params d) then [] else path)"
    and n: "n < length ds + length par" "n \<notin> ns" "finite ns"
  shows "\<exists>d'. Decoder_Push rs_New d path (block_frames bs ds par ! n) now
      = Some (d', if decodable (length ds) (insert n ns) then delivered_frames ds else [])
    \<and> (\<not> decodable (length ds) (insert n ns) \<longrightarrow> receiving rs ds par key (insert n ns) d' \<and> d_params d' = d_params d)"
proof -
  let ?f = "block_frames bs ds par ! n" and ?st = "lookup_def empty_block (d_blocks d) key"
  let ?d = "d\<lparr>d_blocks := AList.update key ?st (d_blocks d)\<rparr>"
  note fl = block_frame_flags [OF b n(1)]
  have k: "block_key d path ?f = key" using key d(3) fl by (simp add: block_key_def)
  have a: "assembled ds par (ns \<inter> {..<length ds}) {j. length ds + j \<in> ns} ?st" using d(1) by (simp add: receiving_def)
  have nd: "\<not> (map_of (d_blocks d) key = None \<and> bk_blockSeq key \<le> lookup_def 0 (d_lastFlushed d) (stream_of key))" "\<not> b_flushed ?st"
    using d(1) a by (auto simp: receiving_def assembled_def)
  note del = assembled_deliver [where rs_New = rs_New and key = key, OF b lib key(1) finite.insertI [OF n(3), of n]]
  show ?thesis
  proof (cases "n < length ds")
    case True
    obtain d1 st1 where p: "push_data ?d key ?st ?f now = (d1, st1)" by fastforce
    have "assembled ds par (insert n (ns \<inter> {..<length ds})) {j. length ds + j \<in> ns} st1"
      using push_data_assembled [OF a True, of ?f ?d key now] n(1,2) True b p by (simp add: block_frames_nth block_ok_def)
    moreover have "insert n (ns \<inter> {..<length ds}) = insert n ns \<inter> {..<length ds}" "{j. length ds + j \<in> ns} = {j. length ds + j \<in> insert n ns}"
      using True by auto
    ultimately have a1: "assembled ds par (insert n ns \<inter> {..<length ds}) {j. length ds + j \<in> insert n ns} st1" by simp
    have "Decoder_Push rs_New d path ?f now = map_option (store_block key) (maybeDeliver rs_New d1 key st1)"
      using nd fl True d(2) p by (auto simp: Decoder_Push_def k Let_def coded_def)
    then show ?thesis
      using del [where d = d1 and st = st1, OF _ _ a1] push_data_frame [OF p] d(1) by (simp add: receiving_def update_conv')
  next
    case False
    define j where "j = n - length ds"
    have j: "j < length par" "length ds + j = n" using False n(1) by (auto simp: j_def)
    obtain st1 where p: "addParity ?d ?st ?f now = (st1, True)" "assembled ds par (ns \<inter> {..<length ds}) (insert j {j. length ds + j \<in> ns}) st1"
      using addParity_assembled [OF b a j(1), of ?f ?d now] n False j by (auto simp: block_frames_nth parity_frame_def j_def)
    moreover have "ns \<inter> {..<length ds} = insert n ns \<inter> {..<length ds}" "insert j {j. length ds + j \<in> ns} = {j. length ds + j \<in> insert n ns}"
      using False j by auto
    ultimately have a1: "assembled ds par (insert n ns \<inter> {..<length ds}) {j. length ds + j \<in> insert n ns} st1" by simp
    have "Decoder_Push rs_New d path ?f now = map_option (store_block key) (maybeDeliver rs_New ?d key st1)"
      using nd fl False d(2) p(1) by (auto simp: Decoder_Push_def k Let_def coded_def)
    then show ?thesis using del [where d = ?d and st = st1, OF _ _ a1] d(1) by (simp add: receiving_def update_conv')
  qed
qed

lemma block_run:
  assumes b: "block_ok rs bs ds par" and lib: "rs_New (int (length ds)) (int (length par)) = Some rs"
    and key: "bk_sessionID key = fSessionID (hd ds)" "bk_blockSeq key = bs"
    and d: "receiving rs ds par key {} d" "Enabled (d_params d)"
  shows "distinct (map (fst \<circ> snd) evs) \<Longrightarrow>
     (\<And>path n now. (path, n, now) \<in> set evs \<Longrightarrow> n < length ds + length par \<and> bk_path key = (if CrossPath (d_params d) then [] else path)) \<Longrightarrow>
     \<exists>d'. exec (dec_step rs_New) (Some d) (map (\<lambda>(path, n, now). DPush path (block_frames bs ds par ! n) now) evs)
       = (Some d', if decodable (length ds) (fst ` snd ` set evs) then delivered_frames ds else [])
     \<and> d_params d' = d_params d
     \<and> (if decodable (length ds) (fst ` snd ` set evs) then delivered key d' else receiving rs ds par key (fst ` snd ` set evs) d')"
proof (induction evs rule: rev_induct)
  case Nil
  have "ds \<noteq> []" using b by (rule block_ok_ne)
  then show ?case using d(1) by (simp add: decodable_def)
next
  case (snoc ev evs)
  obtain path n now where ev: "ev = (path, n, now)" by (cases ev)
  let ?ns = "fst ` snd ` set evs" and ?f = "block_frames bs ds par ! n"
  have n: "n < length ds + length par" "bk_path key = (if CrossPath (d_params d) then [] else path)" "n \<notin> ?ns"
    using snoc.prems(2) [of path n now] snoc.prems(1) by (auto simp: ev image_image)
  have out: "delivered_frames ds \<noteq> []" using block_ok_ne [OF b] by (simp add: delivered_frames_def)
  note fl = block_frame_flags [OF b n(1)]
  from snoc obtain d1 where d1: "exec (dec_step rs_New) (Some d) (map (\<lambda>(path, n, now). DPush path (block_frames bs ds par ! n) now) evs)
      = (Some d1, if decodable (length ds) ?ns then delivered_frames ds else [])" "d_params d1 = d_params d"
    "if decodable (length ds) ?ns then delivered key d1 else receiving rs ds par key ?ns d1" by auto
  have k: "block_key d1 path ?f = key" using fl(3,4) key n(2) d1(2) by (simp add: block_key_def)
  show ?case
  proof (cases "decodable (length ds) ?ns")
    case True
    then have "decodable (length ds) (insert n ?ns)" using n(3) by (auto simp: decodable_def)
    moreover have "Decoder_Push rs_New d1 path ?f now = Some (d1, [])"
      using True d1 d(2) fl(1) by (intro delivered_Push_silent) (simp_all add: k)
    ultimately show ?thesis using True d1 by (simp add: exec_append ev)
  next
    case False
    then obtain d2 where d2: "Decoder_Push rs_New d1 path ?f now
        = Some (d2, if decodable (length ds) (insert n ?ns) then delivered_frames ds else [])"
      "\<not> decodable (length ds) (insert n ?ns) \<Longrightarrow> receiving rs ds par key (insert n ?ns) d2 \<and> d_params d2 = d_params d1"
      using receiving_step [where rs_New = rs_New and key = key, OF b lib key, of ?ns d1 path n now] d1 d(2) n by auto
    then show ?thesis using False d1 d(2) fl(1) out Push_delivers [of d1 ?f rs_New path now d2] by (auto simp: exec_append ev k)
  qed
qed

text \<open>
  The two ends of a stream: an encoder about to emit a full block, and a decoder that has not
  seen the block, with nothing else cached for this number of parity shards.
\<close>

definition block_ready :: "Encoder \<Rightarrow> rs_codec \<Rightarrow> nat \<Rightarrow> nat \<Rightarrow> bool" where
  "block_ready e rs k p \<longleftrightarrow>
     e_rs e = Some rs \<and> int k = DataShards (e_params e) \<and> int p = e_rsParity e \<and> length (e_pending e) = k \<and>
     0 < k \<and> k < 2 ^ 16 \<and> p < 2 ^ 16 \<and> e_block e + 1 \<noteq> 0 \<and>
     0 < max_payload (e_pending e) \<and> max_payload (e_pending e) < 2 ^ 16 \<and> distinct (map fSeq (e_pending e)) \<and>
     list_all (\<lambda>f. fSessionID f = fSessionID (hd (e_pending e)) \<and> \<not> HasFlag f FlagFECParity \<and> \<not> HasFlag f FlagPassSeq) (e_pending e)"

definition block_unseen :: "Decoder \<Rightarrow> rs_codec \<Rightarrow> nat \<Rightarrow> blockKey \<Rightarrow> bool" where
  "block_unseen d rs p key \<longleftrightarrow>
     Enabled (d_params d) \<and> map_of (d_rsByParity d) p \<in> {None, Some rs} \<and> map_of (d_blocks d) key = None \<and>
     lookup_def 0 (d_lastFlushed d) (stream_of key) < bk_blockSeq key"

lemma block_unseen_receiving: "block_unseen d rs (length par) key \<Longrightarrow> receiving rs ds par key {} d"
  by (simp add: block_unseen_def receiving_def assembled_def lookup_def_def empty_block_def)

lemma block_ready_ok:
  assumes "block_ready e rs k p" "rs_ok rs k p"
  obtains par where "length par = p" "block_ok rs (e_block e + 1) (e_pending e) par"
    "snd (emitBlock e) = block_frames (e_block e + 1) (e_pending e) par"
proof -
  have r: "e_rs e = Some rs" "int k = DataShards (e_params e)" "int p = e_rsParity e" "length (e_pending e) = k" "0 < max_payload (e_pending e)"
    using assms(1) by (simp_all add: block_ready_def)
  obtain par where p: "length par = p" "\<And>s. s \<in> set par \<Longrightarrow> length s = max_payload (e_pending e)"
    "rs_Encode rs (data_shards (e_pending e) @ replicate p (make_bytes (max_payload (e_pending e))))
       = Some (data_shards (e_pending e) @ par)"
    "snd (emitBlock e) = block_frames (e_block e + 1) (e_pending e) par"
    using emitBlock_layout [OF r(1) assms(2) r(2-5)] by blast
  have "block_ok rs (e_block e + 1) (e_pending e) par"
    using assms p(1-3) unfolding block_ok_def block_ready_def list_all_iff by blast
  then show thesis using that p by blast
qed

section \<open>Properties\<close>

text \<open>
  C6: Block recovery, from the encoder to the decoder.  Take the frames \<open>emitBlock\<close> writes for a
  full block and let any selection of them reach a decoder that has not seen the block, each at
  most once, in any order, at any times and, with cross-path coding, over any paths.  If the
  selection holds at least as many frames as the block has data frames and one of them is a
  parity frame, the decoder hands on exactly the data frames of the block, in the order they
  were sent, once; otherwise it hands on nothing during these pushes and keeps waiting.  So the
  parity frame is needed even when all data frames are there: the decoder learns the size of the
  block from it, and \<open>k\<close> data frames without parity wait for the block timeout, although the package
  comment has a block rebuilt from any \<open>k\<close> of its frames.  The run never panics.  The
  codec is a parameter with the erasure-correcting behaviour its library documents.
\<close>

theorem block_recovery:
  assumes "block_ready e rs k p" "rs_ok rs k p" "rs_New (int k) (int p) = Some rs"
    and "key = \<lparr>bk_sessionID = fSessionID (hd (e_pending e)), bk_path = q, bk_blockSeq = e_block e + 1\<rparr>"
    and "block_unseen d rs p key" "distinct (map (fst \<circ> snd) evs)"
    and "list_all (\<lambda>(path, n, now). n < k + p \<and> q = (if CrossPath (d_params d) then [] else path)) evs"
  shows "\<exists>d'. exec (dec_step rs_New) (Some d) (map (\<lambda>(path, n, now). DPush path (snd (emitBlock e) ! n) now) evs)
    = (Some d', if k \<le> length evs \<and> list_ex (\<lambda>(path, n, now). k \<le> n) evs
         then map (\<lambda>f. out_frame (fSessionID f) (fSeq f) (fPayload f)) (e_pending e) else [])"
proof -
  obtain par where par: "length par = p" "block_ok rs (e_block e + 1) (e_pending e) par"
    "snd (emitBlock e) = block_frames (e_block e + 1) (e_pending e) par"
    using block_ready_ok [OF assms(1,2)] .
  have k: "length (e_pending e) = k" using assms(1) by (simp add: block_ready_def)
  have rcv: "receiving rs (e_pending e) par key {} d" "Enabled (d_params d)"
    using assms(5) par(1) block_unseen_receiving by (auto simp: block_unseen_def)
  have ok: "n < length (e_pending e) + length par \<and> bk_path key = (if CrossPath (d_params d) then [] else path)"
    if "(path, n, now) \<in> set evs" for path n now
    using that assms(4,7) k par(1) by (auto simp: list_all_iff)
  have c: "card (fst ` snd ` set evs) = length evs"
    using assms(6) distinct_card [of "map (fst \<circ> snd) evs"] by (simp add: image_image)
  then have dec: "decodable k (fst ` snd ` set evs) \<longleftrightarrow> k \<le> length evs \<and> list_ex (\<lambda>(path, n, now). k \<le> n) evs"
    by (force simp: decodable_def list_ex_iff)
  have del: "delivered_frames (e_pending e) = map (\<lambda>f. out_frame (fSessionID f) (fSeq f) (fPayload f)) (e_pending e)"
    unfolding delivered_frames_def
  proof (rule map_cong [OF refl])
    fix f assume "f \<in> set (e_pending e)"
    then have "fSessionID f = fSessionID (hd (e_pending e))" using assms(1) unfolding block_ready_def list_all_iff by blast
    then show "out_frame (fSessionID (hd (e_pending e))) (fSeq f) (fPayload f) = out_frame (fSessionID f) (fSeq f) (fPayload f)" by simp
  qed
  have "rs_New (int (length (e_pending e))) (int (length par)) = Some rs"
    "bk_sessionID key = fSessionID (hd (e_pending e))" "bk_blockSeq key = e_block e + 1"
    using assms(3,4) k par(1) by simp_all
  from block_run [where rs_New = rs_New and key = key and d = d and evs = evs, OF par(2) this rcv assms(6)] ok show ?thesis unfolding par(3) k dec del by blast
qed

definition two_frames :: "frame list" where
  "two_frames = [zero_frame\<lparr>fSessionID := 7, fSeq := 1, fPayload := [1, 2, 3]\<rparr>, zero_frame\<lparr>fSessionID := 7, fSeq := 2, fPayload := [9]\<rparr>]"

lemma two_frames_ready: "block_ready (xor_encoder\<lparr>e_pending := two_frames\<rparr>) xor_codec 2 1"
  by (simp add: block_ready_def xor_encoder_def fill_params_def xor_params_def Let_def two_frames_def max_payload_def
      HasFlag_def zero_frame_def)

lemma xor_unseen: "block_unseen (NewDecoder xor_params) xor_codec 1 \<lparr>bk_sessionID = 7, bk_path = ''wan'', bk_blockSeq = 1\<rparr>"
  by (simp add: block_unseen_def NewDecoder_def Enabled_def fill_params_def xor_params_def Let_def lookup_def_def stream_of_def)

theorem block_recovery_witness:
  "\<exists>d'. exec (dec_step xor_lib) (Some (NewDecoder xor_params))
      (map (\<lambda>(path, n, now). DPush path (snd (emitBlock (xor_encoder\<lparr>e_pending := two_frames\<rparr>)) ! n) now)
        [(''wan'', 2, 5), (''wan'', 1, 6)])
    = (Some d', [out_frame 7 1 [1, 2, 3], out_frame 7 2 [9]])"
  using block_recovery [OF two_frames_ready xor_codec_ok, of xor_lib "\<lparr>bk_sessionID = 7, bk_path = ''wan'', bk_blockSeq = 1\<rparr>" "''wan''"
      "NewDecoder xor_params" "[(''wan'', 2, 5), (''wan'', 1, 6)]"] xor_unseen
  by (simp add: xor_lib_def xor_encoder_def two_frames_def NewDecoder_def fill_params_def xor_params_def Let_def)

text \<open>
  C29: A block is delivered at most once.  After a \<open>Push\<close> that handed on frames of a block, and
  any later calls (frames of this or other blocks and streams, timer ticks, statistics reads)
  that do not panic, every further coded frame of that block is swallowed without changing the
  decoder.
\<close>

theorem fec_delivers_once:
  assumes "Enabled (d_params d)" "coded f" "Decoder_Push rs_New d path f now = Some (d1, out)" "out \<noteq> []"
    and "fst (exec (dec_step rs_New) (Some d1) evs) = Some d2"
    and "coded f'" "block_key d path' f' = block_key d path f"
  shows "Decoder_Push rs_New d2 path' f' now' = Some (d2, [])"
proof -
  let ?key = "block_key d path f" and ?cross = "CrossPath (d_params d)"
  have "delivered ?key d1 \<and> d_params d1 = d_params d" by (rule Push_delivers [OF assms(1-4)])
  then have "done_inv ?key ?cross (Some d1)" using assms(1) by (simp add: done_inv_def)
  then have "done_inv ?key ?cross (fst (exec (dec_step rs_New) (Some d1) evs))"
    by (rule dec.exec_inv) (simp add: list_all_iff)
  then have "delivered ?key d2" "Enabled (d_params d2)" "CrossPath (d_params d2) = ?cross"
    using assms(5) by (simp_all add: done_inv_def)
  moreover have "block_key d2 path' f' = ?key" using assms(7) calculation(3) by (simp add: block_key_def)
  ultimately show ?thesis using assms(6) by (intro delivered_Push_silent) simp_all
qed

definition two_coded :: "nat \<Rightarrow> frame" where
  "two_coded n = snd (emitBlock (xor_encoder\<lparr>e_pending := two_frames\<rparr>)) ! n"

definition half_received :: Decoder where
  "half_received = fst (the (Decoder_Push xor_lib (NewDecoder xor_params) ''wan'' (two_coded 2) 5))"

theorem fec_delivers_once_witness:
  "\<exists>d1. Decoder_Push xor_lib half_received ''wan'' (two_coded 1) 6 = Some (d1, [out_frame 7 1 [1, 2, 3], out_frame 7 2 [9]])
     \<and> Decoder_Push xor_lib d1 ''wan'' (two_coded 0) 9 = Some (d1, [])"
proof -
  have "map_option snd (Decoder_Push xor_lib half_received ''wan'' (two_coded 1) 6) = Some [out_frame 7 1 [1, 2, 3], out_frame 7 2 [9]]"
    by code_simp
  then obtain d1 where "Decoder_Push xor_lib half_received ''wan'' (two_coded 1) 6 = Some (d1, [out_frame 7 1 [1, 2, 3], out_frame 7 2 [9]])"
    by auto
  moreover have "Enabled (d_params half_received)" by code_simp
  moreover have "coded (two_coded 1)" "coded (two_coded 0)" by code_simp+
  moreover have "block_key half_received ''wan'' (two_coded 0) = block_key half_received ''wan'' (two_coded 1)" by code_simp
  ultimately show ?thesis
    using fec_delivers_once [of half_received "two_coded 1" xor_lib "''wan''" 6 d1 _ "[]" d1 "two_coded 0" "''wan''" 9] by simp
qed

text \<open>
  Raw-loss accounting of a path.  From the first counter seen, over any sequence of counters
  (reordered or repeated), window flushes and reads, every counter below the next expected one
  is reported exactly once, as lost or as received: what the reads took plus what is still to be
  read equals the number of counters passed.
\<close>

theorem path_loss_accounting:
  "(let (ps, taken) = exec path_step (observe_stat zero_path s t) evs
    in (\<Sum>(l, r)\<leftarrow>taken. l + r) + ps_lost ps + ps_received ps + unat s = ps_next ps
       \<and> distinct (ps_pending ps) \<and> list_all (\<lambda>c. ps_next ps < c) (ps_pending ps))"
proof -
  have "path_inv (unat s) (observe_stat zero_path s t)" by (simp add: path_inv_def observe_stat_def zero_path_def)
  from path_run [OF this, of evs] show ?thesis
    by (simp add: case_prod_unfold path_inv_def list_all_iff) (simp add: observe_stat_def zero_path_def)
qed

text \<open>
  The insertion sort that orders the sequence numbers of an incomplete block when it times
  out computes the sorted list: the same numbers with the same multiplicities, ascending.
\<close>

theorem sortUint32_correct:
  "sorted (sortUint32 s) \<and> mset (sortUint32 s) = mset s \<and> (sortUint32 s = sort s)"
  by (simp add: sortUint32_sort)

end
