(* ===== verification/Delivery.thy ===== *)
theory Delivery
  imports Frame "HOL-Library.AList" "HOL-Library.Multiset"
begin

text \<open>
  The delivery buffer of \<open>internal/tunnel/delivery.go\<close>: it puts the frames that arrive over
  several paths back into the order of their sequence numbers, skips a hole that stays open
  for the gap timeout, and bounds what it holds. The pending map is an association list with
  unique keys; \<open>rng\<close> stands for the order in which a range statement visits the keys.

  Shown here: whatever arrives, in whatever order, comes out with strictly increasing numbers,
  across the wrap of the 32-bit counter, as long as no frame carries the number 0; a permuted stream
  without losses comes out complete and in order; a stalled buffer moves on at the timeout, unless
  the only frame pending is number 0, which is then stuck. Two findings have their own theorems: the
  bound on the buffer does not hold, and a later hole inherits the timer of an earlier one.
\<close>

section \<open>State and operations\<close>

record deliveryBuffer =
  db_next :: u32
  db_pending :: "(u32 \<times> frame) list"
  db_gapSince :: "int option"
  db_gapTimeout :: int
  db_maxPending :: int
  db_drops :: nat

definition newDeliveryBuffer :: "int \<Rightarrow> int \<Rightarrow> deliveryBuffer" where
  "newDeliveryBuffer gapTimeout maxPending =
     \<lparr>db_next = 1, db_pending = [], db_gapSince = None,
      db_gapTimeout = (if gapTimeout \<le> 0 then 100 * Millisecond else gapTimeout),
      db_maxPending = (if maxPending \<le> 0 then 4096 else maxPending), db_drops = 0\<rparr>"

definition delivery_Reload :: "deliveryBuffer \<Rightarrow> int \<Rightarrow> int \<Rightarrow> deliveryBuffer" where
  "delivery_Reload d gapTimeout maxPending =
     (let d = (if gapTimeout > 0 then d\<lparr>db_gapTimeout := gapTimeout\<rparr> else d)
      in if maxPending > 0 then d\<lparr>db_maxPending := maxPending\<rparr> else d)"

definition pendingCount :: "deliveryBuffer \<Rightarrow> nat" where
  "pendingCount d = length (db_pending d)"

definition dropsTotal :: "deliveryBuffer \<Rightarrow> nat" where
  "dropsTotal d = db_drops d"

text \<open>The loop of \<open>drainContiguous\<close>, and the operation with the reset of the timer after it.\<close>

function drain_loop :: "deliveryBuffer \<Rightarrow> frame list \<Rightarrow> deliveryBuffer \<times> frame list" where
  "drain_loop d out =
     (case map_of (db_pending d) (db_next d) of
        None \<Rightarrow> (d, out)
      | Some f \<Rightarrow> drain_loop (d\<lparr>db_pending := AList.delete (db_next d) (db_pending d), db_next := db_next d + 1\<rparr>) (out @ [f]))"
  by pat_completeness auto
termination
proof (relation "measure (\<lambda>(d, out). length (db_pending d))")
  fix d :: deliveryBuffer and out :: "frame list" and f
  assume "map_of (db_pending d) (db_next d) = Some f"
  then have "(db_next d, f) \<in> set (db_pending d)" by (rule map_of_SomeD)
  then have "length (filter (\<lambda>(k, v). db_next d \<noteq> k) (db_pending d)) < length (db_pending d)"
    by (auto intro!: length_filter_less)
  then show "((d\<lparr>db_pending := AList.delete (db_next d) (db_pending d), db_next := db_next d + 1\<rparr>, out @ [f]), (d, out))
      \<in> measure (\<lambda>(d, out). length (db_pending d))"
    by (simp add: AList.delete_eq)
qed simp

declare drain_loop.simps [simp del]

definition drainContiguous :: "deliveryBuffer \<Rightarrow> frame list \<Rightarrow> deliveryBuffer \<times> frame list" where
  "drainContiguous d out =
     (let (d, out) = drain_loop d out
      in (if length (db_pending d) = 0 then d\<lparr>db_gapSince := None\<rparr> else d, out))"

text \<open>The lowest sequence number in serial order, from a start value.\<close>

definition lowest_from :: "u32 \<Rightarrow> u32 list \<Rightarrow> u32" where
  "lowest_from lo ss = foldl (\<lambda>lo s. if seq_before s lo then s else lo) lo ss"

definition push_one :: "(u32 list \<Rightarrow> u32 list) \<Rightarrow> int \<Rightarrow> deliveryBuffer \<times> frame list \<Rightarrow> frame \<Rightarrow> deliveryBuffer \<times> frame list" where
  "push_one rng now r f =
     (case r of (d, out) \<Rightarrow>
        if seq_before (fSeq f) (db_next d) then (d, out)
        else if fSeq f = db_next d then drainContiguous (d\<lparr>db_next := db_next d + 1\<rparr>) (out @ [f])
        else
          (let d = (if map_of (db_pending d) (fSeq f) = None then
                      (let d = (if int (length (db_pending d)) \<ge> db_maxPending d then
                                  (let lo = lowest_from (fSeq f) (rng (map fst (db_pending d)))
                                   in d\<lparr>db_pending := AList.delete lo (db_pending d), db_drops := db_drops d + 1\<rparr>)
                                else d)
                       in d\<lparr>db_pending := AList.update (fSeq f) f (db_pending d)\<rparr>)
                    else d)
           in (if db_gapSince d = None then d\<lparr>db_gapSince := Some now\<rparr> else d, out)))"

definition delivery_Push :: "(u32 list \<Rightarrow> u32 list) \<Rightarrow> deliveryBuffer \<Rightarrow> frame list \<Rightarrow> int \<Rightarrow> deliveryBuffer \<times> frame list" where
  "delivery_Push rng d frames now = foldl (push_one rng now) (d, []) frames"

definition delivery_Tick :: "(u32 list \<Rightarrow> u32 list) \<Rightarrow> deliveryBuffer \<Rightarrow> int \<Rightarrow> deliveryBuffer \<times> frame list" where
  "delivery_Tick rng d now =
     (case db_gapSince d of
        None \<Rightarrow> (d, [])
      | Some t \<Rightarrow>
          if now - t < db_gapTimeout d then (d, [])
          else
            (let lo = foldl (\<lambda>lo s. if lo = 0 \<or> seq_before s lo then s else lo) 0 (rng (map fst (db_pending d)))
             in if lo = 0 then (d\<lparr>db_next := db_next d + 1, db_gapSince := None\<rparr>, [])
                else drainContiguous (d\<lparr>db_next := lo\<rparr>) []))"

section \<open>Serial order\<close>

text \<open>Numbers less than half the space ahead of \<open>n\<close> compare by their distance from \<open>n\<close>.\<close>

lemma sint_of_int_small:
  assumes "- (2 ^ 31) \<le> k" "k < 2 ^ 31"
  shows "sint (of_int k :: u32) = k"
  using assms by (simp add: sint_sbintrunc' signed_take_bit_int_eq_self)

lemma uint_half: "unat (x :: u32) < 2147483648 \<longleftrightarrow> uint x < 2147483648"
proof -
  have "int (unat x) < int 2147483648 \<longleftrightarrow> uint x < 2147483648" by (simp only: of_nat_unat of_nat_numeral)
  then show ?thesis by (simp only: of_nat_less_iff)
qed

lemma seq_before_offset:
  assumes "unat (a - n) < 2 ^ 31" "unat (b - n) < 2 ^ 31"
  shows "seq_before a b \<longleftrightarrow> unat (a - n) < unat (b - n)"
proof -
  let ?x = "uint (a - n)" and ?y = "uint (b - n)"
  have u: "?x < 2147483648" "?y < 2147483648" using assms by (simp_all add: uint_half)
  have "- 2147483648 \<le> ?x - ?y" "?x - ?y < 2147483648"
    using u uint_nonnegative [of "a - n"] uint_nonnegative [of "b - n"] by linarith+
  then have "sint (of_int (?x - ?y) :: u32) = ?x - ?y" by (intro sint_of_int_small) simp_all
  then have "sint (a - b) = ?x - ?y" by simp
  moreover have "unat (a - n) < unat (b - n) \<longleftrightarrow> ?x < ?y" by (simp only: word_less_nat_alt [symmetric] word_less_def)
  ultimately show ?thesis by (simp add: seq_before_def)
qed

lemma not_before_offset: "\<not> seq_before s n \<longleftrightarrow> unat (s - n) < 2 ^ 31"
proof -
  have "sint (s - n) < 0 \<longleftrightarrow> odd (uint (s - n) div 2 ^ 31)"
    by (simp add: sint_uint bit_iff_odd)
  moreover have "uint (s - n) div 2 ^ 31 = (if uint (s - n) < 2 ^ 31 then 0 else 1)"
    using uint_bounded [of "s - n"] uint_nonnegative [of "s - n"]
    by (auto intro: int_div_pos_eq [where r = "uint (s - n) - 2 ^ 31"])
  moreover have "uint (s - n) < 2 ^ 31 \<longleftrightarrow> unat (s - n) < 2 ^ 31" by (simp add: uint_half)
  ultimately show ?thesis by (simp add: seq_before_def)
qed

lemma lowest_from_spec:
  assumes "unat (lo - n) < 2 ^ 31" "\<And>s. s \<in> set ss \<Longrightarrow> unat (s - n) < 2 ^ 31"
  shows "lowest_from lo ss \<in> insert lo (set ss) \<and> (\<forall>s\<in>insert lo (set ss). unat (lowest_from lo ss - n) \<le> unat (s - n))"
  using assms
proof (induction ss arbitrary: lo)
  case (Cons s ss)
  let ?lo = "if seq_before s lo then s else lo"
  have b: "seq_before s lo \<longleftrightarrow> unat (s - n) < unat (lo - n)" using Cons.prems by (intro seq_before_offset) auto
  have "lowest_from lo (s # ss) = lowest_from ?lo ss" by (simp add: lowest_from_def)
  moreover have "unat (?lo - n) < 2 ^ 31" using Cons.prems by simp
  ultimately show ?case using Cons.IH [of ?lo] Cons.prems b by (cases "seq_before s lo") force+
qed (simp add: lowest_from_def)

section \<open>Invariant\<close>

text \<open>
  The pending frames are ahead of the next number by less than half the space. The ghost
  counter \<open>N\<close> is the next number without the wrap.
\<close>

definition ahead :: "u32 \<Rightarrow> (u32 \<times> frame) list \<Rightarrow> bool" where
  "ahead n p \<longleftrightarrow> distinct (map fst p) \<and> (\<forall>(s, f)\<in>set p. fSeq f = s \<and> s \<noteq> 0 \<and> unat (s - n) < 2 ^ 31)"

definition db_inv :: "nat \<Rightarrow> deliveryBuffer \<Rightarrow> bool" where
  "db_inv N d \<longleftrightarrow>
     db_next d = of_nat N \<and> ahead (db_next d) (db_pending d) \<and> db_next d \<notin> fst ` set (db_pending d) \<and>
     (db_gapSince d = None \<longleftrightarrow> db_pending d = []) \<and> 0 < db_maxPending d"

lemma ahead_delete: "ahead n p \<Longrightarrow> ahead n (AList.delete k p)"
  by (auto simp: ahead_def AList.delete_eq distinct_map inj_on_def)

lemma ahead_update: "ahead n p \<Longrightarrow> unat (fSeq f - n) < 2 ^ 31 \<Longrightarrow> fSeq f \<noteq> 0 \<Longrightarrow> ahead n (AList.update (fSeq f) f p)"
  using set_update_sub [of "fSeq f" f p] by (auto simp: ahead_def distinct_update)

lemma unat_minus_Suc: "s \<noteq> n \<Longrightarrow> unat (s - (n + 1)) = unat (s - n) - 1" for s n :: u32
  using unat_minus_one [of "s - n"] by (simp add: diff_diff_eq)

lemma ahead_Suc: "ahead n p \<Longrightarrow> n \<notin> fst ` set p \<Longrightarrow> ahead (n + 1) p"
  unfolding ahead_def using unat_minus_Suc [of _ n] by fastforce

lemma delete_Some:
  assumes "distinct (map fst p)" "map_of p k = Some v"
  shows "mset (map snd p) = mset (map snd (AList.delete k p)) + {#v#}"
  using assms
proof (induction p)
  case (Cons a p)
  show ?case
  proof (cases "fst a = k")
    case True
    then have "AList.delete k p = p" using Cons.prems(1) by (auto intro!: AList.delete_id)
    then show ?thesis using True Cons.prems(2) by (cases a) (auto simp: AList.delete_eq)
  next
    case False
    then show ?thesis using Cons by (cases a) (auto simp: AList.delete_eq)
  qed
qed simp

lemma drain_loop_spec:
  assumes "ahead (db_next d) (db_pending d)" "db_next d = of_nat N"
  shows "\<exists>p N' new. drain_loop d out = (d\<lparr>db_pending := p, db_next := of_nat N'\<rparr>, out @ new)
    \<and> N \<le> N' \<and> map fSeq new = map of_nat [N..<N'] \<and> ahead (of_nat N') p \<and> of_nat N' \<notin> fst ` set p
    \<and> mset (map snd (db_pending d)) = mset (map snd p) + mset new"
  using assms
proof (induction d out arbitrary: N rule: drain_loop.induct)
  case (1 d out)
  show ?case
  proof (cases "map_of (db_pending d) (db_next d)")
    case None
    then have "drain_loop d out = (d\<lparr>db_pending := db_pending d, db_next := of_nat N\<rparr>, out @ [])"
      using 1(3) by (simp add: drain_loop.simps [of d out])
    moreover have "of_nat N \<notin> fst ` set (db_pending d)" using None 1(3) by (simp add: map_of_eq_None_iff)
    ultimately show ?thesis using 1(2,3) by (intro exI [of _ "db_pending d"] exI [of _ N] exI [of _ "[]"]) simp
  next
    case (Some f)
    let ?p = "AList.delete (db_next d) (db_pending d)"
    let ?d = "d\<lparr>db_pending := ?p, db_next := db_next d + 1\<rparr>"
    have f: "fSeq f = of_nat N" using Some 1(2,3) by (auto simp: ahead_def dest: map_of_SomeD)
    have "ahead (db_next ?d) (db_pending ?d)" "db_next ?d = of_nat (Suc N)"
      using 1(3) ahead_Suc [OF ahead_delete notin_delete, OF 1(2)] by simp_all
    from 1(1) [OF Some this] obtain p N' new where
      h: "drain_loop ?d (out @ [f]) = (?d\<lparr>db_pending := p, db_next := of_nat N'\<rparr>, (out @ [f]) @ new)"
      "Suc N \<le> N'" "map fSeq new = map of_nat [Suc N..<N']" "ahead (of_nat N') p" "of_nat N' \<notin> fst ` set p"
      "mset (map snd ?p) = mset (map snd p) + mset new" by auto
    have "drain_loop d out = (d\<lparr>db_pending := p, db_next := of_nat N'\<rparr>, out @ f # new)"
      using h(1) Some by (simp add: drain_loop.simps [of d out])
    moreover have "map fSeq (f # new) = map of_nat [N..<N']" using h(2,3) f by (simp add: upt_conv_Cons)
    moreover have "mset (map snd (db_pending d)) = mset (map snd p) + mset (f # new)"
      using delete_Some [OF _ Some] h(6) 1(2) by (simp add: ahead_def)
    ultimately show ?thesis using h(2,4,5) by (intro exI [of _ p] exI [of _ N'] exI [of _ "f # new"]) simp
  qed
qed

text \<open>
  \<open>in_order N fs N'\<close>: the frames carry strictly increasing numbers, counted without the wrap,
  from \<open>N\<close> on and below \<open>N'\<close>.
\<close>

definition in_order :: "nat \<Rightarrow> frame list \<Rightarrow> nat \<Rightarrow> bool" where
  "in_order N fs N' \<longleftrightarrow> N \<le> N' \<and>
     (\<exists>ps. map fSeq fs = map of_nat ps \<and> sorted_wrt (<) ps \<and> (\<forall>p\<in>set ps. N \<le> p \<and> p < N'))"

lemma in_order_Nil: "N \<le> N' \<Longrightarrow> in_order N [] N'"
  by (auto simp: in_order_def intro!: exI [of _ "[]"])

lemma in_order_upt: "L \<le> M \<Longrightarrow> M \<le> N \<Longrightarrow> map fSeq fs = map of_nat [M..<N] \<Longrightarrow> in_order L fs N"
  by (auto simp: in_order_def intro!: exI [of _ "[M..<N]"])

lemma in_order_append: "in_order L fs M \<Longrightarrow> in_order M gs N \<Longrightarrow> in_order L (fs @ gs) N"
proof -
  assume "in_order L fs M" "in_order M gs N"
  then obtain ps qs where h: "map fSeq fs = map of_nat ps" "sorted_wrt (<) ps" "\<forall>p\<in>set ps. L \<le> p \<and> p < M"
    "map fSeq gs = map of_nat qs" "sorted_wrt (<) qs" "\<forall>p\<in>set qs. M \<le> p \<and> p < N" "L \<le> M" "M \<le> N"
    by (auto simp: in_order_def)
  then have "sorted_wrt (<) (ps @ qs)" by (fastforce simp: sorted_wrt_append)
  moreover have "\<forall>p\<in>set (ps @ qs). L \<le> p \<and> p < N" using h by fastforce
  ultimately show ?thesis using h by (auto simp: in_order_def intro!: exI [of _ "ps @ qs"])
qed

text \<open>Draining after the next number is taken or set: the invariant is back.\<close>

lemma drainContiguous_spec:
  assumes "ahead (db_next d) (db_pending d)" "db_next d = of_nat N" "0 < db_maxPending d" "db_gapSince d = None \<longrightarrow> db_pending d = []"
  obtains d' N' new where "drainContiguous d out = (d', out @ new)" "db_inv N' d'" "N \<le> N'"
    "map fSeq new = map of_nat [N..<N']" "mset (map snd (db_pending d)) = mset (map snd (db_pending d')) + mset new"
    "db_maxPending d' = db_maxPending d"
proof -
  obtain p N' new where h: "drain_loop d out = (d\<lparr>db_pending := p, db_next := of_nat N'\<rparr>, out @ new)" "N \<le> N'"
    "map fSeq new = map of_nat [N..<N']" "ahead (of_nat N') p" "of_nat N' \<notin> fst ` set p"
    "mset (map snd (db_pending d)) = mset (map snd p) + mset new"
    using drain_loop_spec [OF assms(1,2), of out] by blast
  have "p = []" if "db_gapSince d = None" using that assms(4) h(6) by simp
  then have "db_inv N' (fst (drainContiguous d out))" using h(4,5) assms(3) by (auto simp: drainContiguous_def h(1) db_inv_def)
  moreover have "drainContiguous d out = (fst (drainContiguous d out), out @ new)" by (simp add: drainContiguous_def h(1))
  moreover have "db_pending (fst (drainContiguous d out)) = p" "db_maxPending (fst (drainContiguous d out)) = db_maxPending d"
    by (simp_all add: drainContiguous_def h(1))
  ultimately show thesis using that h(2,3,6) by metis
qed

lemma push_one_spec:
  assumes "db_inv N d" "fSeq f \<noteq> 0"
  obtains d' N' new where "push_one rng now (d, out) f = (d', out @ new)" "db_inv N' d'" "N \<le> N'" "map fSeq new = map of_nat [N..<N']"
proof -
  have inv: "db_next d = of_nat N" "ahead (db_next d) (db_pending d)" "db_next d \<notin> fst ` set (db_pending d)"
    "db_gapSince d = None \<longleftrightarrow> db_pending d = []" "0 < db_maxPending d" using assms(1) unfolding db_inv_def by blast+
  consider (late) "seq_before (fSeq f) (db_next d)" | (expected) "\<not> seq_before (fSeq f) (db_next d)" "fSeq f = db_next d"
    | (hold) "\<not> seq_before (fSeq f) (db_next d)" "fSeq f \<noteq> db_next d" by blast
  then show thesis
  proof cases
    case late
    then show thesis using that [of d "[]" N] assms(1) by (simp add: push_one_def)
  next
    case expected
    let ?d = "d\<lparr>db_next := db_next d + 1\<rparr>"
    have "ahead (db_next ?d) (db_pending ?d)" "db_next ?d = of_nat (Suc N)" "0 < db_maxPending ?d" "db_gapSince ?d = None \<longrightarrow> db_pending ?d = []"
      using inv ahead_Suc by simp_all
    then obtain d' N' new where h: "drainContiguous ?d (out @ [f]) = (d', (out @ [f]) @ new)" "db_inv N' d'" "Suc N \<le> N'"
      "map fSeq new = map of_nat [Suc N..<N']" by (rule drainContiguous_spec)
    have "map fSeq (f # new) = map of_nat [N..<N']" using h(3,4) expected(2) inv(1) by (simp add: upt_conv_Cons)
    moreover have "push_one rng now (d, out) f = (d', out @ f # new)" using expected h(1) by (simp add: push_one_def)
    ultimately show thesis using that [of d' "f # new" N'] h(2,3) by simp
  next
    case hold
    then have off: "unat (fSeq f - db_next d) < 2 ^ 31" by (simp add: not_before_offset)
    define p where "p = (if map_of (db_pending d) (fSeq f) = None then AList.update (fSeq f) f
      (if int (length (db_pending d)) \<ge> db_maxPending d
       then AList.delete (lowest_from (fSeq f) (rng (map fst (db_pending d)))) (db_pending d) else db_pending d) else db_pending d)"
    let ?d' = "fst (push_one rng now (d, out) f)"
    have eq: "push_one rng now (d, out) f = (?d', out @ [])" "db_pending ?d' = p" "db_next ?d' = db_next d" "db_maxPending ?d' = db_maxPending d"
      "db_gapSince ?d' = (if db_gapSince d = None then Some now else db_gapSince d)"
      using hold by (auto simp: push_one_def p_def Let_def)
    have "ahead (db_next d) p" using inv(2) off assms(2) by (auto simp: p_def intro!: ahead_update ahead_delete)
    moreover have "db_next d \<notin> fst ` set p"
      using inv(3) hold(2) AList.dom_delete_subset [of "lowest_from (fSeq f) (rng (map fst (db_pending d)))" "db_pending d"]
      by (auto simp: p_def dom_update)
    moreover have "p \<noteq> []" by (auto simp: p_def update_nonempty)
    ultimately have "db_inv N ?d'" using inv(1,5) by (simp add: db_inv_def eq(2-5))
    then show thesis using that [of ?d' "[]" N] eq(1) by simp
  qed
qed

text \<open>A range statement visits every key.\<close>

definition visits_all :: "(u32 list \<Rightarrow> u32 list) \<Rightarrow> bool" where
  "visits_all rng \<longleftrightarrow> (\<forall>ks. mset (rng ks) = mset ks)"

lemma tick_lowest:
  assumes "0 \<notin> set ss" "ss \<noteq> []"
  shows "foldl (\<lambda>lo s. if lo = 0 \<or> seq_before s lo then s else lo) 0 ss = lowest_from (hd ss) (tl ss)"
proof -
  have "foldl (\<lambda>lo s. if lo = 0 \<or> seq_before s lo then s else lo) lo ss = lowest_from lo ss" if "lo \<noteq> 0" "0 \<notin> set ss" for lo ss
    using that by (induction ss arbitrary: lo) (auto simp: lowest_from_def)
  then show ?thesis using assms by (cases ss) auto
qed

text \<open>When the timer has run out, the tick sets the next number to the lowest pending one and drains.\<close>

lemma Tick_skip:
  assumes inv: "db_inv N d" and rng: "visits_all rng" and t: "db_gapSince d = Some t" "db_gapTimeout d \<le> now - t"
  obtains lo where "delivery_Tick rng d now = drainContiguous (d\<lparr>db_next := lo\<rparr>) []" "lo \<in> fst ` set (db_pending d)"
    "lo \<noteq> 0" "\<forall>s\<in>fst ` set (db_pending d). unat (lo - db_next d) \<le> unat (s - db_next d)"
proof -
  let ?ss = "rng (map fst (db_pending d))"
  define lo where "lo = lowest_from (hd ?ss) (tl ?ss)"
  have "mset ?ss = mset (map fst (db_pending d))" using rng by (simp add: visits_all_def)
  then have ss: "set ?ss = fst ` set (db_pending d)" by (metis set_map set_mset_mset)
  have ne: "?ss \<noteq> []" using inv t(1) ss by (force simp: db_inv_def)
  have nz: "0 \<notin> set ?ss" using inv ss by (auto simp: db_inv_def ahead_def)
  have off: "s \<in> set ?ss \<Longrightarrow> unat (s - db_next d) < 2 ^ 31" for s using inv ss by (auto simp: db_inv_def ahead_def)
  have ht: "insert (hd ?ss) (set (tl ?ss)) = set ?ss" using ne by (cases ?ss) auto
  have spec: "lo \<in> set ?ss \<and> (\<forall>s\<in>set ?ss. unat (lo - db_next d) \<le> unat (s - db_next d))"
    unfolding lo_def using lowest_from_spec [of "hd ?ss" "db_next d" "tl ?ss"] off ht by (metis insertCI)
  have fold: "foldl (\<lambda>lo s. if lo = 0 \<or> seq_before s lo then s else lo) 0 ?ss = lo"
    unfolding lo_def by (rule tick_lowest [OF nz ne])
  have "delivery_Tick rng d now = drainContiguous (d\<lparr>db_next := lo\<rparr>) []"
    unfolding delivery_Tick_def fold Let_def using t spec nz by auto
  then show thesis using that spec ss nz by metis
qed

lemma ahead_skip:
  assumes "ahead n p" "\<forall>s\<in>fst ` set p. unat (lo - n) \<le> unat (s - n)"
  shows "ahead lo p"
proof -
  have "unat (s - lo) = unat (s - n) - unat (lo - n)" if "s \<in> fst ` set p" for s
    using unat_sub [of "lo - n" "s - n"] bspec [OF assms(2) that] by (simp add: word_le_nat_alt)
  then show ?thesis using assms(1) by (fastforce simp: ahead_def)
qed

lemma Tick_spec:
  assumes inv: "db_inv N d" and rng: "visits_all rng"
  obtains d' N' new where "delivery_Tick rng d now = (d', new)" "db_inv N' d'" "in_order N new N'"
proof (cases "\<exists>t. db_gapSince d = Some t \<and> db_gapTimeout d \<le> now - t")
  case False
  then have "delivery_Tick rng d now = (d, [])" by (auto simp: delivery_Tick_def split: option.split)
  then show thesis using that inv in_order_Nil by blast
next
  case True
  then obtain t lo where lo: "delivery_Tick rng d now = drainContiguous (d\<lparr>db_next := lo\<rparr>) []"
    "\<forall>s\<in>fst ` set (db_pending d). unat (lo - db_next d) \<le> unat (s - db_next d)" "db_gapSince d = Some t"
    using Tick_skip [OF inv rng] by metis
  let ?d = "d\<lparr>db_next := lo\<rparr>" and ?L = "N + unat (lo - db_next d)"
  have N: "db_next d = of_nat N" "ahead (db_next d) (db_pending d)" "0 < db_maxPending d"
    using inv unfolding db_inv_def by blast+
  have "ahead (db_next ?d) (db_pending ?d)" using ahead_skip [OF N(2) lo(2)] by simp
  moreover have "db_next ?d = of_nat ?L" "0 < db_maxPending ?d" "db_gapSince ?d = None \<longrightarrow> db_pending ?d = []"
    using N(1,3) lo(3) by simp_all
  ultimately obtain d' N' new where h: "drainContiguous ?d [] = (d', [] @ new)" "db_inv N' d'" "?L \<le> N'" "map fSeq new = map of_nat [?L..<N']"
    by (rule drainContiguous_spec)
  have "in_order N new N'" using h(3,4) by (intro in_order_upt [of N ?L]) simp_all
  then show thesis using that lo(1) h(1,2) by simp
qed

section \<open>Runs\<close>

datatype db_event = DBPush "frame list" int | DBTick int | DBReload int int

fun db_step :: "(u32 list \<Rightarrow> u32 list) \<Rightarrow> deliveryBuffer \<Rightarrow> db_event \<Rightarrow> deliveryBuffer \<times> frame list" where
  "db_step rng d (DBPush fs now) = delivery_Push rng d fs now"
| "db_step rng d (DBTick now) = delivery_Tick rng d now"
| "db_step rng d (DBReload g m) = (delivery_Reload d g m, [])"

text \<open>No frame has the number 0, which \<open>Tick\<close> uses as its sentinel; senders count from 1 and reach 0 only by wrapping.\<close>

definition numbered :: "db_event \<Rightarrow> bool" where
  "numbered ev \<longleftrightarrow> (case ev of DBPush fs now \<Rightarrow> list_all (\<lambda>f. fSeq f \<noteq> 0) fs | _ \<Rightarrow> True)"

lemma Push_fold:
  assumes "db_inv N d" "list_all (\<lambda>f. fSeq f \<noteq> 0) fs"
  obtains d' N' new where "foldl (push_one rng now) (d, out) fs = (d', out @ new)" "db_inv N' d'" "N \<le> N'"
    "map fSeq new = map of_nat [N..<N']"
  using assms
proof (induction fs arbitrary: d N out thesis)
  case Nil
  then show ?case by simp
next
  case (Cons f fs)
  obtain d1 N1 new1 where 1: "push_one rng now (d, out) f = (d1, out @ new1)" "db_inv N1 d1" "N \<le> N1" "map fSeq new1 = map of_nat [N..<N1]"
    by (rule push_one_spec [OF Cons.prems(2), of f rng now out]) (use Cons.prems(3) in auto)
  obtain d2 N2 new2 where 2: "foldl (push_one rng now) (d1, out @ new1) fs = (d2, (out @ new1) @ new2)" "db_inv N2 d2" "N1 \<le> N2"
    "map fSeq new2 = map of_nat [N1..<N2]"
    by (rule Cons.IH [where out = "out @ new1", OF _ 1(2)]) (use Cons.prems(3) in auto)
  have "[N..<N1] @ [N1..<N2] = [N..<N2]" using 1(3) 2(3) by (metis le_Suc_ex upt_add_eq_append)
  then have "map fSeq (new1 @ new2) = map of_nat [N..<N2]" using 1(4) 2(4) by (metis map_append)
  then show ?case using Cons.prems(1) [of d2 "new1 @ new2" N2] 1 2 by simp
qed

lemma db_step_spec:
  assumes "db_inv N d" "visits_all rng" "numbered ev"
  obtains N' where "db_inv N' (fst (db_step rng d ev))" "in_order N (snd (db_step rng d ev)) N'"
proof (cases ev)
  case (DBPush fs now)
  then have "list_all (\<lambda>f. fSeq f \<noteq> 0) fs" using assms(3) by (simp add: numbered_def)
  then obtain d' N' new where h: "foldl (push_one rng now) (d, []) fs = (d', [] @ new)" "db_inv N' d'" "N \<le> N'" "map fSeq new = map of_nat [N..<N']"
    using Push_fold [OF assms(1)] by blast
  then show thesis using that [of N'] in_order_upt [of N N N' new] DBPush by (simp add: delivery_Push_def)
next
  case (DBTick now)
  obtain d' N' new where "delivery_Tick rng d now = (d', new)" "db_inv N' d'" "in_order N new N'"
    using Tick_spec [OF assms(1,2)] .
  then show thesis using that DBTick by simp
next
  case (DBReload g m)
  have "db_inv N (delivery_Reload d g m)"
    using assms(1) by (cases "0 < g"; cases "0 < m"; simp add: db_inv_def delivery_Reload_def)
  then show thesis using that [of N] DBReload by (simp add: in_order_Nil)
qed

lemma db_inv_New: "db_inv 1 (newDeliveryBuffer g m)"
  by (simp add: db_inv_def newDeliveryBuffer_def ahead_def)

lemma db_run:
  assumes "db_inv N d" "visits_all rng" "list_all numbered evs"
  obtains N' where "db_inv N' (fst (exec (db_step rng) d evs))" "in_order N (snd (exec (db_step rng) d evs)) N'"
  using assms(1,3)
proof (induction evs arbitrary: d N thesis)
  case Nil
  then show ?case by (simp add: in_order_Nil)
next
  case (Cons ev evs)
  obtain N1 where 1: "db_inv N1 (fst (db_step rng d ev))" "in_order N (snd (db_step rng d ev)) N1"
    using db_step_spec [OF Cons.prems(2) assms(2), of ev] Cons.prems(3) by auto
  obtain N2 where 2: "db_inv N2 (fst (exec (db_step rng) (fst (db_step rng d ev)) evs))"
    "in_order N1 (snd (exec (db_step rng) (fst (db_step rng d ev)) evs)) N2"
    using Cons.IH [OF _ 1(1)] Cons.prems(3) by auto
  show ?case using Cons.prems(1) [of N2] 2(1) in_order_append [OF 1(2) 2(2)] by (simp add: Let_def case_prod_unfold)
qed

text \<open>Draining starts with the frame at the next number.\<close>

lemma drain_first:
  assumes "ahead (db_next d) (db_pending d)" "db_next d = of_nat N" "map_of (db_pending d) (db_next d) = Some f"
  shows "\<exists>new. snd (drainContiguous d []) = f # new \<and> pendingCount (fst (drainContiguous d [])) < pendingCount d"
proof -
  let ?d = "d\<lparr>db_pending := AList.delete (db_next d) (db_pending d), db_next := db_next d + 1\<rparr>"
  have "ahead (db_next ?d) (db_pending ?d)" "db_next ?d = of_nat (Suc N)"
    using assms(2) ahead_Suc [OF ahead_delete notin_delete, OF assms(1)] by simp_all
  from drain_loop_spec [OF this, of "[f]"] obtain p N' new where
    h: "drain_loop ?d [f] = (?d\<lparr>db_pending := p, db_next := of_nat N'\<rparr>, [f] @ new)"
    "mset (map snd (AList.delete (db_next d) (db_pending d))) = mset (map snd p) + mset new" by auto
  have "length (db_pending d) = Suc (length p + length new)"
    using arg_cong [OF h(2), of size] arg_cong [OF delete_Some [OF _ assms(3)], of size] assms(1) by (simp add: ahead_def)
  then show ?thesis using h(1) assms(3) by (simp add: drainContiguous_def drain_loop.simps [of d] pendingCount_def)
qed

text \<open>The frames delivered before a call are only carried along.\<close>

lemma drain_loop_out: "drain_loop d out = (fst (drain_loop d []), out @ snd (drain_loop d []))"
proof -
  have "drain_loop d (a @ b) = (fst (drain_loop d b), a @ snd (drain_loop d b))" for a b
  proof (induction d b rule: drain_loop.induct)
    case (1 d b)
    then show ?case
      by (cases "map_of (db_pending d) (db_next d)") (simp_all add: drain_loop.simps [of d b] drain_loop.simps [of d "a @ b"])
  qed
  from this [of out "[]"] show ?thesis by simp
qed

lemma drainContiguous_out: "drainContiguous d out = (fst (drainContiguous d []), out @ snd (drainContiguous d []))"
  unfolding drainContiguous_def by (subst drain_loop_out) (simp add: case_prod_unfold Let_def)

lemma push_one_out: "push_one rng now (d, out) f = (fst (push_one rng now (d, []) f), out @ snd (push_one rng now (d, []) f))"
proof (cases "\<not> seq_before (fSeq f) (db_next d) \<and> fSeq f = db_next d")
  case True
  then show ?thesis
    using drainContiguous_out [of _ "out @ [f]"] drainContiguous_out [of _ "[f]"] by (auto simp: push_one_def)
next
  case False
  then show ?thesis by (auto simp: push_one_def Let_def)
qed

lemma push_fold_out:
  "foldl (push_one rng now) (d, out) fs
     = (fst (foldl (push_one rng now) (d, []) fs), out @ snd (foldl (push_one rng now) (d, []) fs))"
proof (induction fs arbitrary: d out)
  case (Cons f fs)
  let ?r = "push_one rng now (d, []) f"
  have "foldl (push_one rng now) (d, out) (f # fs) = foldl (push_one rng now) (fst ?r, out @ snd ?r) fs"
    using push_one_out [of rng now d out f] by simp
  also have "\<dots> = (fst (foldl (push_one rng now) (fst ?r, []) fs), (out @ snd ?r) @ snd (foldl (push_one rng now) (fst ?r, []) fs))"
    by (rule Cons.IH)
  finally show ?case using Cons.IH [of "fst ?r" "snd ?r"] by simp
qed simp

section \<open>A reordered stream\<close>

text \<open>
  The state while frames of a loss-free stream come in: what was taken in is either delivered,
  without a hole, or pending.
\<close>

definition taking :: "nat \<Rightarrow> deliveryBuffer \<Rightarrow> frame list \<Rightarrow> frame list \<Rightarrow> bool" where
  "taking N d out taken \<longleftrightarrow>
     db_inv N d \<and> 1 \<le> N \<and> map fSeq out = map of_nat [1..<N] \<and> mset taken = mset (map snd (db_pending d)) + mset out"

lemma taking_counts:
  assumes "taking N d out taken"
  shows "length (db_pending d) \<le> length taken" "N \<le> Suc (length taken)"
proof -
  have m: "mset taken = mset (map snd (db_pending d)) + mset out" "map fSeq out = map of_nat [1..<N]"
    using assms unfolding taking_def by blast+
  have "length taken = length (db_pending d) + length out" using arg_cong [OF m(1), of size] by simp
  moreover have "length out = N - 1" using arg_cong [OF m(2), of length] by simp
  ultimately show "length (db_pending d) \<le> length taken" "N \<le> Suc (length taken)" by simp_all
qed

lemma taking_seqs:
  assumes "taking N d out taken" "ahead n (db_pending d)"
  shows "fSeq ` set taken = fst ` set (db_pending d) \<union> of_nat ` {1..<N}"
proof -
  have m: "map fSeq out = map of_nat [1..<N]" using assms(1) unfolding taking_def by blast
  have "set_mset (mset taken) = snd ` set (db_pending d) \<union> set out" using assms(1) by (simp add: taking_def)
  then have "fSeq ` set taken = (fSeq \<circ> snd) ` set (db_pending d) \<union> fSeq ` set out" by (simp add: image_Un image_comp)
  moreover have "(fSeq \<circ> snd) ` set (db_pending d) = fst ` set (db_pending d)"
    using assms(2) by (intro image_cong) (auto simp: ahead_def)
  moreover have "fSeq ` set out = of_nat ` {1..<N}"
    using arg_cong [OF m, of set] by simp
  ultimately show ?thesis by simp
qed

lemma taking_step:
  assumes t: "taking N d out taken" and n: "length taken < n" "n < 2 ^ 31" "int n \<le> db_maxPending d"
    and f: "fSeq f = of_nat s" "1 \<le> s" "s \<le> n" "fSeq f \<notin> fSeq ` set taken"
  shows "\<exists>N'. taking N' (fst (push_one rng now (d, out) f)) (snd (push_one rng now (d, out) f)) (taken @ [f])
    \<and> db_maxPending (fst (push_one rng now (d, out) f)) = db_maxPending d"
proof -
  have inv: "db_next d = of_nat N" "ahead (db_next d) (db_pending d)" "db_next d \<notin> fst ` set (db_pending d)"
    "db_gapSince d = None \<longleftrightarrow> db_pending d = []" "0 < db_maxPending d"
    using t unfolding taking_def db_inv_def by blast+
  have fresh: "fSeq f \<notin> fst ` set (db_pending d)" "s \<notin> {1..<N}"
    using f(1,4) taking_seqs [OF t inv(2)] by auto
  have N: "N \<le> s" "1 \<le> N" using fresh(2) f(2) t by (auto simp: taking_def)
  have off: "fSeq f - db_next d = of_nat (s - N)" using N inv(1) f(1) by simp
  then have nl: "\<not> seq_before (fSeq f) (db_next d)"
    using f(3) n(2) by (simp add: not_before_offset unat_of_nat take_bit_nat_eq_self)
  have "unat (fSeq f) = s" using f(1,3) n(2) by (simp add: unat_of_nat take_bit_nat_eq_self)
  then have nz: "fSeq f \<noteq> 0" using f(2) by auto
  show ?thesis
  proof (cases "fSeq f = db_next d")
    case True
    let ?d = "d\<lparr>db_next := db_next d + 1\<rparr>"
    have "ahead (db_next ?d) (db_pending ?d)" "db_next ?d = of_nat (Suc N)" "0 < db_maxPending ?d" "db_gapSince ?d = None \<longrightarrow> db_pending ?d = []"
      using inv ahead_Suc by simp_all
    then obtain d' N' new where h: "drainContiguous ?d (out @ [f]) = (d', (out @ [f]) @ new)" "db_inv N' d'" "Suc N \<le> N'"
      "map fSeq new = map of_nat [Suc N..<N']" "mset (map snd (db_pending ?d)) = mset (map snd (db_pending d')) + mset new"
      "db_maxPending d' = db_maxPending ?d" by (rule drainContiguous_spec)
    have "[1..<N'] = [1..<N] @ N # [Suc N..<N']"
      using N(2) h(3) upt_add_eq_append [of 1 N "N' - N"] by (simp add: upt_conv_Cons)
    then have "map fSeq (out @ f # new) = map of_nat [1..<N']" using t h(4) True inv(1) by (simp add: taking_def)
    then have "taking N' d' (out @ f # new) (taken @ [f])" using h(2,3,5) t by (simp add: taking_def)
    then show ?thesis using nl True h(1,6) by (auto simp: push_one_def)
  next
    case False
    have "length (db_pending d) < n" using taking_counts(1) [OF t] n(1) by simp
    then have "\<not> int (length (db_pending d)) \<ge> db_maxPending d" using n(3) by simp
    moreover have "map_of (db_pending d) (fSeq f) = None" using fresh(1) by (simp add: map_of_eq_None_iff)
    ultimately have eq: "push_one rng now (d, out) f
        = (d\<lparr>db_pending := db_pending d @ [(fSeq f, f)], db_gapSince := (if db_gapSince d = None then Some now else db_gapSince d)\<rparr>, out)"
      using nl False fresh(1) by (simp add: push_one_def update_new Let_def)
    have "ahead (db_next d) (db_pending d @ [(fSeq f, f)])"
      using ahead_update [OF inv(2), of f] nl nz update_new [OF fresh(1), of f] by (simp add: not_before_offset)
    then have "taking N (d\<lparr>db_pending := db_pending d @ [(fSeq f, f)], db_gapSince := (if db_gapSince d = None then Some now else db_gapSince d)\<rparr>)
        out (taken @ [f])"
      using t inv False by (auto simp: taking_def db_inv_def)
    moreover have "db_maxPending (d\<lparr>db_pending := db_pending d @ [(fSeq f, f)], db_gapSince := (if db_gapSince d = None then Some now else db_gapSince d)\<rparr>)
        = db_maxPending d" by simp
    ultimately show ?thesis unfolding eq fst_conv snd_conv by blast
  qed
qed

lemma taking_run:
  assumes "n < 2 ^ 31" "\<And>f. f \<in> set fs \<Longrightarrow> \<exists>s. fSeq f = of_nat s \<and> 1 \<le> s \<and> s \<le> n"
    and "distinct (map fSeq (taken @ fs))" "length taken + length fs \<le> n"
    and "taking N d out taken" "int n \<le> db_maxPending d"
  shows "\<exists>N'. taking N' (fst (foldl (push_one rng now) (d, out) fs)) (snd (foldl (push_one rng now) (d, out) fs)) (taken @ fs)
    \<and> db_maxPending (fst (foldl (push_one rng now) (d, out) fs)) = db_maxPending d"
  using assms(2-)
proof (induction fs arbitrary: N d out taken)
  case Nil
  then show ?case by auto
next
  case (Cons f fs)
  obtain s where "fSeq f = of_nat s" "1 \<le> s" "s \<le> n" using Cons.prems(1) by auto
  then obtain d1 o1 N1 where 1: "push_one rng now (d, out) f = (d1, o1)" "taking N1 d1 o1 (taken @ [f])" "db_maxPending d1 = db_maxPending d"
    using taking_step [OF Cons.prems(4) _ assms(1) Cons.prems(5), of f s rng now] Cons.prems(2,3)
    by (cases "push_one rng now (d, out) f") auto
  show ?case using Cons.IH [of "taken @ [f]" N1 d1 o1] 1 Cons.prems by simp
qed

lemma taking_batches:
  assumes "n < 2 ^ 31" "\<And>f. f \<in> set (concat (map fst bs)) \<Longrightarrow> \<exists>s. fSeq f = of_nat s \<and> 1 \<le> s \<and> s \<le> n"
    and "distinct (map fSeq (taken @ concat (map fst bs)))" "length taken + length (concat (map fst bs)) \<le> n"
    and "taking N d out taken" "int n \<le> db_maxPending d"
  shows "\<exists>N'. taking N' (fst (exec (db_step rng) d (map (\<lambda>(fs, now). DBPush fs now) bs)))
      (out @ snd (exec (db_step rng) d (map (\<lambda>(fs, now). DBPush fs now) bs))) (taken @ concat (map fst bs))"
  using assms(2-)
proof (induction bs arbitrary: N d out taken)
  case Nil
  then show ?case by auto
next
  case (Cons b bs)
  obtain fs now where b: "b = (fs, now)" by fastforce
  have out: "foldl (push_one rng now) (d, out) fs = (fst (foldl (push_one rng now) (d, []) fs), out @ snd (foldl (push_one rng now) (d, []) fs))"
    by (rule push_fold_out)
  obtain N1 where 1: "taking N1 (fst (foldl (push_one rng now) (d, []) fs)) (out @ snd (foldl (push_one rng now) (d, []) fs)) (taken @ fs)"
    "db_maxPending (fst (foldl (push_one rng now) (d, []) fs)) = db_maxPending d"
    using taking_run [OF assms(1), of fs taken N d out rng now] Cons.prems b unfolding out by (auto simp: Int_Un_distrib)
  show ?case
    using Cons.IH [OF _ _ _ 1(1)] 1(2) Cons.prems b by (simp add: Let_def case_prod_unfold delivery_Push_def)
qed

lemma lowest_before:
  assumes "ahead n p" "(lo, f) \<in> set p" "\<forall>s\<in>fst ` set p. unat (lo - n) \<le> unat (s - n)" "f' \<in> snd ` set p"
  shows "fSeq f' = fSeq f \<or> seq_before (fSeq f) (fSeq f')"
proof -
  obtain s where s: "(s, f') \<in> set p" using assms(4) by auto
  have a: "fSeq f = lo" "unat (lo - n) < 2 ^ 31" "fSeq f' = s" "unat (s - n) < 2 ^ 31"
    using assms(1,2) s by (auto simp: ahead_def)
  moreover have "unat (lo - n) \<le> unat (s - n)" using assms(3) s by force
  ultimately show ?thesis using seq_before_offset [of lo n s] by (auto simp: le_less dest: word_unat_eq_iff [THEN iffD2])
qed

lemma unat_of_nat_pred: "1 \<le> i \<Longrightarrow> i < 2 ^ 32 \<Longrightarrow> unat (of_nat i - 1 :: u32) = i - 1"
proof -
  assume i: "1 \<le> i" "i < 2 ^ 32"
  then have "(of_nat i - 1 :: u32) = of_nat (i - 1)" by (simp add: of_nat_diff)
  moreover have "unat (of_nat (i - 1) :: u32) = i - 1" using i by (simp add: unat_of_nat take_bit_nat_eq_self del: of_nat_diff)
  ultimately show ?thesis by metis
qed

text \<open>A new frame below all pending ones: the guard evicts nothing.\<close>

lemma push_lowest:
  assumes "visits_all rng" "fSeq f \<noteq> db_next d" "unat (fSeq f - db_next d) < 2 ^ 31"
    and above: "\<And>s. s \<in> fst ` set (db_pending d) \<Longrightarrow> unat (fSeq f - db_next d) < unat (s - db_next d) \<and> unat (s - db_next d) < 2 ^ 31"
  shows "db_pending (fst (push_one rng now (d, out) f)) = db_pending d @ [(fSeq f, f)]"
    "db_next (fst (push_one rng now (d, out) f)) = db_next d"
proof -
  let ?ks = "rng (map fst (db_pending d))"
  have "set_mset (mset ?ks) = set_mset (mset (map fst (db_pending d)))" using assms(1) unfolding visits_all_def by simp
  then have ks: "set ?ks = fst ` set (db_pending d)" by simp
  have low: "lowest_from (fSeq f) ?ks = fSeq f"
    using lowest_from_spec [of "fSeq f" "db_next d" ?ks] assms(3) above unfolding ks by fastforce
  have notin: "fSeq f \<notin> fst ` set (db_pending d)" using above by blast
  have "\<not> seq_before (fSeq f) (db_next d)" using assms(3) by (simp add: not_before_offset)
  moreover have "map_of (db_pending d) (fSeq f) = None" using notin by (simp add: map_of_eq_None_iff)
  moreover have "AList.delete (fSeq f) (db_pending d) = db_pending d" using notin by (rule AList.delete_id)
  ultimately show "db_pending (fst (push_one rng now (d, out) f)) = db_pending d @ [(fSeq f, f)]"
    "db_next (fst (push_one rng now (d, out) f)) = db_next d"
    using assms(2) low notin by (auto simp: push_one_def Let_def update_new)
qed

definition descending :: "nat \<Rightarrow> nat \<Rightarrow> frame list" where
  "descending k n = map (\<lambda>i. zero_frame\<lparr>fSeq := of_nat i\<rparr>) (rev [k..<n])"

lemma descending_grows:
  assumes "visits_all rng" "n < 2 ^ 31"
  shows "2 \<le> k \<Longrightarrow> db_next (fst (foldl (push_one rng now) (newDeliveryBuffer g m, []) (descending k n))) = 1
    \<and> map fst (db_pending (fst (foldl (push_one rng now) (newDeliveryBuffer g m, []) (descending k n)))) = map of_nat (rev [k..<n])"
proof (induction "n - k" arbitrary: k)
  case 0
  then show ?case by (simp add: newDeliveryBuffer_def descending_def)
next
  case (Suc x)
  define r where "r = foldl (push_one rng now) (newDeliveryBuffer g m, []) (descending (Suc k) n)"
  define f where "f = zero_frame\<lparr>fSeq := of_nat k :: u32\<rparr>"
  have k: "k < n" "2 \<le> k" using Suc by simp_all
  have d: "db_next (fst r) = 1" "map fst (db_pending (fst r)) = map of_nat (rev [Suc k..<n])"
    using Suc.hyps(1) [of "Suc k"] Suc by (simp_all add: r_def)
  have off: "unat (of_nat i - 1 :: u32) = i - 1 \<and> i - 1 < 2 ^ 31" if "k \<le> i" "i < n" for i
  proof -
    have "n < 2147483648" using assms(2) by simp
    then have "i < 2147483648" "i < 4294967296" "1 \<le> i" using that k(2) by linarith+
    then show ?thesis using unat_of_nat_pred [of i] by simp
  qed
  have fk: "unat (fSeq f - 1) = k - 1" "k - 1 < 2 ^ 31" using off [of k] k by (simp_all add: f_def)
  have "fst ` set (db_pending (fst r)) = of_nat ` {Suc k..<n}"
    using arg_cong [OF d(2), of set] by (simp only: set_map set_rev set_upt)
  then have above: "unat (fSeq f - db_next (fst r)) < unat (s - db_next (fst r)) \<and> unat (s - db_next (fst r)) < 2 ^ 31"
    if "s \<in> fst ` set (db_pending (fst r))" for s
    using that off k(2) unfolding d(1) fk(1) by auto
  have "fSeq f \<noteq> db_next (fst r)" using fk(1) k(2) d(1) by auto
  note p = push_lowest [OF assms(1) this _ above, of now "snd r"]
  have "foldl (push_one rng now) (newDeliveryBuffer g m, []) (descending k n) = push_one rng now (fst r, snd r) f"
    using k(1) by (simp add: r_def f_def descending_def upt_conv_Cons)
  moreover have "rev [k..<n] = rev [Suc k..<n] @ [k]" using k(1) by (simp add: upt_conv_Cons)
  ultimately show ?case using p fk d by (simp add: f_def)
qed

section \<open>Properties\<close>

text \<open>
  C12: Whatever the buffer is given -- batches of frames with any numbers but 0, in any order, with
  losses and duplicates, timer ticks and reloads at any times -- the frames it hands on carry strictly
  increasing sequence numbers, counted from 1 without the wrap of the 32-bit counter.  The number 0,
  which a sender reaches only by wrapping its counter, is excluded: \<open>Tick\<close> takes it for \<open>nothing
  pending\<close> (see the second part of the theorem on holes).  Nothing
  is delivered twice, and the invariant of the buffer holds throughout: the pending frames are
  ahead of the next number by less than half the number space, and the gap timer runs exactly
  while something is pending.
\<close>

theorem delivery_in_order:
  assumes "visits_all rng" "list_all numbered evs"
  shows "\<exists>N'. in_order 1 (snd (exec (db_step rng) (newDeliveryBuffer g m) evs)) N'
    \<and> db_inv N' (fst (exec (db_step rng) (newDeliveryBuffer g m) evs))"
  using db_run [OF db_inv_New assms] by blast

theorem delivery_in_order_witness:
  "\<exists>N'. in_order 1 (snd (exec (db_step id) (newDeliveryBuffer 0 0)
      [DBPush [zero_frame\<lparr>fSeq := 3\<rparr>, zero_frame\<lparr>fSeq := 1\<rparr>] 5, DBTick (200 * Millisecond)])) N'
    \<and> db_inv N' (fst (exec (db_step id) (newDeliveryBuffer 0 0)
      [DBPush [zero_frame\<lparr>fSeq := 3\<rparr>, zero_frame\<lparr>fSeq := 1\<rparr>] 5, DBTick (200 * Millisecond)]))"
  by (rule delivery_in_order) (simp_all add: visits_all_def numbered_def)

text \<open>
  C16: A stream without losses is restored.  If the batches together hold each of the frames
  numbered 1 to \<open>n\<close> once, in any order and split in any way, and the buffer may hold \<open>n\<close> frames,
  then exactly these frames come out, in the order of their numbers, and nothing stays pending.
\<close>

theorem delivery_reorders:
  assumes "n < 2 ^ 31" "int n \<le> (if m \<le> 0 then 4096 else m)"
    and "mset (map fSeq (concat (map fst bs))) = mset (map of_nat [1..<Suc n])"
    and "r = exec (db_step rng) (newDeliveryBuffer g m) (map (\<lambda>(fs, now). DBPush fs now) bs)"
  shows "map fSeq (snd r) = map of_nat [1..<Suc n] \<and> mset (snd r) = mset (concat (map fst bs)) \<and> pendingCount (fst r) = 0"
proof -
  let ?fs = "concat (map fst bs)"
  have inj: "inj_on (of_nat :: nat \<Rightarrow> u32) {..n}" using assms(1) by (auto simp: inj_on_def word_of_nat_eq_iff take_bit_nat_eq_self)
  have set: "fSeq ` set ?fs = of_nat ` {1..n}"
    using arg_cong [OF assms(3), of set_mset] by (simp add: atLeastLessThanSuc_atLeastAtMost del: upt_Suc)
  have "distinct (map of_nat [1..<Suc n] :: u32 list)"     unfolding distinct_map using inj_on_subset [OF inj, of "set [1..<Suc n]"] by (simp del: upt_Suc add: subset_iff)
  then have dist: "distinct (map fSeq ?fs)" using mset_eq_imp_distinct_iff [OF assms(3)] by blast
  have len: "length ?fs = n" using arg_cong [OF assms(3), of size] by simp
  have "taking 1 (newDeliveryBuffer g m) [] []" using db_inv_New by (simp add: taking_def newDeliveryBuffer_def)
  moreover have "int n \<le> db_maxPending (newDeliveryBuffer g m)" using assms(2) by (simp add: newDeliveryBuffer_def)
  moreover have "\<exists>s. fSeq f = of_nat s \<and> 1 \<le> s \<and> s \<le> n" if "f \<in> set ?fs" for f
  proof -
    have "fSeq f \<in> of_nat ` {1..n}" using imageI [OF that, of fSeq] by (simp only: set)
    then show ?thesis by auto
  qed
  ultimately obtain N' where t: "taking N' (fst r) (snd r) ?fs"
    using taking_batches [OF assms(1), of bs "[]" 1 "newDeliveryBuffer g m" "[]" rng] dist len assms(4) by auto
  have inv: "db_next (fst r) = of_nat N'" "ahead (db_next (fst r)) (db_pending (fst r))" "db_next (fst r) \<notin> fst ` set (db_pending (fst r))"
    "1 \<le> N'" "map fSeq (snd r) = map of_nat [1..<N']" "mset ?fs = mset (map snd (db_pending (fst r))) + mset (snd r)"
    using t unfolding taking_def db_inv_def by blast+
  have "N' = Suc n"
  proof (rule ccontr)
    assume "N' \<noteq> Suc n"
    then have "N' \<in> {1..n}" using taking_counts(2) [OF t] len inv(4) by simp
    then have "of_nat N' \<in> fSeq ` set ?fs" using set by blast
    then have "of_nat N' \<in> (of_nat ` {1..<N'} :: u32 set)" using taking_seqs [OF t inv(2)] inv(1,3) by auto
    then show False using inj \<open>N' \<in> {1..n}\<close> by (auto dest: inj_onD)
  qed
  moreover have "length (snd r) = n" using arg_cong [OF inv(5), of length] calculation by simp
  moreover have "db_pending (fst r) = []" using arg_cong [OF inv(6), of size] len calculation(2) by simp
  ultimately show ?thesis using inv(5,6) by (simp add: pendingCount_def)
qed

theorem delivery_reorders_witness:
  "map fSeq (snd (exec (db_step id) (newDeliveryBuffer 0 0)
     (map (\<lambda>(fs, now). DBPush fs now) [([zero_frame\<lparr>fSeq := 2\<rparr>], 1), ([zero_frame\<lparr>fSeq := 3\<rparr>, zero_frame\<lparr>fSeq := 1\<rparr>], 2)]))) = [1, 2, 3]"
  using delivery_reorders [of 3 0 "[([zero_frame\<lparr>fSeq := 2\<rparr>], 1), ([zero_frame\<lparr>fSeq := 3\<rparr>, zero_frame\<lparr>fSeq := 1\<rparr>], 2)]" _ id 0, OF _ _ _ refl]
  by (simp add: upt_rec)

text \<open>
  C30: A hole does not stall the stream, except before number 0.  In every state a run reaches in
  which no frame carried the number 0, if frames are pending the gap timer is running, and every tick
  from its expiry on delivers the lowest pending frame first and leaves fewer frames pending.  A
  buffer in which the frame with number 0 is the only one pending, after a wrap of the counter, is
  the exception: the tick at the expiry delivers nothing and stops the timer with the frame still
  pending, so that no later tick delivers it either.
\<close>

theorem delivery_skips_hole:
  assumes "visits_all rng" "list_all numbered evs" "d = fst (exec (db_step rng) (newDeliveryBuffer g m) evs)" "0 < pendingCount d"
  shows "(\<exists>t. db_gapSince d = Some t \<and> (\<forall>now. t + db_gapTimeout d \<le> now \<longrightarrow>
    (\<exists>f new. snd (delivery_Tick rng d now) = f # new \<and> f \<in> snd ` set (db_pending d)
       \<and> (\<forall>f'\<in>snd ` set (db_pending d). fSeq f' = fSeq f \<or> seq_before (fSeq f) (fSeq f'))
       \<and> pendingCount (fst (delivery_Tick rng d now)) < pendingCount d)))
    \<and> (\<forall>d f t now now'. db_pending d = [(0, f)] \<and> db_gapSince d = Some t \<and> t + db_gapTimeout d \<le> now \<longrightarrow>
       snd (delivery_Tick rng d now) = [] \<and> db_pending (fst (delivery_Tick rng d now)) = [(0, f)] \<and>
       delivery_Tick rng (fst (delivery_Tick rng d now)) now' = (fst (delivery_Tick rng d now), []))"
proof -
  obtain N where inv: "db_inv N d" using db_run [OF db_inv_New assms(1,2)] assms(3) by blast
  then have i: "db_next d = of_nat N" "ahead (db_next d) (db_pending d)" "db_gapSince d = None \<longleftrightarrow> db_pending d = []"
    unfolding db_inv_def by blast+
  obtain t where t: "db_gapSince d = Some t" using i(3) assms(4) by (auto simp: pendingCount_def)
  have "\<exists>f new. snd (delivery_Tick rng d now) = f # new \<and> f \<in> snd ` set (db_pending d)
       \<and> (\<forall>f'\<in>snd ` set (db_pending d). fSeq f' = fSeq f \<or> seq_before (fSeq f) (fSeq f'))
       \<and> pendingCount (fst (delivery_Tick rng d now)) < pendingCount d" if "t + db_gapTimeout d \<le> now" for now
  proof -
    have "db_gapTimeout d \<le> now - t" using that by simp
    then obtain lo where lo: "delivery_Tick rng d now = drainContiguous (d\<lparr>db_next := lo\<rparr>) []" "lo \<in> fst ` set (db_pending d)"
      "lo \<noteq> 0" "\<forall>s\<in>fst ` set (db_pending d). unat (lo - db_next d) \<le> unat (s - db_next d)"
      by (rule Tick_skip [OF inv assms(1) t])
    obtain f where f: "map_of (db_pending d) lo = Some f" using lo(2) by (metis map_of_eq_None_iff option.exhaust)
    let ?d = "d\<lparr>db_next := lo\<rparr>"
    have "ahead (db_next ?d) (db_pending ?d)" "db_next ?d = of_nat (N + unat (lo - db_next d))"
      using ahead_skip [OF i(2) lo(4)] i(1) by simp_all
    moreover have "map_of (db_pending ?d) (db_next ?d) = Some f" using f by simp
    ultimately obtain new where new: "snd (drainContiguous ?d []) = f # new" "pendingCount (fst (drainContiguous ?d [])) < pendingCount ?d"
      using drain_first by blast
    have mem: "(lo, f) \<in> set (db_pending d)" using f by (rule map_of_SomeD)
    have "fSeq f' = fSeq f \<or> seq_before (fSeq f) (fSeq f')" if "f' \<in> snd ` set (db_pending d)" for f'
      by (rule lowest_before [OF i(2) mem lo(4) that])
    then show ?thesis using new lo(1) mem by (force simp: pendingCount_def)
  qed
  moreover have "snd (delivery_Tick rng d now) = [] \<and> db_pending (fst (delivery_Tick rng d now)) = [(0, f)] \<and>
      delivery_Tick rng (fst (delivery_Tick rng d now)) now' = (fst (delivery_Tick rng d now), [])"
    if "db_pending d = [(0, f)]" "db_gapSince d = Some t" "t + db_gapTimeout d \<le> now" for d f t now now'
  proof -
    have "rng [0] = [0]" using assms(1) by (metis mset_single_iff_right visits_all_def mset.simps)
    then show ?thesis using that by (simp add: delivery_Tick_def)
  qed
  ultimately show ?thesis using t by blast
qed

theorem delivery_skips_hole_witness:
  "\<exists>t. db_gapSince (fst (exec (db_step id) (newDeliveryBuffer 0 0) [DBPush [zero_frame\<lparr>fSeq := 3\<rparr>] 5])) = Some t"
proof -
  let ?evs = "[DBPush [zero_frame\<lparr>fSeq := 3\<rparr>] 5]"
  have "visits_all id" "list_all numbered ?evs" by (simp_all add: visits_all_def numbered_def)
  moreover have "0 < pendingCount (fst (exec (db_step id) (newDeliveryBuffer 0 0) ?evs))" by code_simp
  ultimately show ?thesis using delivery_skips_hole [of id ?evs _ 0 0, OF _ _ refl] by blast
qed

text \<open>
  C31: The bound on the pending frames does not hold.  When the new frame is itself the lowest,
  the guard deletes nothing and still counts a drop, so a stream that arrives in descending
  order grows the buffer by one for every frame, whatever \<open>maxPending\<close> says.
\<close>

theorem bdp_guard_unbounded:
  assumes "visits_all rng" "2 \<le> n" "n < 2 ^ 31"
  shows "pendingCount (fst (delivery_Push rng (newDeliveryBuffer g m) (descending 2 n) now)) = n - 2"
proof -
  have "map fst (db_pending (fst (delivery_Push rng (newDeliveryBuffer g m) (descending 2 n) now))) = map of_nat (rev [2..<n])"
    unfolding delivery_Push_def using descending_grows [OF assms(1,3) order.refl] by blast
  from arg_cong [OF this, of length] show ?thesis by (simp add: pendingCount_def)
qed

theorem bdp_guard_unbounded_witness:
  "pendingCount (fst (delivery_Push id (newDeliveryBuffer 0 1) (descending 2 5002) 0)) = 5000"
  using bdp_guard_unbounded [of id 5002 0 1 0] by (simp add: visits_all_def)

text \<open>
  C32: The timer of one hole is inherited by the next.  Frame 2 arrives at time 0 and starts the
  timer; at \<open>t\<close>, just before it expires, frame 5 and then the missing frame 1 arrive, so 1 and 2
  are delivered and the hole at 3 and 4 is new.  At the expiry of the old timer the tick skips
  the new hole at once, although it has been open only since \<open>t\<close>.
\<close>

theorem gap_timer_inherited:
  assumes "fSeq f1 = 1" "fSeq f2 = 2" "fSeq f5 = 5" "visits_all rng" "1 < m" "0 < g" "t < g"
  shows "snd (exec (db_step rng) (newDeliveryBuffer g m) [DBPush [f2] 0, DBPush [f5, f1] t, DBTick g]) = [f1, f2, f5]"
proof -
  have r: "mset (rng [5]) = mset [5]" using assms(4) by (simp only: visits_all_def)
  then have "rng [5] = [5]" by simp
  then show ?thesis
    using assms by (simp add: newDeliveryBuffer_def delivery_Push_def push_one_def delivery_Tick_def seq_before_def drainContiguous_def
        drain_loop.simps Let_def)
qed

theorem gap_timer_inherited_witness:
  "snd (exec (db_step id) (newDeliveryBuffer 100 10)
     [DBPush [zero_frame\<lparr>fSeq := 2\<rparr>] 0, DBPush [zero_frame\<lparr>fSeq := 5\<rparr>, zero_frame\<lparr>fSeq := 1\<rparr>] 99, DBTick 100])
   = [zero_frame\<lparr>fSeq := 1\<rparr>, zero_frame\<lparr>fSeq := 2\<rparr>, zero_frame\<lparr>fSeq := 5\<rparr>]"
  by (rule gap_timer_inherited) (simp_all add: visits_all_def)

end
