(* ===== verification/Wan_Queue.thy ===== *)
theory Wan_Queue
  imports Float64 "HOL-Library.Sublist"
begin

text \<open>
  The send queue of one uplink, \<open>internal/tunnel/wanqueue.go\<close>: a byte-bounded FIFO with two
  overflow policies and a token bucket that paces the consumer. Every method body between two
  lock operations is one step; the readings of the clock, the state of the context and the
  choice of a \<open>select\<close> with two ready cases are arguments. Doubles are those of \<open>Float64\<close>.

  Shown here: the queue never holds more than its bound and accounts for every byte and every
  frame; what leaves it is what went in, in order, without the frames the policy dropped; the
  bucket stays between empty and full, and a frame the queue accepted can always be sent.
\<close>

section \<open>State and operations\<close>

datatype queueDrop = dropOldest | dropNewest

definition parseQueueDrop :: "string \<Rightarrow> string + queueDrop" where
  "parseQueueDrop s =
     (if s = ''oldest'' then Inr dropOldest
      else if s = ''newest'' then Inr dropNewest
      else Inl s)"

record sendQueue =
  q_wake :: bool
  q_closed :: bool
  q_maxBytes :: int
  q_drop :: queueDrop
  q_q :: "bytes list"
  q_bytes :: int
  q_rate :: f64
  q_burst :: f64
  q_tokens :: f64
  q_lastRef :: int
  q_framesSent :: nat
  q_bytesSent :: nat
  q_dropped :: nat

definition newSendQueue :: "int \<Rightarrow> queueDrop \<Rightarrow> f64 \<Rightarrow> int \<Rightarrow> sendQueue" where
  "newSendQueue maxBytes drp rateBps now =
     (let maxBytes = (if maxBytes \<le> 0 then 262144 else maxBytes)
      in \<lparr>q_wake = False, q_closed = False, q_maxBytes = maxBytes, q_drop = drp, q_q = [], q_bytes = 0,
          q_rate = rateBps, q_burst = f64_of_int maxBytes, q_tokens = f64_of_int maxBytes, q_lastRef = now,
          q_framesSent = 0, q_bytesSent = 0, q_dropped = 0\<rparr>)"

text \<open>\<open>signal\<close>: the channel holds one token; a second send takes the default case.\<close>

definition signal :: "sendQueue \<Rightarrow> sendQueue" where
  "signal q = q\<lparr>q_wake := True\<rparr>"

text \<open>The loop that evicts the oldest frames; the flag is false when the queue runs empty first.\<close>

fun evict :: "int \<Rightarrow> int \<Rightarrow> bytes list \<Rightarrow> int \<Rightarrow> nat \<Rightarrow> bytes list \<times> int \<times> nat \<times> bool" where
  "evict n maxBytes [] bytes dropped =
     (if bytes + n > maxBytes then ([], bytes, dropped + 1, False) else ([], bytes, dropped, True))"
| "evict n maxBytes (h # q) bytes dropped =
     (if bytes + n > maxBytes then evict n maxBytes q (bytes - int (length h)) (dropped + 1)
      else (h # q, bytes, dropped, True))"

definition append_frame :: "sendQueue \<Rightarrow> bytes \<Rightarrow> sendQueue" where
  "append_frame q b = signal (q\<lparr>q_q := q_q q @ [b], q_bytes := q_bytes q + int (length b)\<rparr>)"

definition enqueue :: "sendQueue \<Rightarrow> bytes \<Rightarrow> sendQueue \<times> bool" where
  "enqueue q b =
     (if q_closed q then (q, False)
      else if int (length b) > q_maxBytes q then (q\<lparr>q_dropped := q_dropped q + 1\<rparr>, False)
      else if q_bytes q + int (length b) > q_maxBytes q then
        (case q_drop q of
           dropNewest \<Rightarrow> (q\<lparr>q_dropped := q_dropped q + 1\<rparr>, False)
         | dropOldest \<Rightarrow>
             (case evict (int (length b)) (q_maxBytes q) (q_q q) (q_bytes q) (q_dropped q) of
                (fs, bytes, dropped, ok) \<Rightarrow>
                  (let q = q\<lparr>q_q := fs, q_bytes := bytes, q_dropped := dropped\<rparr>
                   in if ok then (append_frame q b, True) else (q, False))))
      else (append_frame q b, True))"

text \<open>
  \<open>popNext\<close> up to the point where it returns or parks. \<open>ctx\<close>: the context is done; \<open>pick\<close>: which
  of two ready cases the \<open>select\<close> takes. After a wake-up token the loop looks at the queue
  again and, finding it empty, selects without a token.
\<close>

datatype pop_result = Got bytes | Stopped | Parked

definition popNext :: "sendQueue \<Rightarrow> bool \<Rightarrow> bool \<Rightarrow> sendQueue \<times> pop_result" where
  "popNext q ctx pick =
     (case q_q q of
        b # fs \<Rightarrow>
          (q\<lparr>q_q := fs, q_bytes := q_bytes q - int (length b), q_framesSent := q_framesSent q + 1,
             q_bytesSent := q_bytesSent q + length b\<rparr>, Got b)
      | [] \<Rightarrow>
          if q_closed q then (q, Stopped)
          else if q_wake q \<and> \<not> (ctx \<and> pick) then (q\<lparr>q_wake := False\<rparr>, if ctx then Stopped else Parked)
          else if ctx then (q, Stopped)
          else (q, Parked))"

definition Seconds :: "int \<Rightarrow> f64" where
  "Seconds d = fadd (f64_of_int (quo d Second)) (fdiv (f64_of_int (d - quo d Second * Second)) (f64_of_int Second))"

text \<open>One pass of the loop of \<open>takeTokens\<close>: \<open>None\<close> when the tokens were taken, else how long to wait.\<close>

definition refill :: "sendQueue \<Rightarrow> int \<Rightarrow> sendQueue" where
  "refill q now =
     (let elapsed = Seconds (now - q_lastRef q)
      in q\<lparr>q_lastRef := now, q_tokens := fmin (q_burst q) (fadd (q_tokens q) (fmul elapsed (q_rate q)))\<rparr>)"

definition take_once :: "sendQueue \<Rightarrow> nat \<Rightarrow> int \<Rightarrow> sendQueue \<times> int option" where
  "take_once q n now =
     (let need = f64_of_int (int n);
          q = refill q now
      in if fle need (q_tokens q) then (q\<lparr>q_tokens := fsub (q_tokens q) need\<rparr>, None)
         else (q, Some (f64_trunc (fmul (fdiv (fsub need (q_tokens q)) (q_rate q)) (f64_of_int Second)))))"

text \<open>
  \<open>takeTokens\<close> over the successive readings of the clock, each with the state of the context;
  \<open>None\<close> when it is still waiting after the last one.
\<close>

fun takeTokens :: "sendQueue \<Rightarrow> nat \<Rightarrow> (int \<times> bool) list \<Rightarrow> sendQueue \<times> bool option" where
  "takeTokens q n [] = (q, None)"
| "takeTokens q n ((now, ctx) # clock) =
     (if fle (q_rate q) (Fin 0) then (q, Some (\<not> ctx))
      else case take_once q n now of
        (q, None) \<Rightarrow> (q, Some (\<not> ctx))
      | (q, Some wait) \<Rightarrow> if ctx then (q, Some False) else takeTokens q n clock)"

text \<open>
  \<open>run\<close>: one entry per round, the state of the context at \<open>popNext\<close> and the clock readings of
  \<open>takeTokens\<close>. The frames handed to \<open>send\<close> are the result; an error of \<open>send\<close> is only logged.
\<close>

fun queue_run :: "sendQueue \<Rightarrow> (bool \<times> bool \<times> (int \<times> bool) list) list \<Rightarrow> sendQueue \<times> bytes list" where
  "queue_run q [] = (q, [])"
| "queue_run q ((ctx, pick, clock) # rounds) =
     (case popNext q ctx pick of
        (q, Got b) \<Rightarrow>
          (case takeTokens q (length b) clock of
             (q, Some True) \<Rightarrow> (let (q, sent) = queue_run q rounds in (q, b # sent))
           | (q, _) \<Rightarrow> (q, []))
      | (q, Stopped) \<Rightarrow> (q, [])
      | (q, Parked) \<Rightarrow> queue_run q rounds)"

definition close_queue :: "sendQueue \<Rightarrow> sendQueue" where
  "close_queue q = signal (q\<lparr>q_closed := True\<rparr>)"

definition queue_stats :: "sendQueue \<Rightarrow> nat \<times> nat \<times> nat" where
  "queue_stats q = (q_framesSent q, q_bytesSent q, q_dropped q)"

section \<open>Runs and accounting\<close>

datatype q_event = QEnqueue bytes | QPop bool bool | QTake nat int | QClose
datatype q_output = Accepted bytes | Refused bytes | Popped bytes

fun q_step :: "sendQueue \<Rightarrow> q_event \<Rightarrow> sendQueue \<times> q_output list" where
  "q_step q (QEnqueue b) = (let (q', ok) = enqueue q b in (q', [if ok then Accepted b else Refused b]))"
| "q_step q (QPop ctx pick) = (case popNext q ctx pick of (q, Got b) \<Rightarrow> (q, [Popped b]) | (q, _) \<Rightarrow> (q, []))"
| "q_step q (QTake n now) = (fst (take_once q n now), [])"
| "q_step q QClose = (close_queue q, [])"

definition accepted :: "q_output list \<Rightarrow> bytes list" where
  "accepted os = concat (map (\<lambda>x. case x of Accepted b \<Rightarrow> [b] | _ \<Rightarrow> []) os)"

definition popped :: "q_output list \<Rightarrow> bytes list" where
  "popped os = concat (map (\<lambda>x. case x of Popped b \<Rightarrow> [b] | _ \<Rightarrow> []) os)"

definition offered :: "q_output list \<Rightarrow> nat" where
  "offered os = length (filter (\<lambda>x. case x of Popped b \<Rightarrow> False | _ \<Rightarrow> True) os)"

definition q_inv :: "sendQueue \<Rightarrow> bool" where
  "q_inv q \<longleftrightarrow> q_bytes q = (\<Sum>b\<leftarrow>q_q q. int (length b)) \<and> q_bytes q \<le> q_maxBytes q \<and> 0 < q_maxBytes q"

lemma evict_spec:
  assumes "bytes = (\<Sum>b\<leftarrow>q. int (length b))" "0 \<le> n" "n \<le> mx"
  shows "\<exists>k. evict n mx q bytes dropped = (drop k q, \<Sum>b\<leftarrow>drop k q. int (length b), dropped + k, True)
    \<and> k \<le> length q \<and> (\<Sum>b\<leftarrow>drop k q. int (length b)) + n \<le> mx \<and> (\<forall>j<k. mx < (\<Sum>b\<leftarrow>drop j q. int (length b)) + n)"
  using assms(1)
proof (induction q arbitrary: bytes dropped)
  case Nil
  then show ?case using assms(3) by simp
next
  case (Cons h q)
  show ?case
  proof (cases "bytes + n > mx")
    case True
    obtain k where "evict n mx q (bytes - int (length h)) (dropped + 1) = (drop k q, \<Sum>b\<leftarrow>drop k q. int (length b), dropped + 1 + k, True)"
      "k \<le> length q" "(\<Sum>b\<leftarrow>drop k q. int (length b)) + n \<le> mx" "\<forall>j<k. mx < (\<Sum>b\<leftarrow>drop j q. int (length b)) + n"
      using Cons.IH [of "bytes - int (length h)" "dropped + 1"] Cons.prems by auto
    moreover have "mx < (\<Sum>b\<leftarrow>drop j (h # q). int (length b)) + n" if "j < Suc k" for j
      using that True Cons.prems calculation(4) by (cases j) auto
    ultimately show ?thesis using True by (intro exI [of _ "Suc k"]) simp
  next
    case False
    then show ?thesis using Cons.prems by (intro exI [of _ 0]) simp
  qed
qed

text \<open>An offered frame is appended after \<open>k\<close> evictions, or refused.\<close>

lemma enqueue_cases:
  assumes "q_inv q"
  obtains (closed) "enqueue q b = (q, False)" "q_closed q"
  | (refused) "enqueue q b = (q\<lparr>q_dropped := q_dropped q + 1\<rparr>, False)" "\<not> q_closed q"
  | (appended) k where "enqueue q b = (append_frame (q\<lparr>q_q := drop k (q_q q), q_bytes := \<Sum>b\<leftarrow>drop k (q_q q). int (length b),
        q_dropped := q_dropped q + k\<rparr>) b, True)"
      "\<not> q_closed q" "k \<le> length (q_q q)" "(\<Sum>b\<leftarrow>drop k (q_q q). int (length b)) + int (length b) \<le> q_maxBytes q"
      "q_drop q = dropNewest \<Longrightarrow> k = 0"
proof -
  have b: "q_bytes q = (\<Sum>b\<leftarrow>q_q q. int (length b))" using assms by (simp add: q_inv_def)
  consider (shut) "q_closed q" | (big) "\<not> q_closed q" "int (length b) > q_maxBytes q"
    | (full) "\<not> q_closed q" "int (length b) \<le> q_maxBytes q" "q_bytes q + int (length b) > q_maxBytes q"
    | (fits) "\<not> q_closed q" "int (length b) \<le> q_maxBytes q" "q_bytes q + int (length b) \<le> q_maxBytes q" by linarith
  then show thesis
  proof cases
    case full
    obtain k where "evict (int (length b)) (q_maxBytes q) (q_q q) (q_bytes q) (q_dropped q)
        = (drop k (q_q q), \<Sum>b\<leftarrow>drop k (q_q q). int (length b), q_dropped q + k, True)"
      "k \<le> length (q_q q)" "(\<Sum>b\<leftarrow>drop k (q_q q). int (length b)) + int (length b) \<le> q_maxBytes q"
      using evict_spec [OF b, of "int (length b)" "q_maxBytes q" "q_dropped q"] full by auto
    then show thesis using full refused appended [of k] by (cases "q_drop q") (simp_all add: enqueue_def)
  next
    case fits
    have "q\<lparr>q_q := drop 0 (q_q q), q_bytes := \<Sum>b\<leftarrow>drop 0 (q_q q). int (length b), q_dropped := q_dropped q + 0\<rparr> = q"
      using b [symmetric] by simp
    moreover have "enqueue q b = (append_frame q b, True)" using fits by (simp add: enqueue_def)
    moreover have "(\<Sum>b\<leftarrow>drop 0 (q_q q). int (length b)) + int (length b) \<le> q_maxBytes q" using fits(3) b by simp
    ultimately show thesis by (intro appended [of 0]) (simp_all only: fits(1) not_False_eq_True le0)
  next
    case shut
    then show thesis by (intro closed) (simp_all add: enqueue_def)
  next
    case big
    then show thesis by (intro refused) (simp_all add: enqueue_def)
  qed
qed

text \<open>
  What an offer does: it is refused exactly when the queue is closed, the frame is larger than the
  whole queue, or the policy is \<open>newest\<close> and there is no room; a refusal leaves the frames alone;
  otherwise the frame goes to the end, and the frames evicted before it are the oldest ones, no
  more than needed.
\<close>

lemma enqueue_accepts:
  assumes "q_inv q"
  shows "snd (enqueue q b) \<longleftrightarrow> \<not> q_closed q \<and> int (length b) \<le> q_maxBytes q \<and> (q_drop q = dropOldest \<or> q_bytes q + int (length b) \<le> q_maxBytes q)"
proof -
  have b: "q_bytes q = (\<Sum>b\<leftarrow>q_q q. int (length b))" using assms by (simp add: q_inv_def)
  show ?thesis using evict_spec [OF b, of "int (length b)" "q_maxBytes q" "q_dropped q"]
    by (cases "q_drop q") (auto simp: enqueue_def)
qed

lemma enqueue_frames:
  assumes "q_inv q"
  shows "if snd (enqueue q b)
    then \<exists>k\<le>length (q_q q). q_q (fst (enqueue q b)) = drop k (q_q q) @ [b] \<and> (\<forall>j<k. q_maxBytes q < (\<Sum>b\<leftarrow>drop j (q_q q). int (length b)) + int (length b))
    else q_q (fst (enqueue q b)) = q_q q"
proof (cases "snd (enqueue q b)")
  case False
  from assms show ?thesis by (cases rule: enqueue_cases [where b = b]) (use False in simp_all)
next
  case True
  have s: "q_bytes q = (\<Sum>b\<leftarrow>q_q q. int (length b))" using assms by (simp add: q_inv_def)
  have len: "\<not> q_closed q" "int (length b) \<le> q_maxBytes q" using True enqueue_accepts [OF assms] by simp_all
  obtain k where k: "evict (int (length b)) (q_maxBytes q) (q_q q) (q_bytes q) (q_dropped q)
      = (drop k (q_q q), \<Sum>b\<leftarrow>drop k (q_q q). int (length b), q_dropped q + k, True)" "k \<le> length (q_q q)"
      "\<forall>j<k. q_maxBytes q < (\<Sum>b\<leftarrow>drop j (q_q q). int (length b)) + int (length b)"
    using evict_spec [OF s, of "int (length b)" "q_maxBytes q" "q_dropped q"] len by auto
  show ?thesis
  proof (cases "q_bytes q + int (length b) > q_maxBytes q")
    case True
    then have "enqueue q b = (append_frame (q\<lparr>q_q := drop k (q_q q), q_bytes := \<Sum>b\<leftarrow>drop k (q_q q). int (length b), q_dropped := q_dropped q + k\<rparr>) b, True)"
      using len k(1) \<open>snd (enqueue q b)\<close> by (cases "q_drop q") (simp_all add: enqueue_def)
    then show ?thesis using k(2,3) by (auto simp: append_frame_def signal_def)
  next
    case False
    then show ?thesis using len by (auto simp: enqueue_def append_frame_def signal_def intro: exI [of _ 0])
  qed
qed

text \<open>What one step does to the frames: what leaves and stays is a part, in order, of what was there and came in.\<close>

definition flows :: "sendQueue \<Rightarrow> q_output list \<Rightarrow> sendQueue \<Rightarrow> bool" where
  "flows q os q' \<longleftrightarrow>
     subseq (popped os @ q_q q') (q_q q @ accepted os) \<and> q_drop q' = q_drop q \<and> q_maxBytes q' = q_maxBytes q \<and>
     (q_drop q = dropNewest \<longrightarrow> popped os @ q_q q' = q_q q @ accepted os) \<and>
     q_framesSent q' = q_framesSent q + length (popped os) \<and>
     q_bytesSent q' = q_bytesSent q + (\<Sum>b\<leftarrow>popped os. length b) \<and>
     (\<not> q_closed q' \<longrightarrow> \<not> q_closed q \<and> length (q_q q) + offered os + q_dropped q = length (popped os) + length (q_q q') + q_dropped q')"

lemmas output_defs = accepted_def popped_def offered_def

lemma q_step_flows: "q_inv q \<Longrightarrow> flows q (snd (q_step q ev)) (fst (q_step q ev))"
proof (cases ev)
  case (QEnqueue b)
  assume "q_inv q"
  then show ?thesis
  proof (cases rule: enqueue_cases [where b = b])
    case (appended k)
    have "subseq (drop k (q_q q) @ [b]) (q_q q @ [b])" by (simp add: subseq_append suffix_imp_subseq suffix_drop)
    then show ?thesis using appended QEnqueue by (auto simp: flows_def output_defs append_frame_def signal_def)
  qed (simp_all add: QEnqueue flows_def output_defs)
next
  case (QPop ctx pick)
  then show ?thesis by (auto simp: flows_def output_defs popNext_def split: list.split)
next
  case (QTake n now)
  then show ?thesis by (auto simp: flows_def output_defs take_once_def refill_def Let_def)
next
  case QClose
  then show ?thesis by (auto simp: flows_def output_defs close_queue_def signal_def)
qed

lemma q_step_inv: "q_inv q \<Longrightarrow> q_inv (fst (q_step q ev))"
proof (cases ev)
  case (QEnqueue b)
  assume inv: "q_inv q"
  then show ?thesis
    by (cases rule: enqueue_cases [where b = b]) (use inv in \<open>simp_all add: QEnqueue q_inv_def append_frame_def signal_def\<close>)
next
  case (QPop ctx pick)
  assume "q_inv q"
  then show ?thesis using QPop by (auto simp: q_inv_def popNext_def split: list.split)
next
  case (QTake n now)
  assume "q_inv q"
  then show ?thesis using QTake by (auto simp: q_inv_def take_once_def refill_def Let_def)
next
  case QClose
  assume "q_inv q"
  then show ?thesis using QClose by (auto simp: q_inv_def close_queue_def signal_def)
qed

interpretation wan: stateful q_step q_inv "\<lambda>_. True"
  by unfold_locales (rule q_step_inv)

lemma outputs_append:
  "accepted (xs @ ys) = accepted xs @ accepted ys" "popped (xs @ ys) = popped xs @ popped ys" "offered (xs @ ys) = offered xs + offered ys"
  by (simp_all add: output_defs)

lemma flows_trans:
  assumes "flows q xs q'" "flows q' ys q''"
  shows "flows q (xs @ ys) q''"
proof -
  have "subseq (popped xs @ popped ys @ q_q q'') (popped xs @ q_q q' @ accepted ys)"
    using assms(2) unfolding flows_def by (meson list_emb_append_mono subseq_order.refl)
  moreover have "subseq ((popped xs @ q_q q') @ accepted ys) ((q_q q @ accepted xs) @ accepted ys)"
    using assms(1) unfolding flows_def by (meson list_emb_append_mono subseq_order.refl)
  ultimately have "subseq (popped xs @ popped ys @ q_q q'') (q_q q @ accepted xs @ accepted ys)"
    using subseq_order.trans by simp
  then show ?thesis using assms by (auto simp: flows_def outputs_append)
qed

lemma q_run_flows: "q_inv q \<Longrightarrow> flows q (snd (exec q_step q evs)) (fst (exec q_step q evs))"
proof (induction evs arbitrary: q)
  case Nil
  then show ?case by (simp add: flows_def output_defs)
next
  case (Cons ev evs)
  then have "flows q (snd (q_step q ev) @ snd (exec q_step (fst (q_step q ev)) evs)) (fst (exec q_step (fst (q_step q ev)) evs))"
    using q_step_flows q_step_inv by (intro flows_trans) auto
  then show ?case by (simp add: Let_def case_prod_unfold)
qed

lemma q_inv_New: "q_inv (newSendQueue mx drp rate now)"
  by (simp add: q_inv_def newSendQueue_def Let_def)

section \<open>The bucket\<close>

text \<open>A bucket with a positive rate and a level between empty and full; its size is exact as a double.\<close>

definition bucket_ok :: "sendQueue \<Rightarrow> bool" where
  "bucket_ok q \<longleftrightarrow>
     q_maxBytes q \<le> 2 ^ 53 \<and> 0 < q_maxBytes q \<and> q_burst q = Fin (of_int (q_maxBytes q)) \<and> wf_f64 (q_tokens q) \<and>
     (\<exists>r>0. q_rate q = Fin r) \<and> (\<exists>t. q_tokens q = Fin t \<and> 0 \<le> t \<and> t \<le> of_int (q_maxBytes q))"

definition at_least :: "rat \<Rightarrow> f64 \<Rightarrow> bool" where
  "at_least v x \<longleftrightarrow> x = PInf \<or> (\<exists>w. x = Fin w \<and> v \<le> w)"

lemma at_least_simps [simp]: "at_least v (Fin w) \<longleftrightarrow> v \<le> w" "at_least v PInf" "\<not> at_least v NInf" "\<not> at_least v NaN"
  by (simp_all add: at_least_def)

lemma at_least_of: "v \<le> r \<Longrightarrow> rnd v = v \<Longrightarrow> 0 \<le> v \<Longrightarrow> at_least v (f64_of r)"
  using rnd_mono [of v r] by (auto simp: f64_of_def Let_def)

lemma at_least_add: "at_least v x \<Longrightarrow> at_least 0 y \<Longrightarrow> rnd v = v \<Longrightarrow> 0 \<le> v \<Longrightarrow> at_least v (fadd x y)"
  by (cases x; cases y; simp add: at_least_of)

lemma at_least_mul:
  assumes "at_least v x" "0 < r" "w \<le> v * r" "rnd w = w" "0 \<le> w" "0 \<le> v"
  shows "at_least w (fmul x (Fin r))"
proof (cases x)
  case (Fin a)
  have "v * r \<le> a * r" using assms(1,2) Fin by (intro mult_right_mono) simp_all
  with assms(3) have "w \<le> a * r" by (rule order.trans)
  then show ?thesis using assms(4,5) Fin by (simp add: at_least_of)
qed (use assms in \<open>simp_all add: signed_inf_def\<close>)

lemma at_least_Seconds:
  assumes "k * Second \<le> d" "0 \<le> k" "k \<le> 2 ^ 53"
  shows "at_least (of_int k) (Seconds d)"
proof -
  have d: "0 \<le> d" "k \<le> d div Second" using assms by (simp_all add: Second_def)
  have s: "Seconds d = fadd (f64_of_int (d div Second)) (fdiv (f64_of_int (d mod Second)) (f64_of_int Second))"
    using d(1) by (simp add: Seconds_def quo_nonneg Second_def minus_div_mult_eq_mod)
  have m: "0 \<le> d mod Second" "d mod Second < Second" by (simp_all add: Second_def)
  have "f64_of_int (d mod Second) = Fin (of_int (d mod Second))"
    by (rule f64_of_int_small) (use m in \<open>simp add: Second_def\<close>)
  moreover have "f64_of_int Second = Fin (of_int Second)" by (rule f64_of_int_small) (simp add: Second_def)
  moreover have "(of_int Second :: rat) \<noteq> 0" "0 < Second" by (simp_all add: Second_def)
  moreover have "at_least 0 (f64_of (of_int (d mod Second) / of_int Second))" using m calculation(4) by (intro at_least_of) simp_all
  ultimately have "at_least 0 (fdiv (f64_of_int (d mod Second)) (f64_of_int Second))" by simp
  moreover have "at_least (of_int k) (f64_of_int (d div Second))"
    unfolding f64_of_int_def using assms(2,3) d(2) by (intro at_least_of) simp_all
  moreover have "rnd (of_int k) = of_int k" using assms(2,3) by simp
  ultimately show ?thesis unfolding s using assms(2) by (intro at_least_add) simp_all
qed

text \<open>After a refill the bucket is within its bounds; with enough time since the last one it is full.\<close>

lemma refill_ok:
  assumes b: "bucket_ok q" and t: "q_lastRef q \<le> now"
  shows "bucket_ok (refill q now)"
    and "q_rate q = Fin r \<Longrightarrow> 0 \<le> k \<Longrightarrow> k \<le> 2 ^ 53 \<Longrightarrow> of_int (q_maxBytes q) \<le> of_int k * r \<Longrightarrow> q_lastRef q + k * Second \<le> now \<Longrightarrow>
      q_tokens (refill q now) = Fin (of_int (q_maxBytes q))"
proof -
  let ?B = "of_int (q_maxBytes q) :: rat" and ?x = "\<lambda>r. fadd (q_tokens q) (fmul (Seconds (now - q_lastRef q)) (Fin r))"
  obtain r0 t0 where q: "q_rate q = Fin r0" "0 < r0" "q_tokens q = Fin t0" "0 \<le> t0" "t0 \<le> ?B" "q_burst q = Fin ?B" "rnd ?B = ?B"
    "0 < q_maxBytes q" "q_maxBytes q \<le> 2 ^ 53" using b by (auto simp: bucket_ok_def)
  have x: "at_least w (?x r0)" if "at_least v (Seconds (now - q_lastRef q))" "w \<le> v * r0" "rnd w = w" "0 \<le> w" "0 \<le> v" for v w
  proof -
    have "at_least w (fmul (Seconds (now - q_lastRef q)) (Fin r0))" using at_least_mul [OF that(1) q(2) that(2-5)] .
    then show ?thesis
      using q(3,4) that(3,4) at_least_add [of w "fmul (Seconds (now - q_lastRef q)) (Fin r0)" "Fin t0"]
      by (cases "fmul (Seconds (now - q_lastRef q)) (Fin r0)") (simp_all add: add.commute)
  qed
  have tok: "q_tokens (refill q now) = fmin (Fin ?B) (?x r0)" using q by (simp add: refill_def)
  have "at_least 0 (?x r0)" using x [of 0 0] at_least_Seconds [of 0 "now - q_lastRef q"] t by simp
  moreover have "wf_f64 (?x r0)" by simp
  ultimately have "\<exists>t. q_tokens (refill q now) = Fin t \<and> 0 \<le> t \<and> t \<le> ?B \<and> wf_f64 (Fin t)"
    using q(7-9) unfolding tok by (cases "?x r0") (auto simp: fmin_def wf_f64_def)
  then show "bucket_ok (refill q now)" using q by (auto simp: bucket_ok_def refill_def)
  assume k: "q_rate q = Fin r" "0 \<le> k" "k \<le> 2 ^ 53" "?B \<le> of_int k * r" "q_lastRef q + k * Second \<le> now"
  have "at_least (of_int k) (Seconds (now - q_lastRef q))" using k(2,3,5) by (intro at_least_Seconds) simp_all
  then have "at_least ?B (?x r0)" using x k q by simp
  then show "q_tokens (refill q now) = Fin ?B" unfolding tok by (cases "?x r0") (auto simp: fmin_def)
qed

lemma take_once_ok:
  assumes "bucket_ok q" "q_lastRef q \<le> now"
  shows "bucket_ok (fst (take_once q n now)) \<and> q_lastRef (fst (take_once q n now)) = now"
proof -
  have b: "bucket_ok (refill q now)" by (rule refill_ok(1) [OF assms])
  then obtain t where t: "q_tokens (refill q now) = Fin t" "0 \<le> t" "t \<le> of_int (q_maxBytes (refill q now))"
    "q_maxBytes (refill q now) \<le> 2 ^ 53" by (auto simp: bucket_ok_def)
  show ?thesis
  proof (cases "fle (f64_of_int (int n)) (q_tokens (refill q now))")
    case True
    have "at_least 0 (f64_of_int (int n))" unfolding f64_of_int_def by (rule at_least_of) simp_all
    then obtain v where v: "f64_of_int (int n) = Fin v" "0 \<le> v" "v \<le> t"
      using True t(1) by (cases "f64_of_int (int n)") (auto simp: fle_def feq_def)
    have B: "(of_int (q_maxBytes (refill q now)) :: rat) \<le> 2 ^ 53" "rnd (of_int (q_maxBytes (refill q now))) = of_int (q_maxBytes (refill q now))"
      using t(2-4) by (simp_all add: of_int_le_iff [of _ "2 ^ 53", simplified])
    then have "f64_of (t - v) = Fin (rnd (t - v))" using v t by (intro f64_of_small) simp
    moreover have "0 \<le> rnd (t - v)" using v(3) by (simp add: rnd_nonneg)
    moreover have "rnd (t - v) \<le> of_int (q_maxBytes (refill q now))"
      using rnd_mono [of "t - v" "of_int (q_maxBytes (refill q now))"] v(2) t(3) B(2) by simp
    moreover have "wf_f64 (f64_of (t - v))" by simp
    ultimately have "bucket_ok ((refill q now)\<lparr>q_tokens := fsub (Fin t) (Fin v)\<rparr>)"
      using b by (auto simp: bucket_ok_def fsub_def)
    then show ?thesis using True t(1) v(1) by (simp add: take_once_def Let_def refill_def)
  next
    case False
    then show ?thesis using b by (simp add: take_once_def Let_def) (simp add: refill_def)
  qed
qed

text \<open>The readings of the clock along a run do not go back.\<close>

fun clocked :: "int \<Rightarrow> q_event list \<Rightarrow> bool" where
  "clocked t [] \<longleftrightarrow> True"
| "clocked t (QTake n now # evs) \<longleftrightarrow> t \<le> now \<and> clocked now evs"
| "clocked t (_ # evs) \<longleftrightarrow> clocked t evs"

lemma bucket_frame:
  assumes "q_rate q' = q_rate q" "q_burst q' = q_burst q" "q_tokens q' = q_tokens q" "q_maxBytes q' = q_maxBytes q"
  shows "bucket_ok q' \<longleftrightarrow> bucket_ok q"
  using assms by (simp add: bucket_ok_def)

lemma q_step_bucket:
  assumes "\<And>n now. ev \<noteq> QTake n now"
  shows "q_lastRef (fst (q_step q ev)) = q_lastRef q \<and> (bucket_ok (fst (q_step q ev)) \<longleftrightarrow> bucket_ok q)"
proof -
  let ?q = "fst (q_step q ev)"
  have "q_lastRef ?q = q_lastRef q \<and> q_rate ?q = q_rate q \<and> q_burst ?q = q_burst q \<and> q_tokens ?q = q_tokens q \<and> q_maxBytes ?q = q_maxBytes q"
  proof (cases ev)
    case (QEnqueue b)
    then show ?thesis by (auto simp: enqueue_def append_frame_def signal_def Let_def case_prod_unfold split: queueDrop.split)
  next
    case (QPop ctx pick)
    then show ?thesis by (auto simp: popNext_def split: list.split)
  next
    case QClose
    then show ?thesis by (simp add: close_queue_def signal_def)
  qed (use assms in auto)
  then show ?thesis using bucket_frame [of ?q q] by blast
qed

lemma rate_kept: "q_rate (fst (exec q_step q evs)) = q_rate q"
proof (induction evs arbitrary: q)
  case (Cons ev evs)
  have "q_rate (fst (q_step q ev)) = q_rate q"
    by (cases ev) (auto simp: enqueue_def append_frame_def signal_def close_queue_def popNext_def take_once_def refill_def Let_def
        case_prod_unfold split: queueDrop.split list.split)
  then show ?case using Cons.IH [of "fst (q_step q ev)"] by (simp add: Let_def case_prod_unfold)
qed simp

lemma bucket_run:
  assumes "bucket_ok q" "clocked (q_lastRef q) evs"
  shows "bucket_ok (fst (exec q_step q evs))"
  using assms
proof (induction evs arbitrary: q)
  case (Cons ev evs)
  have "bucket_ok (fst (q_step q ev)) \<and> clocked (q_lastRef (fst (q_step q ev))) evs"
  proof (cases "\<exists>n now. ev = QTake n now")
    case True
    then show ?thesis using Cons.prems take_once_ok by auto
  next
    case False
    then have "clocked (q_lastRef q) evs" using Cons.prems(2) by (cases ev) auto
    then show ?thesis using False q_step_bucket [of ev q] Cons.prems(1) by auto
  qed
  then show ?case using Cons.IH by (simp add: Let_def case_prod_unfold)
qed simp

lemma zero_le_lengths: "0 \<le> (\<Sum>b\<leftarrow>fs. int (length b))"
  by (rule sum_list_nonneg) auto

lemma bucket_New:
  assumes "mx \<le> 2 ^ 53" "0 < r"
  shows "bucket_ok (newSendQueue mx drp (Fin r) t)"
proof -
  have "f64_of_int m = Fin (of_int m) \<and> wf_f64 (Fin (of_int m))" if "0 < m" "m \<le> 2 ^ 53" for m
    using f64_of_int_small [of m] wf_f64_of [of "of_int m"] that unfolding f64_of_int_def by (metis abs_of_pos)
  then show ?thesis using assms by (auto simp: newSendQueue_def Let_def bucket_ok_def)
qed

section \<open>Properties\<close>

text \<open>
  C13: The send queue is a bounded FIFO that loses frames only by its drop policy.  In every run of
  offers, pops, pacing steps and closing, the queue holds at most its bound of bytes and knows
  exactly how many; the frames popped, followed by those still queued, are the accepted frames in
  order without the evicted ones -- with \<open>newest\<close> exactly the accepted frames; the counters of
  frames and bytes sent are exact, and while the queue is open every frame offered is popped,
  queued or counted as dropped.  The next offer is refused exactly when the queue is closed, the
  frame alone exceeds the bound, or the policy is \<open>newest\<close> and the frame does not fit; a refusal
  keeps every queued frame, and an accepted frame goes to the end after evicting, with \<open>oldest\<close>,
  the oldest frames and not one more than needed.  The next pop hands out the oldest frame.
\<close>

theorem queue_fifo_bounded:
  "(let (q, os) = exec q_step (newSendQueue mx drp rate t) evs; bound = (if mx \<le> 0 then 262144 else mx)
    in q_bytes q = (\<Sum>b\<leftarrow>q_q q. int (length b)) \<and> q_bytes q \<le> bound
     \<and> subseq (popped os @ q_q q) (accepted os) \<and> (drp = dropNewest \<longrightarrow> popped os @ q_q q = accepted os)
     \<and> queue_stats q = (length (popped os), (\<Sum>b\<leftarrow>popped os. length b), q_dropped q)
     \<and> (\<not> q_closed q \<longrightarrow> offered os = length (popped os) + length (q_q q) + q_dropped q)
     \<and> (\<forall>b. let (q', ok) = enqueue q b
          in ok = (\<not> q_closed q \<and> int (length b) \<le> bound \<and> (drp = dropOldest \<or> q_bytes q + int (length b) \<le> bound))
           \<and> (if ok then \<exists>k\<le>length (q_q q). q_q q' = drop k (q_q q) @ [b] \<and> (\<forall>j<k. bound < (\<Sum>b\<leftarrow>drop j (q_q q). int (length b)) + int (length b))
              else q_q q' = q_q q))
     \<and> (\<forall>b fs ctx pick. q_q q = b # fs \<longrightarrow> snd (popNext q ctx pick) = Got b \<and> q_q (fst (popNext q ctx pick)) = fs))"
proof -
  let ?start = "newSendQueue mx drp rate t" and ?bound = "if mx \<le> 0 then 262144 else mx"
  let ?q = "fst (exec q_step ?start evs)" and ?os = "snd (exec q_step ?start evs)"
  have inv: "q_inv ?q" using wan.exec_inv [OF q_inv_New] by (simp add: list_all_iff)
  have fl: "flows ?start ?os ?q" by (rule q_run_flows [OF q_inv_New])
  then have kept: "q_drop ?q = drp" "q_maxBytes ?q = ?bound" by (simp_all add: flows_def newSendQueue_def Let_def)
  have start: "q_q ?start = []" "q_drop ?start = drp" "q_framesSent ?start = 0" "q_bytesSent ?start = 0" "q_dropped ?start = 0"
    by (simp_all add: newSendQueue_def Let_def)
  have "\<forall>b fs ctx pick. q_q ?q = b # fs \<longrightarrow> snd (popNext ?q ctx pick) = Got b \<and> q_q (fst (popNext ?q ctx pick)) = fs" by (simp add: popNext_def)
  moreover have "\<forall>b. snd (enqueue ?q b) = (\<not> q_closed ?q \<and> int (length b) \<le> ?bound \<and> (drp = dropOldest \<or> q_bytes ?q + int (length b) \<le> ?bound))"
    using enqueue_accepts [OF inv] unfolding kept by blast
  moreover note enqueue_frames [OF inv, unfolded kept]
  ultimately show ?thesis using inv fl start
    unfolding Let_def case_prod_unfold by (simp only: q_inv_def flows_def queue_stats_def kept) auto
qed

theorem queue_fifo_bounded_witness:
  "popped (snd (exec q_step (newSendQueue 6 dropNewest (Fin 0) 0) [QEnqueue [1, 1], QEnqueue [2], QPop False False]))
     @ q_q (fst (exec q_step (newSendQueue 6 dropNewest (Fin 0) 0) [QEnqueue [1, 1], QEnqueue [2], QPop False False]))
   = [[1, 1], [2]]"
proof -
  let ?r = "exec q_step (newSendQueue 6 dropNewest (Fin 0) 0) [QEnqueue [1, 1], QEnqueue [2], QPop False False]"
  have "accepted (snd ?r) = [[1, 1], [2]]"
    by (simp add: newSendQueue_def Let_def enqueue_def append_frame_def signal_def popNext_def accepted_def)
  moreover have "popped (snd ?r) @ q_q (fst ?r) = accepted (snd ?r)"
    using queue_fifo_bounded [of 6 dropNewest "Fin 0" 0 "[QEnqueue [1, 1], QEnqueue [2], QPop False False]"]
    unfolding case_prod_unfold Let_def by blast
  ultimately show ?thesis by simp
qed

text \<open>
  C33: Pacing never blocks a frame forever.  In every state reached with a clock that does not go
  back, the token level is a double between 0 and the bucket size; and for a positive rate \<open>r\<close> a
  queued frame is sent at the first reading that lies \<open>k\<close> seconds after the last refill, where \<open>k\<close>
  seconds fill the bucket, because no accepted frame is larger than the bucket.
\<close>

theorem queue_paces_and_sends:
  assumes "0 < r" "mx \<le> 2 ^ 53" "clocked t evs" "q = fst (exec q_step (newSendQueue mx drp (Fin r) t) evs)"
    and "q_q q = b # fs" "0 \<le> k" "k \<le> 2 ^ 53" "of_int (q_maxBytes q) \<le> of_int k * r" "q_lastRef q + k * Second \<le> now"
  shows "(\<exists>v. q_tokens q = Fin v \<and> 0 \<le> v \<and> v \<le> of_int (q_maxBytes q)) \<and> (\<exists>q'. queue_run q [(False, pick, [(now, False)])] = (q', [b]))"
proof -
  have inv: "q_inv q" using wan.exec_inv [OF q_inv_New] assms(4) by (simp add: list_all_iff)
  have "q_lastRef (newSendQueue mx drp (Fin r) t) = t" by (simp add: newSendQueue_def Let_def)
  then have ok: "bucket_ok q" using bucket_run [OF bucket_New [OF assms(2,1)]] assms(3,4) by simp
  define p where "p = fst (popNext q False pick)"
  have p: "popNext q False pick = (p, Got b)" "q_rate p = q_rate q" "q_lastRef p = q_lastRef q" "q_maxBytes p = q_maxBytes q"
    "q_burst p = q_burst q" "q_tokens p = q_tokens q" using assms(5) by (simp_all add: p_def popNext_def)
  have okp: "bucket_ok p" using ok bucket_frame [of p q] p by simp
  have rate: "q_rate p = Fin r" using rate_kept [of "newSendQueue mx drp (Fin r) t" evs] assms(4) p(2) by (simp add: newSendQueue_def Let_def)
  have "0 \<le> k * Second" using assms(6) by (simp add: Second_def)
  then have "q_lastRef p \<le> now" using assms(9) p(3) by linarith
  then have full: "q_tokens (refill p now) = Fin (of_int (q_maxBytes p))"
    using refill_ok(2) [OF okp _ rate assms(6,7)] assms(8,9) p(3,4) by simp
  have len: "int (length b) \<le> q_maxBytes p" "q_maxBytes p \<le> 2 ^ 53"
    using inv ok assms(5) p(4) zero_le_lengths [of fs] by (auto simp: q_inv_def bucket_ok_def)
  then have "f64_of_int (int (length b)) = Fin (of_int (int (length b)))" by (intro f64_of_int_small) simp
  moreover have "(of_int (int (length b)) :: rat) \<le> of_int (q_maxBytes p)" using len(1) by (simp only: of_int_le_iff)
  ultimately have "snd (take_once p (length b) now) = None" using full by (simp add: take_once_def Let_def)
  then have "takeTokens p (length b) [(now, False)] = (fst (take_once p (length b) now), Some True)"
    using rate assms(1) by (simp add: case_prod_unfold)
  then have "queue_run q [(False, pick, [(now, False)])] = (fst (take_once p (length b) now), [b])" by (simp add: p(1))
  then show ?thesis using ok by (auto simp: bucket_ok_def)
qed

theorem queue_paces_and_sends_witness:
  "\<exists>q'. queue_run (fst (exec q_step (newSendQueue 10 dropOldest (Fin 5) 0) [QEnqueue [1, 2, 3]])) [(False, False, [(2 * Second, False)])]
     = (q', [[1, 2, 3]])"
proof -
  let ?q = "fst (exec q_step (newSendQueue 10 dropOldest (Fin 5) 0) [QEnqueue [1, 2, 3]])"
  have "q_q ?q = [[1, 2, 3]]" "q_lastRef ?q = 0" "q_maxBytes ?q = 10"
    by (simp_all add: newSendQueue_def Let_def enqueue_def append_frame_def signal_def)
  then show ?thesis
    using queue_paces_and_sends [of 5 10 0 "[QEnqueue [1, 2, 3]]" ?q dropOldest "[1, 2, 3]" "[]" 2 "2 * Second" False] by simp
qed

end
