(* ===== verification/Tunnel_Client.thy ===== *)
theory Tunnel_Client
  imports Tunnel_Params Session Fec_Decoder Delivery Wan_Queue "HOL-Library.Signed_Division"
begin

unbundle bit_operations_syntax

text \<open>
  The tunnel client of \<open>internal/tunnel/tunnel.go\<close> with its part of \<open>reload.go\<close> and \<open>stats.go\<close>:
  the components of the other theories wired into one state, and one definition per handler. A
  loop of the source that waits for a datagram or a tick is the handler of one such event; its
  clock readings are the argument \<open>now\<close>. The codec slots are pointers that several uplinks may
  share, so encoders and decoders live in a store and a slot is an index into it; a nil pointer
  is \<open>None\<close>, and using one is a panic, which makes the whole step \<open>None\<close>.

  What lies outside is the record \<open>env\<close>: the cryptographic primitives, the Reed-Solomon
  library, the decoder of JSON, the orders of range statements, the answers of the transports.
  Logging is left out, its throttle counters are kept.
\<close>

section \<open>Environment and state\<close>

record env =
  ev_rs :: rs_lib
  ev_hmac :: hmac
  ev_chacha :: "bytes \<Rightarrow> aead option"
  ev_gcm :: "bytes \<Rightarrow> aead option"
  ev_x :: x25519
  ev_rng :: "u32 list \<Rightarrow> u32 list"
  ev_blocks :: "blockKey list \<Rightarrow> blockKey list"
  ev_send :: "string \<Rightarrow> bytes \<Rightarrow> bool"
  ev_unmarshal :: "bytes \<Rightarrow> ServerAnnounce option"
  ev_resolve :: "string \<Rightarrow> bool"

record wanLink =
  w_id :: string
  w_cfg :: WAN
  w_tr :: transport
  w_enc :: "nat option"
  w_dec :: "nat option"
  w_health :: Monitor
  w_pathSeq :: u32
  w_framesSent :: nat
  w_pongs :: nat
  w_missedProbes :: nat
  w_lastRx :: int
  w_probeOut :: bool
  w_probeRTT :: int
  w_probeStart :: "int option"
  w_q :: "sendQueue option"

record TClient =
  t_cfg :: Config
  t_baseAEAD :: aead
  t_psk :: bytes
  t_sess :: Client
  t_wans :: "wanLink list"
  t_byWAN :: "(string \<times> nat) list"
  t_sched :: Scheduler
  t_delivery :: deliveryBuffer
  t_sessAEAD :: "aead option"
  t_sessionReady :: bool
  t_clientPriv :: bytes
  t_clientPub :: bytes
  t_probeInterval :: int
  t_crossPath :: bool
  t_xenc :: "nat option"
  t_xdec :: "nat option"
  t_mtu :: int
  t_adoptedFEC :: "FECCfg option"
  t_sendErrs :: nat
  t_oversizeErrs :: nat
  t_noWANErrs :: nat
  t_preSessErrs :: nat
  t_start :: int
  t_encs :: "Encoder list"
  t_decs :: "Decoder list"

text \<open>What a handler does to the outside: a sealed frame for a transport or for an uplink's queue, a datagram for WireGuard.\<close>

datatype client_out = ToTransport string bytes | ToQueue string bytes bool | ToWG udp_addr bytes

datatype send_error = SendEncode | SendSeal | QueueDropped | TransportFailed

definition upd_wan :: "TClient \<Rightarrow> nat \<Rightarrow> (wanLink \<Rightarrow> wanLink) \<Rightarrow> TClient" where
  "upd_wan c i f = c\<lparr>t_wans := (t_wans c)[i := f (t_wans c ! i)]\<rparr>"

text \<open>\<open>int64\<close> durations saturate.\<close>

definition sat64 :: "int \<Rightarrow> int" where
  "sat64 d = max (- (2 ^ 63)) (min (2 ^ 63 - 1) d)"

section \<open>Sending\<close>

definition getSessionAEAD :: "TClient \<Rightarrow> aead option \<times> bool" where
  "getSessionAEAD c = (t_sessAEAD c, t_sessionReady c)"

definition setSessionAEAD :: "TClient \<Rightarrow> aead \<Rightarrow> TClient" where
  "setSessionAEAD c a = (if t_sessionReady c then c else c\<lparr>t_sessAEAD := Some a, t_sessionReady := True\<rparr>)"

definition noteSendErr :: "TClient \<Rightarrow> TClient" where "noteSendErr c = c\<lparr>t_sendErrs := t_sendErrs c + 1\<rparr>"
definition noteOversize :: "TClient \<Rightarrow> TClient" where "noteOversize c = c\<lparr>t_oversizeErrs := t_oversizeErrs c + 1\<rparr>"
definition noteNoWAN :: "TClient \<Rightarrow> TClient" where "noteNoWAN c = c\<lparr>t_noWANErrs := t_noWANErrs c + 1\<rparr>"
definition notePreSession :: "TClient \<Rightarrow> TClient" where "notePreSession c = c\<lparr>t_preSessErrs := t_preSessErrs c + 1\<rparr>"

definition next_seq :: "TClient \<Rightarrow> TClient \<times> u32" where
  "next_seq c = (let (s, q) = Client_NextSeq (t_sess c) in (c\<lparr>t_sess := s\<rparr>, q))"

definition sendLocked :: "env \<Rightarrow> TClient \<Rightarrow> nat \<Rightarrow> frame \<Rightarrow> aead option \<Rightarrow> TClient \<times> client_out list \<times> send_error option" where
  "sendLocked E c i f a =
     (case a of
        None \<Rightarrow> (c, [], None)
      | Some aead \<Rightarrow>
          (let w = t_wans c ! i;
               (f, w) = (if HasFlag f FlagPassSeq then (f\<lparr>fBlockSeq := w_pathSeq w\<rparr>, w\<lparr>w_pathSeq := w_pathSeq w + 1\<rparr>) else (f, w));
               c = upd_wan c i (\<lambda>_. w)
           in case Encode f of
                Inl e \<Rightarrow> (c, [], Some SendEncode)
              | Inr plain \<Rightarrow>
                  (case Seal aead DirClientToServer plain of
                     Inl e \<Rightarrow> (c, [], Some SendSeal)
                   | Inr sealed \<Rightarrow>
                       (case w_q w of
                          Some q \<Rightarrow>
                            (let (q, ok) = enqueue q sealed
                             in (upd_wan c i (\<lambda>w. w\<lparr>w_q := Some q\<rparr>), [ToQueue (w_id w) sealed ok], if ok then None else Some QueueDropped))
                        | None \<Rightarrow>
                            (c, [ToTransport (w_id w) sealed], if ev_send E (w_id w) sealed then None else Some TransportFailed)))))"

definition Client_send :: "env \<Rightarrow> TClient \<Rightarrow> nat \<Rightarrow> frame \<Rightarrow> aead option \<Rightarrow> TClient \<times> client_out list \<times> send_error option" where
  "Client_send E c i f a = sendLocked E c i f a"

text \<open>Parity frames get their number when they are sent.\<close>

definition number_parity :: "TClient \<Rightarrow> frame \<Rightarrow> TClient \<times> frame" where
  "number_parity c f =
     (if HasFlag f FlagFECParity then (let (c, q) = next_seq c in (c, f\<lparr>fSeq := q\<rparr>)) else (c, f))"

fun send_frames :: "env \<Rightarrow> aead option \<Rightarrow> nat \<Rightarrow> TClient \<Rightarrow> frame list \<Rightarrow> TClient \<times> client_out list" where
  "send_frames E a i c [] = (c, [])"
| "send_frames E a i c (f # fs) =
     (let (c, f) = number_parity c f;
          c = upd_wan c i (\<lambda>w. w\<lparr>w_framesSent := w_framesSent w + 1\<rparr>);
          (c, out, err) = sendLocked E c i f a;
          c = (if err = None then c else noteSendErr c);
          (c, rest) = send_frames E a i c fs
      in (c, out @ rest))"

definition sendEncoded :: "env \<Rightarrow> TClient \<Rightarrow> nat \<Rightarrow> frame list \<Rightarrow> TClient \<times> client_out list" where
  "sendEncoded E c i frames =
     (case getSessionAEAD c of (a, ok) \<Rightarrow> if \<not> ok then (c, []) else send_frames E a i c frames)"

fun send_cross :: "env \<Rightarrow> aead option \<Rightarrow> TClient \<Rightarrow> frame list \<Rightarrow> (TClient \<times> client_out list) option" where
  "send_cross E a c [] = Some (c, [])"
| "send_cross E a c (f # fs) =
     (let (c, f) = number_parity c f;
          (sched, pick) = PickWRR (t_sched c);
          c = c\<lparr>t_sched := sched\<rparr>
      in case pick of
           None \<Rightarrow> send_cross E a (noteNoWAN c) fs
         | Some wanID \<Rightarrow>
             (case map_of (t_byWAN c) wanID of
                None \<Rightarrow> None
              | Some i \<Rightarrow>
                  (let (c, out, err) = sendLocked E c i f a
                   in map_option (\<lambda>(c, rest). (c, out @ rest)) (send_cross E a c fs))))"

definition sendCrossEncoded :: "env \<Rightarrow> TClient \<Rightarrow> frame list \<Rightarrow> (TClient \<times> client_out list) option" where
  "sendCrossEncoded E c frames =
     (case getSessionAEAD c of (a, ok) \<Rightarrow> if \<not> ok then Some (c, []) else send_cross E a c frames)"

section \<open>Handshake and probes\<close>

text \<open>One round of \<open>handshakeLoop\<close>: the FIRST frame with the uplink's capacity and the client's public key.\<close>

definition handshake_send :: "env \<Rightarrow> TClient \<Rightarrow> nat \<Rightarrow> TClient \<times> client_out list" where
  "handshake_send E c i =
     (let payload = make_bytes (4 + PublicKeySize);
          payload = copy_at 0 (put_u32 (of_int (wn_CapacityMbps (w_cfg (t_wans c ! i))))) payload;
          payload = copy_at 4 (t_clientPub c) payload;
          (c, q) = next_seq c;
          f = zero_frame\<lparr>fFlags := FlagFirst, fSessionID := c_ID (t_sess c), fSeq := q, fPayload := payload\<rparr>;
          (c, out, err) = Client_send E c i f (Some (t_baseAEAD c))
      in (c, out))"

definition keepalive_send :: "env \<Rightarrow> TClient \<Rightarrow> nat \<Rightarrow> int \<Rightarrow> TClient \<times> client_out list" where
  "keepalive_send E c i now =
     (case getSessionAEAD c of
        (a, ok) \<Rightarrow>
          if \<not> ok then (c, [])
          else
            (let payload = put_u64 (of_int (now div Millisecond));
                 (c, q) = next_seq c;
                 f = zero_frame\<lparr>fFlags := FlagKeepalive, fSessionID := c_ID (t_sess c), fSeq := q, fPayload := payload\<rparr>;
                 (c, out, err) = Client_send E c i f a
             in (upd_wan c i (\<lambda>w. w\<lparr>w_probeOut := True, w_probeStart := Some now\<rparr>), out)))"

text \<open>One tick of \<open>keepaliveLoop\<close>: book the outcome of the last probe, send the next.\<close>

definition book_probe :: "TClient \<Rightarrow> nat \<Rightarrow> int \<Rightarrow> TClient" where
  "book_probe c i now =
     (let w = t_wans c ! i in
      if w_probeOut w then
        (if sat64 (now - w_lastRx w) > 2 * t_probeInterval c
         then upd_wan c i (\<lambda>w. w\<lparr>w_health := ObserveSample (NoteMissedProbe (w_health w) now) (Fin 1) 0, w_missedProbes := w_missedProbes w + 1\<rparr>)
         else upd_wan c i (\<lambda>w. w\<lparr>w_health := ObserveSample (w_health w) (Fin 0) 0\<rparr>))
      else upd_wan c i (\<lambda>w. w\<lparr>w_health := ObserveSample (w_health w) (Fin 0) (w_probeRTT w)\<rparr>))"

definition keepalive_tick :: "env \<Rightarrow> TClient \<Rightarrow> nat \<Rightarrow> int \<Rightarrow> TClient \<times> client_out list" where
  "keepalive_tick E c i now = keepalive_send E (book_probe c i now) i now"

definition handlePong :: "TClient \<Rightarrow> nat \<Rightarrow> frame \<Rightarrow> int \<Rightarrow> TClient" where
  "handlePong c i f now =
     (if length (fPayload f) \<noteq> 8 then c
      else
        (let ts = sint (get_u64 (fPayload f) 0)
         in upd_wan c i (\<lambda>w. w\<lparr>w_probeRTT := sat64 (now - ts * Millisecond), w_probeOut := False, w_pongs := w_pongs w + 1\<rparr>)))"


section \<open>Completing the handshake\<close>

datatype announce_error = NoParameters | MalformedParameters | AnnounceVersionMismatch int | AnnounceParams param_error | AnnounceCodec fec_error

definition new_codecs :: "TClient \<Rightarrow> Encoder \<Rightarrow> Decoder \<Rightarrow> TClient \<times> nat \<times> nat" where
  "new_codecs c enc dec = (c\<lparr>t_encs := t_encs c @ [enc], t_decs := t_decs c @ [dec]\<rparr>, length (t_encs c), length (t_decs c))"

text \<open>One codec pair for all uplinks; a failing constructor leaves the slot nil.\<close>

definition adopt_cross :: "env \<Rightarrow> TClient \<Rightarrow> FECCfg \<Rightarrow> int \<Rightarrow> TClient \<times> announce_error option" where
  "adopt_cross E c f mtu =
     (case fecParamsFor f mtu None of
        Inl e \<Rightarrow> (c, Some (AnnounceParams e))
      | Inr p \<Rightarrow>
          (case NewEncoder (ev_rs E) p of
             Inl e \<Rightarrow> (c\<lparr>t_xenc := None\<rparr>, Some (AnnounceCodec e))
           | Inr enc \<Rightarrow>
               (let (c, i, j) = new_codecs c enc (NewDecoder p);
                    c = c\<lparr>t_xenc := Some i, t_xdec := Some j\<rparr>
                in (c\<lparr>t_wans := map (\<lambda>w. w\<lparr>w_enc := t_xenc c, w_dec := t_xdec c\<rparr>) (t_wans c)\<rparr>, None))))"

text \<open>One codec pair per uplink; \<open>cfg.WANs\<close> has an entry for every uplink.\<close>

fun adopt_wans :: "env \<Rightarrow> FECCfg \<Rightarrow> int \<Rightarrow> nat list \<Rightarrow> TClient \<Rightarrow> TClient \<times> announce_error option" where
  "adopt_wans E f mtu [] c = (c, None)"
| "adopt_wans E f mtu (n # ns) c =
     (case fecParamsFor f mtu (Some (cf_WANs (t_cfg c) ! n)) of
        Inl e \<Rightarrow> (c, Some (AnnounceParams e))
      | Inr p \<Rightarrow>
          (case NewEncoder (ev_rs E) p of
             Inl e \<Rightarrow> (upd_wan c n (\<lambda>w. w\<lparr>w_enc := None\<rparr>), Some (AnnounceCodec e))
           | Inr enc \<Rightarrow>
               (let (c, i, j) = new_codecs c enc (NewDecoder p)
                in adopt_wans E f mtu ns (upd_wan c n (\<lambda>w. w\<lparr>w_enc := Some i, w_dec := Some j\<rparr>)))))"

definition applyAnnounce :: "env \<Rightarrow> TClient \<Rightarrow> bytes \<Rightarrow> TClient \<times> announce_error option" where
  "applyAnnounce E c data =
     (if data = [] then (c, Some NoParameters)
      else
        (case ev_unmarshal E data of
           None \<Rightarrow> (c, Some MalformedParameters)
         | Some ann \<Rightarrow>
             (if an_Version ann \<noteq> AnnounceVersion then (c, Some (AnnounceVersionMismatch (an_Version ann)))
              else
                (let annFEC = an_FEC ann;
                     annFEC = (if fc_Enabled annFEC \<and> feq (fc_MaxLossPct annFEC) (Fin 0) then annFEC\<lparr>fc_MaxLossPct := DefaultMaxLossPct\<rparr> else annFEC);
                     c = c\<lparr>t_crossPath := (fc_Mode annFEC = FECCrosspath)\<rparr>;
                     (c, err) = (if t_crossPath c then adopt_cross E c annFEC (an_MTU ann)
                                 else adopt_wans E annFEC (an_MTU ann) [0..<length (t_wans c)] c)
                 in case err of
                      Some e \<Rightarrow> (c, Some e)
                    | None \<Rightarrow> (c\<lparr>t_mtu := an_MTU ann, t_adoptedFEC := Some annFEC\<rparr>, None)))))"

definition handleKexAck :: "env \<Rightarrow> TClient \<Rightarrow> bytes \<Rightarrow> (TClient \<times> bool) option" where
  "handleKexAck E c sealed =
     (case Open (t_baseAEAD c) DirServerToClient sealed of
        Inl e \<Rightarrow> Some (c, False)
      | Inr plain \<Rightarrow>
          (case Decode plain of
             Inl e \<Rightarrow> Some (c, False)
           | Inr f \<Rightarrow>
               if fSessionID f \<noteq> c_ID (t_sess c) then Some (c, False)
               else if length (fPayload f) < PublicKeySize then Some (c, False)
               else if snd (getSessionAEAD c) then Some (c, True)
               else
                 (case ECDHShared (ev_x E) (t_clientPriv c) (take PublicKeySize (fPayload f)) of
                    Inl e \<Rightarrow> Some (c, False)
                  | Inr shared \<Rightarrow>
                      (case DerivePFSKey (ev_hmac E) (t_psk c) shared (c_ID (t_sess c)) of
                         None \<Rightarrow> None
                       | Some key \<Rightarrow>
                           (case NewAEAD (ev_chacha E) (ev_gcm E) key (cc_Cipher (cf_Crypto (t_cfg c))) of
                              Inl e \<Rightarrow> Some (c, False)
                            | Inr aead \<Rightarrow>
                                (case applyAnnounce E c (drop PublicKeySize (fPayload f)) of
                                   (c, Some e) \<Rightarrow> Some (c, False)
                                 | (c, None) \<Rightarrow> Some (setSessionAEAD c aead, True)))))))"

section \<open>Datagrams in and out\<close>

definition openAndVerify :: "TClient \<Rightarrow> bytes \<Rightarrow> TClient \<times> frame option" where
  "openAndVerify c sealed =
     (case DecodeHeader sealed of
        Inl e \<Rightarrow> (c, None)
      | Inr hdr \<Rightarrow>
          if fSessionID hdr \<noteq> c_ID (t_sess c) then (c, None)
          else
            (case getSessionAEAD c of
               (Some aead, True) \<Rightarrow>
                 (case Open aead DirServerToClient sealed of
                    Inl e \<Rightarrow> (c, None)
                  | Inr plain \<Rightarrow>
                      (case Decode plain of
                         Inl e \<Rightarrow> (c, None)
                       | Inr f \<Rightarrow>
                           (let (s, ok) = Client_CheckReplay (t_sess c) (fSeq f)
                            in (c\<lparr>t_sess := s\<rparr>, if ok then Some f else None))))
             | _ \<Rightarrow> (c, None)))"

definition deliverToWG :: "TClient \<Rightarrow> frame list \<Rightarrow> client_out list" where
  "deliverToWG c frames = (case WGAddr (t_sess c) of None \<Rightarrow> [] | Some a \<Rightarrow> map (\<lambda>f. ToWG a (fPayload f)) frames)"

definition buffer_push :: "env \<Rightarrow> TClient \<Rightarrow> frame list \<Rightarrow> int \<Rightarrow> TClient \<times> client_out list" where
  "buffer_push E c frames now =
     (let (d, out) = delivery_Push (ev_rng E) (t_delivery c) frames now; c = c\<lparr>t_delivery := d\<rparr> in (c, deliverToWG c out))"

definition buffer_tick :: "env \<Rightarrow> TClient \<Rightarrow> int \<Rightarrow> TClient \<times> client_out list" where
  "buffer_tick E c now =
     (let (d, out) = delivery_Tick (ev_rng E) (t_delivery c) now; c = c\<lparr>t_delivery := d\<rparr> in (c, deliverToWG c out))"

text \<open>\<open>ingressLoop\<close> on one datagram from WireGuard.\<close>

definition adopt_peer :: "TClient \<Rightarrow> udp_addr \<Rightarrow> TClient" where
  "adopt_peer c a =
     (case WGAddr (t_sess c) of
        Some prev \<Rightarrow> if UDPAddr_String prev \<noteq> UDPAddr_String a then c\<lparr>t_sess := SetWGAddr (t_sess c) a\<rparr> else c
      | None \<Rightarrow> c\<lparr>t_sess := SetWGAddr (t_sess c) a\<rparr>)"

definition enc_push :: "env \<Rightarrow> TClient \<Rightarrow> nat option \<Rightarrow> frame \<Rightarrow> int \<Rightarrow> (TClient \<times> frame list) option" where
  "enc_push E c p f now =
     (case p of None \<Rightarrow> None
      | Some i \<Rightarrow> (let (e, out) = Encoder_Push (ev_rs E) (t_encs c ! i) f now in Some (c\<lparr>t_encs := (t_encs c)[i := e]\<rparr>, out)))"

definition ingress :: "env \<Rightarrow> TClient \<Rightarrow> udp_addr \<Rightarrow> bytes \<Rightarrow> int \<Rightarrow> f64 \<Rightarrow> (TClient \<times> client_out list) option" where
  "ingress E c a payload now draw =
     (let c = adopt_peer c a in
      if int (length payload) > t_mtu c then Some (noteOversize c, [])
      else if \<not> snd (getSessionAEAD c) then Some (notePreSession c, [])
      else
        (let (c, q) = next_seq c;
             f = zero_frame\<lparr>fSessionID := c_ID (t_sess c), fSeq := q, fPayload := payload\<rparr>
         in if t_crossPath c then
              (case enc_push E c (t_xenc c) f now of
                 None \<Rightarrow> None
               | Some (c, frames) \<Rightarrow> if frames \<noteq> [] then sendCrossEncoded E c frames else Some (c, []))
            else
              (let (sched, pick) = Pick (t_sched c) f draw;
                   c = c\<lparr>t_sched := sched\<rparr>
               in case pick of
                    None \<Rightarrow> Some (noteNoWAN c, [])
                  | Some wanID \<Rightarrow>
                      (case map_of (t_byWAN c) wanID of
                         None \<Rightarrow> None
                       | Some i \<Rightarrow>
                           map_option (\<lambda>(c, frames). sendEncoded E c i frames) (enc_push E c (w_enc (t_wans c ! i)) f now)))))"

text \<open>\<open>recvLoop\<close> on one datagram of uplink \<open>i\<close>.\<close>

definition dec_push :: "env \<Rightarrow> TClient \<Rightarrow> nat option \<Rightarrow> string \<Rightarrow> frame \<Rightarrow> int \<Rightarrow> (TClient \<times> frame list) option" where
  "dec_push E c p path f now =
     (case p of None \<Rightarrow> None
      | Some j \<Rightarrow> map_option (\<lambda>(d, out). (c\<lparr>t_decs := (t_decs c)[j := d]\<rparr>, out)) (Decoder_Push (ev_rs E) (t_decs c ! j) path f now))"

definition client_recv :: "env \<Rightarrow> TClient \<Rightarrow> nat \<Rightarrow> bytes \<Rightarrow> int \<Rightarrow> (TClient \<times> client_out list) option" where
  "client_recv E c i sealed now =
     (case DecodeHeader sealed of
        Inl e \<Rightarrow> Some (c, [])
      | Inr hdr \<Rightarrow>
          if fSessionID hdr = c_ID (t_sess c) \<and> HasFlag hdr FlagKex then
            map_option (\<lambda>(c, ok). (if ok then upd_wan c i (\<lambda>w. w\<lparr>w_lastRx := now\<rparr>) else c, [])) (handleKexAck E c sealed)
          else
            (case openAndVerify c sealed of
               (c, None) \<Rightarrow> Some (c, [])
             | (c, Some f) \<Rightarrow>
                 (let c = upd_wan c i (\<lambda>w. w\<lparr>w_lastRx := now\<rparr>) in
                  if HasFlag f FlagPong then Some (handlePong c i f now, [])
                  else if HasFlag f FlagControl \<or> HasFlag f FlagKeepalive \<or> fPayload f = [] then Some (c, [])
                  else map_option (\<lambda>(c, frames). buffer_push E c frames now)
                         (dec_push E c (w_dec (t_wans c ! i)) (w_id (t_wans c ! i)) f now))))"


section \<open>Ticks\<close>

definition fecTickInterval :: "TClient \<Rightarrow> int" where
  "fecTickInterval c =
     (let bt = (if t_crossPath c then (case t_xenc c of Some i \<Rightarrow> BlockTimeout (e_params (t_encs c ! i)) | None \<Rightarrow> 0)
                else if t_wans c \<noteq> [] then (case w_enc (t_wans c ! 0) of Some i \<Rightarrow> BlockTimeout (e_params (t_encs c ! i)) | None \<Rightarrow> 0)
                else 0);
          interval = bt sdiv 2;
          gap = (dl_GapTimeoutMS (cf_Delivery (t_cfg c)) sdiv 4) * Millisecond;
          interval = (if interval < Millisecond \<and> gap > interval then gap else interval)
      in if interval < Millisecond then Millisecond else interval)"

definition enc_tick :: "env \<Rightarrow> TClient \<Rightarrow> nat option \<Rightarrow> int \<Rightarrow> (TClient \<times> frame list) option" where
  "enc_tick E c p now =
     (case p of None \<Rightarrow> None
      | Some i \<Rightarrow> (let (e, out) = Encoder_Tick (ev_rs E) (t_encs c ! i) now in Some (c\<lparr>t_encs := (t_encs c)[i := e]\<rparr>, out)))"

definition dec_tick :: "env \<Rightarrow> TClient \<Rightarrow> nat option \<Rightarrow> int \<Rightarrow> (TClient \<times> frame list) option" where
  "dec_tick E c p now =
     (case p of None \<Rightarrow> None
      | Some j \<Rightarrow>
          (let (d, out) = Decoder_Tick (t_decs c ! j) now (ev_blocks E (map fst (d_blocks (t_decs c ! j))))
           in Some (c\<lparr>t_decs := (t_decs c)[j := d]\<rparr>, out)))"

fun fec_tick_wans :: "env \<Rightarrow> int \<Rightarrow> nat list \<Rightarrow> TClient \<Rightarrow> (TClient \<times> client_out list) option" where
  "fec_tick_wans E now [] c = Some (c, [])"
| "fec_tick_wans E now (i # is) c =
     (case enc_tick E c (w_enc (t_wans c ! i)) now of
        None \<Rightarrow> None
      | Some (c, frames) \<Rightarrow>
          (let (c, out1) = sendEncoded E c i frames in
           case dec_tick E c (w_dec (t_wans c ! i)) now of
             None \<Rightarrow> None
           | Some (c, frames) \<Rightarrow>
               (let (c, out2) = buffer_push E c frames now
                in map_option (\<lambda>(c, rest). (c, out1 @ out2 @ rest)) (fec_tick_wans E now is c))))"

text \<open>One tick of \<open>fecTickLoop\<close>.\<close>

definition fec_tick_cross :: "env \<Rightarrow> TClient \<Rightarrow> int \<Rightarrow> (TClient \<times> client_out list) option" where
  "fec_tick_cross E c now =
     (case enc_tick E c (t_xenc c) now of
        None \<Rightarrow> None
      | Some (c, frames) \<Rightarrow>
          (case sendCrossEncoded E c frames of
             None \<Rightarrow> None
           | Some (c, out1) \<Rightarrow>
               (case dec_tick E c (t_xdec c) now of
                  None \<Rightarrow> None
                | Some (c, frames) \<Rightarrow> (let (c, out2) = buffer_push E c frames now in Some (c, out1 @ out2)))))"

definition fec_tick :: "env \<Rightarrow> TClient \<Rightarrow> int \<Rightarrow> (TClient \<times> client_out list) option" where
  "fec_tick E c now =
     (case (if t_crossPath c then fec_tick_cross E c now else fec_tick_wans E now [0..<length (t_wans c)] c) of
        None \<Rightarrow> None
      | Some (c, out1) \<Rightarrow> (let (c, out2) = buffer_tick E c now in Some (c, out1 @ out2)))"

text \<open>
  One tick of \<open>healthTickLoop\<close>. \<open>loss_rate\<close> is the quotient both statistics go through; an
  observation is made only for a positive one.
\<close>

definition loss_rate :: "nat \<Rightarrow> nat \<Rightarrow> f64" where
  "loss_rate lost received = fdiv (f64_of_int (int lost)) (f64_of_int (int (lost + received)))"

definition observe_stats :: "(Monitor \<Rightarrow> f64 \<Rightarrow> Monitor) \<Rightarrow> nat \<Rightarrow> nat \<Rightarrow> Monitor \<Rightarrow> Monitor" where
  "observe_stats observe lost received m =
     (if received > 0 \<and> flt (Fin 0) (loss_rate lost received) then observe m (loss_rate lost received) else m)"

definition health_tick_wan :: "env \<Rightarrow> int \<Rightarrow> nat \<Rightarrow> TClient \<Rightarrow> TClient option" where
  "health_tick_wan E now i c =
     (let w = t_wans c ! i in
      case (w_enc w, w_dec w) of
        (Some ie, Some jd) \<Rightarrow>
          (let sid = c_ID (t_sess c);
               (d, lost, received) = TakeStreamStats (t_decs c ! jd) sid (w_id w);
               m = observe_stats ObserveInBand lost received (w_health w);
               (d, rawLost, rawRecv) = TakePathStats d sid (w_id w);
               m = observe_stats ObserveRaw rawLost rawRecv m;
               e = SetLossRate (ev_rs E) (t_encs c ! ie) (mLoss m) now;
               m = Monitor_Tick m now;
               c = c\<lparr>t_decs := (t_decs c)[jd := d], t_encs := (t_encs c)[ie := e]\<rparr>;
               c = upd_wan c i (\<lambda>w. w\<lparr>w_health := m\<rparr>)
           in Some (c\<lparr>t_sched := OnState (t_sched c) (w_id w) (mState m) (mLoss m)\<rparr>))
      | _ \<Rightarrow> None)"

fun health_tick_loop :: "env \<Rightarrow> int \<Rightarrow> nat list \<Rightarrow> TClient \<Rightarrow> TClient option" where
  "health_tick_loop E now [] c = Some c"
| "health_tick_loop E now (i # is) c = Option.bind (health_tick_wan E now i c) (health_tick_loop E now is)"

definition health_tick :: "env \<Rightarrow> TClient \<Rightarrow> int \<Rightarrow> TClient option" where
  "health_tick E c now = health_tick_loop E now [0..<length (t_wans c)] c"

section \<open>Construction, reload and telemetry\<close>

datatype client_error =
    ClientConfig cfg_error | NoWANs | TooManyWANs nat | WANIDRequired nat | KeyDerivation crypto_error
  | CipherSetup crypto_error | NoSessionID | KeyPair crypto_error | ClientParams param_error | ClientCodec fec_error

definition newWANQueue :: "Config \<Rightarrow> WAN \<Rightarrow> int \<Rightarrow> sendQueue option" where
  "newWANQueue cfg wcfg now =
     (let queueDrop = (case parseQueueDrop (qc_Drop (cf_Queue cfg)) of Inr d \<Rightarrow> d | Inl _ \<Rightarrow> dropOldest)
      in if qc_Enabled (cf_Queue cfg) = Some True then
           (let rateBps = (if qc_RateLimit (cf_Queue cfg) then fdiv (fmul (f64_of_int (wn_CapacityMbps wcfg)) (Fin 1000000)) (Fin 8) else Fin 0)
            in Some (newSendQueue (qc_MaxBytes (cf_Queue cfg)) queueDrop rateBps now))
         else None)"

definition wan_codecs :: "env \<Rightarrow> Params \<Rightarrow> TClient \<Rightarrow> fec_error + TClient \<times> nat option \<times> nat option" where
  "wan_codecs E params c =
     (if t_crossPath c then Inr (c, t_xenc c, t_xdec c)
      else map_sum id (\<lambda>enc. let (c, i, j) = new_codecs c enc (NewDecoder params) in (c, Some i, Some j)) (NewEncoder (ev_rs E) params))"

definition add_wan :: "env \<Rightarrow> Config \<Rightarrow> int \<Rightarrow> WAN \<Rightarrow> TClient \<Rightarrow> client_error + TClient" where
  "add_wan E cfg now wcfg c =
     (case fecParamsFor (cf_FEC cfg) (cf_MTU cfg) (Some wcfg) of
        Inl e \<Rightarrow> Inl (ClientParams e)
      | Inr params \<Rightarrow>
          (case wan_codecs E params c of
             Inl e \<Rightarrow> Inl (ClientCodec e)
           | Inr (c, enc, dec) \<Rightarrow>
               (let mon = New_Monitor (healthOptions (cf_Health cfg) (fecCompensableLoss params)) in
                case newTransport wcfg (cf_Server cfg) of
                  Inl e \<Rightarrow> Inl (ClientParams e)
                | Inr tr \<Rightarrow>
                    (let wan = \<lparr>w_id = wn_ID wcfg, w_cfg = wcfg, w_tr = tr, w_enc = enc, w_dec = dec, w_health = mon, w_pathSeq = 0,
                                w_framesSent = 0, w_pongs = 0, w_missedProbes = 0, w_lastRx = 0, w_probeOut = False, w_probeRTT = 0,
                                w_probeStart = None, w_q = newWANQueue cfg wcfg now\<rparr>
                     in Inr (c\<lparr>t_wans := t_wans c @ [wan], t_byWAN := AList.update (wn_ID wcfg) (length (t_wans c)) (t_byWAN c),
                               t_sched := AddPath (t_sched c) (wn_ID wcfg)
                                 (effectiveCapacity (wn_CapacityMbps wcfg) (wn_Weight wcfg) params (sc_BalanceBy (cf_Scheduler cfg)))\<rparr>)))))"

fun add_wans :: "env \<Rightarrow> Config \<Rightarrow> int \<Rightarrow> WAN list \<Rightarrow> TClient \<Rightarrow> client_error + TClient" where
  "add_wans E cfg now [] c = Inr c"
| "add_wans E cfg now (w # ws) c = (case add_wan E cfg now w c of Inl e \<Rightarrow> Inl e | Inr c \<Rightarrow> add_wans E cfg now ws c)"

definition init_cross :: "env \<Rightarrow> Config \<Rightarrow> TClient \<Rightarrow> client_error + TClient" where
  "init_cross E cfg c =
     (if fc_Mode (cf_FEC cfg) \<noteq> FECCrosspath then Inr c
      else
        (case fecParamsFor (cf_FEC cfg) (cf_MTU cfg) (Some (cf_WANs cfg ! 0)) of
           Inl e \<Rightarrow> Inl (ClientParams e)
         | Inr p \<Rightarrow>
             (case NewEncoder (ev_rs E) p of
                Inl e \<Rightarrow> Inl (ClientCodec e)
              | Inr enc \<Rightarrow>
                  (let (c, i, j) = new_codecs c enc (NewDecoder p) in Inr (c\<lparr>t_crossPath := True, t_xenc := Some i, t_xdec := Some j\<rparr>)))))"

definition client_base :: "Config \<Rightarrow> aead \<Rightarrow> u64 \<Rightarrow> bytes \<Rightarrow> bytes \<Rightarrow> int \<Rightarrow> TClient" where
  "client_base cfg a sid priv pub now =
     (let probeInterval = seconds_of (hc_ProbeInterval (cf_Health cfg))
      in \<lparr>t_cfg = cfg, t_baseAEAD = a, t_psk = str_bytes (cc_Key (cf_Crypto cfg)), t_sess = NewClientWithID sid, t_wans = [], t_byWAN = [],
          t_sched = New_Scheduler (schedulerOptions cfg),
          t_delivery = newDeliveryBuffer (dl_GapTimeoutMS (cf_Delivery cfg) * Millisecond) (dl_MaxPending (cf_Delivery cfg)),
          t_sessAEAD = None, t_sessionReady = False, t_clientPriv = priv, t_clientPub = pub,
          t_probeInterval = (if probeInterval \<le> 0 then defaultProbeInterval else probeInterval),
          t_crossPath = False, t_xenc = None, t_xdec = None, t_mtu = cf_MTU cfg, t_adoptedFEC = None,
          t_sendErrs = 0, t_oversizeErrs = 0, t_noWANErrs = 0, t_preSessErrs = 0, t_start = now, t_encs = [], t_decs = []\<rparr>)"

text \<open>\<open>NewClient\<close>; the random bytes of the session identifier and of the key pair are arguments.\<close>

definition default_transports :: "WAN list \<Rightarrow> WAN list" where
  "default_transports = map (\<lambda>w. if wn_Transport w = [] then w\<lparr>wn_Transport := TransportUDP\<rparr> else w)"

definition NewTunnelClient :: "env \<Rightarrow> Config \<Rightarrow> bytes option \<Rightarrow> bytes option \<Rightarrow> int \<Rightarrow> (client_error + TClient) option" where
  "NewTunnelClient E cfg idRandom keyRandom now =
     (case Validate (ev_resolve E) cfg of
        Inl e \<Rightarrow> Some (Inl (ClientConfig e))
      | Inr cfg \<Rightarrow>
          (if cf_WANs cfg = [] then Some (Inl NoWANs)
           else if length (cf_WANs cfg) > maxWANs then Some (Inl (TooManyWANs (length (cf_WANs cfg))))
           else
             (let cfg = cfg\<lparr>cf_WANs := default_transports (cf_WANs cfg)\<rparr> in
              case find (\<lambda>i. wn_ID (cf_WANs cfg ! i) = []) [0..<length (cf_WANs cfg)] of
                Some i \<Rightarrow> Some (Inl (WANIDRequired i))
              | None \<Rightarrow>
                  (case DeriveKey (ev_hmac E) (str_bytes (cc_Key (cf_Crypto cfg))) of
                     Inl e \<Rightarrow> Some (Inl (KeyDerivation e))
                   | Inr None \<Rightarrow> None
                   | Inr (Some baseKey) \<Rightarrow>
                       Some (case NewAEAD (ev_chacha E) (ev_gcm E) baseKey (cc_Cipher (cf_Crypto cfg)) of
                          Inl e \<Rightarrow> Inl (CipherSetup e)
                        | Inr baseAEAD \<Rightarrow>
                            (case NewID idRandom of
                               None \<Rightarrow> Inl NoSessionID
                             | Some sid \<Rightarrow>
                                 (case GenerateEphemeralKey (ev_x E) keyRandom of
                                    Inl e \<Rightarrow> Inl (KeyPair e)
                                  | Inr (priv, pub) \<Rightarrow>
                                      (case init_cross E cfg (client_base cfg baseAEAD sid priv pub now) of
                                         Inl e \<Rightarrow> Inl e
                                       | Inr c \<Rightarrow> add_wans E cfg now (cf_WANs cfg) c))))))))"


text \<open>\<open>Client.Reload\<close>; on an error the uplinks before it keep the new values.\<close>

fun reload_wans :: "Config \<Rightarrow> nat list \<Rightarrow> TClient \<Rightarrow> TClient \<times> reload_error option" where
  "reload_wans nc [] c = (c, None)"
| "reload_wans nc (i # is) c =
     (if i \<ge> length (cf_WANs nc) then reload_wans nc is c
      else
        (let c = c\<lparr>t_sched := AddPath (t_sched c) (w_id (t_wans c ! i)) (f64_of_int (wn_CapacityMbps (cf_WANs nc ! i)))\<rparr> in
         case fecParamsFor (cf_FEC (t_cfg c)) (cf_MTU (t_cfg c)) (Some (cf_WANs nc ! i)) of
           Inl e \<Rightarrow> (c, Some (ReloadParams e))
         | Inr params \<Rightarrow>
             reload_wans nc is (upd_wan c i (\<lambda>w. w\<lparr>w_health := Monitor_Reload (w_health w) (healthOptions (cf_Health nc) (monitorMaxLoss params))\<rparr>))))"

definition Client_Reload :: "TClient \<Rightarrow> Config \<Rightarrow> TClient \<times> reload_error option" where
  "Client_Reload c nc =
     (case clientReloadable (t_cfg c) nc of
        Some e \<Rightarrow> (c, Some e)
      | None \<Rightarrow>
          (case reload_wans nc [0..<length (t_wans c)] c of
             (c, Some e) \<Rightarrow> (c, Some e)
           | (c, None) \<Rightarrow>
               (c\<lparr>t_delivery := delivery_Reload (t_delivery c) (dl_GapTimeoutMS (cf_Delivery nc) * Millisecond) (dl_MaxPending (cf_Delivery nc))\<rparr>, None)))"

text \<open>Telemetry; the formatted wall-clock time of the snapshot is left out.\<close>

record WANStats =
  ws_ID :: string
  ws_Transport :: string
  ws_State :: string
  ws_LossPct :: f64
  ws_RTTMs :: f64
  ws_JitterMs :: f64
  ws_CapacityMbps :: f64
  ws_FramesSent :: nat
  ws_Pongs :: nat
  ws_MissedProbes :: nat
  ws_LastRxAgeMs :: int
  ws_QueueDrops :: nat

record FECStats =
  fs_CrossPath :: bool
  fs_DataShards :: int
  fs_BlocksSent :: nat
  fs_FramesLost :: nat
  fs_Recovered :: nat
  fs_CodingOn :: bool

record DeliveryStats =
  ds_Pending :: nat
  ds_MaxPending :: int
  ds_Drops :: nat

record Snapshot =
  sn_Mode :: string
  sn_UptimeSec :: f64
  sn_Sessions :: nat
  sn_WANs :: "WANStats list"
  sn_FEC :: FECStats
  sn_Delivery :: DeliveryStats

text \<open>\<open>Duration.Seconds\<close>.\<close>

definition to_seconds :: "int \<Rightarrow> f64" where
  "to_seconds d = fadd (f64_of_int (d sdiv Second)) (fdiv (f64_of_int (d smod Second)) (Fin 1000000000))"

definition wan_stats :: "int \<Rightarrow> wanLink \<Rightarrow> WANStats" where
  "wan_stats now w =
     \<lparr>ws_ID = w_id w, ws_Transport = wn_Transport (w_cfg w), ws_State = State_String (mState (w_health w)),
      ws_LossPct = fmul (mLoss (w_health w)) (Fin 100),
      ws_RTTMs = fdiv (f64_of_int (mRtt (w_health w))) (f64_of_int Millisecond),
      ws_JitterMs = fdiv (f64_of_int (mJitter (w_health w))) (f64_of_int Millisecond),
      ws_CapacityMbps = f64_of_int (wn_CapacityMbps (w_cfg w)), ws_FramesSent = w_framesSent w, ws_Pongs = w_pongs w,
      ws_MissedProbes = w_missedProbes w,
      ws_LastRxAgeMs = (if w_lastRx w > 0 then sat64 (now - w_lastRx w) sdiv Millisecond else 0),
      ws_QueueDrops = (case w_q w of Some q \<Rightarrow> snd (snd (queue_stats q)) | None \<Rightarrow> 0)\<rparr>"

fun codec_stats :: "TClient \<Rightarrow> wanLink list \<Rightarrow> (nat \<times> nat \<times> nat \<times> bool) option" where
  "codec_stats c [] = Some (0, 0, 0, False)"
| "codec_stats c (w # ws) =
     (case (w_enc w, w_dec w) of
        (Some i, Some j) \<Rightarrow>
          map_option (\<lambda>(blocks, lost, recv, on).
              (Encoder_Stats (t_encs c ! i) + blocks, fst (Decoder_Stats (t_decs c ! j)) + lost,
               snd (Decoder_Stats (t_decs c ! j)) + recv, CodingOn (t_encs c ! i) \<or> on)) (codec_stats c ws)
      | _ \<Rightarrow> None)"

definition cross_stats :: "TClient \<Rightarrow> (nat \<times> nat \<times> nat \<times> bool) option" where
  "cross_stats c =
     (case (t_xenc c, t_xdec c) of
        (Some i, Some j) \<Rightarrow> Some (Encoder_Stats (t_encs c ! i), fst (Decoder_Stats (t_decs c ! j)), snd (Decoder_Stats (t_decs c ! j)), False)
      | _ \<Rightarrow> None)"

definition stats_shards :: "TClient \<Rightarrow> int option" where
  "stats_shards c =
     (let dataShards = (case t_xenc c of Some i \<Rightarrow> DataShards (e_params (t_encs c ! i)) | None \<Rightarrow> 0)
      in if dataShards = 0 \<and> t_wans c \<noteq> [] then map_option (\<lambda>i. DataShards (e_params (t_encs c ! i))) (w_enc (t_wans c ! 0))
         else Some dataShards)"

definition Client_Snapshot :: "TClient \<Rightarrow> int \<Rightarrow> Snapshot option" where
  "Client_Snapshot c now =
     (case (if t_crossPath c then cross_stats c else codec_stats c (t_wans c)) of
        None \<Rightarrow> None
      | Some (blocks, lost, recv, on) \<Rightarrow>
          map_option (\<lambda>shards.
            \<lparr>sn_Mode = ''client'', sn_UptimeSec = to_seconds (sat64 (now - t_start c)), sn_Sessions = 0,
             sn_WANs = map (wan_stats now) (t_wans c),
             sn_FEC = \<lparr>fs_CrossPath = t_crossPath c, fs_DataShards = shards, fs_BlocksSent = blocks, fs_FramesLost = lost,
                       fs_Recovered = recv, fs_CodingOn = (on \<or> t_crossPath c)\<rparr>,
             sn_Delivery = \<lparr>ds_Pending = pendingCount (t_delivery c), ds_MaxPending = db_maxPending (t_delivery c),
                            ds_Drops = dropsTotal (t_delivery c)\<rparr>\<rparr>) (stats_shards c))"

end
