(* ===== verification/Client_Runs.thy ===== *)
theory Client_Runs
  imports Tunnel_Client
begin

unbundle bit_operations_syntax

text \<open>
  Runs of the tunnel client: every interleaving of its loops is a sequence of handler
  calls. Every sealed frame takes its sequence number from the session counter, and the
  encoders hand a frame on at most once; so no two sealed frames of a run carry the same
  number, and no nonce is used twice, as long as the counter does not wrap.
\<close>

section \<open>Runs\<close>

datatype client_event =
    Ingress udp_addr bytes int f64 | Receive nat bytes int | SendHandshake nat | SendProbe nat int | ProbeTick nat int
  | FecTick int | HealthTick int | ReloadConfig Config

fun client_step :: "env \<Rightarrow> TClient \<Rightarrow> client_event \<Rightarrow> (TClient \<times> client_out list) option" where
  "client_step E c (Ingress a b now draw) = ingress E c a b now draw"
| "client_step E c (Receive i b now) = client_recv E c i b now"
| "client_step E c (SendHandshake i) = Some (handshake_send E c i)"
| "client_step E c (SendProbe i now) = Some (keepalive_send E c i now)"
| "client_step E c (ProbeTick i now) = Some (keepalive_tick E c i now)"
| "client_step E c (FecTick now) = fec_tick E c now"
| "client_step E c (HealthTick now) = map_option (\<lambda>c. (c, [])) (health_tick E c now)"
| "client_step E c (ReloadConfig nc) = Some (fst (Client_Reload c nc), [])"

fun client_run :: "env \<Rightarrow> TClient \<Rightarrow> client_event list \<Rightarrow> (TClient \<times> client_out list) option" where
  "client_run E c [] = Some (c, [])"
| "client_run E c (ev # evs) =
     (case client_step E c ev of
        None \<Rightarrow> None
      | Some (c, out) \<Rightarrow> map_option (\<lambda>(c, rest). (c, out @ rest)) (client_run E c evs))"

text \<open>The frames that were sealed, and how many numbers the session counter gave out.\<close>

fun sealed_of :: "client_out \<Rightarrow> bytes list" where
  "sealed_of (ToTransport wan b) = [b]"
| "sealed_of (ToQueue wan b ok) = [b]"
| "sealed_of (ToWG a b) = []"

definition sealed_frames :: "client_out list \<Rightarrow> bytes list" where
  "sealed_frames out = concat (map sealed_of out)"

fun drawn :: "env \<Rightarrow> TClient \<Rightarrow> client_event list \<Rightarrow> nat" where
  "drawn E c [] = 0"
| "drawn E c (ev # evs) =
     (case client_step E c ev of
        None \<Rightarrow> 0
      | Some (c', out) \<Rightarrow> unat (c_seq (t_sess c') - c_seq (t_sess c)) + drawn E c' evs)"

text \<open>The Reed-Solomon library takes at most 65536 shards.\<close>

definition rs_bounded :: "rs_lib \<Rightarrow> bool" where
  "rs_bounded rs_New \<longleftrightarrow> (\<forall>k p rs. rs_New k p = Some rs \<longrightarrow> p \<le> 65536)"

section \<open>Accounting for sequence numbers\<close>

definition wire :: "client_out list \<Rightarrow> u32 multiset" where
  "wire out = mset (map frameSeq (sealed_frames out))"

definition dseqs :: "frame list \<Rightarrow> u32 multiset" where
  "dseqs fs = mset (map fSeq (filter (\<lambda>f. \<not> is_parity f) fs))"

definition pend_of :: "Encoder list \<Rightarrow> u32 multiset" where
  "pend_of es = sum_list (map (\<lambda>e. dseqs (e_pending e)) es)"

definition numbers :: "u32 \<Rightarrow> nat \<Rightarrow> u32 multiset" where
  "numbers s n = mset (map (\<lambda>k. s + of_nat k + 1) [0..<n])"

lemma wire_append [simp]: "wire (xs @ ys) = wire xs + wire ys" "wire [] = {#}"
  by (simp_all add: wire_def sealed_frames_def)

lemma dseqs_append [simp]: "dseqs (xs @ ys) = dseqs xs + dseqs ys" "dseqs [] = {#}"
  "dseqs (f # fs) = (if is_parity f then {#} else {#fSeq f#}) + dseqs fs"
  by (simp_all add: dseqs_def)

lemma numbers_add: "numbers s (m + n) = numbers s m + numbers (s + of_nat m) n"
  by (induction n) (simp_all add: numbers_def add.assoc)

lemma numbers_1 [simp]: "numbers s 0 = {#}" "numbers s (Suc 0) = {#s + 1#}"
  by (simp_all add: numbers_def)

lemma pend_update: "i < length es \<Longrightarrow> pend_of (es[i := e]) + dseqs (e_pending (es ! i)) = pend_of es + dseqs (e_pending e)"
proof (induction es arbitrary: i)
  case (Cons a es)
  show ?case
  proof (cases i)
    case (Suc j)
    with Cons.IH [of j] Cons.prems show ?thesis by (simp add: pend_of_def add.assoc)
  qed (simp add: pend_of_def)
qed simp

lemma pend_append [simp]: "pend_of (es @ [e]) = pend_of es + dseqs (e_pending e)"
  by (simp add: pend_of_def)

text \<open>
  From \<open>c\<close> to \<open>c'\<close> the numbers \<open>I\<close> in flight and the ones waiting in the encoders, together with
  \<open>n\<close> fresh ones, cover what was sealed, what waits and what is still in flight.
\<close>

definition acct :: "TClient \<Rightarrow> u32 multiset \<Rightarrow> TClient \<Rightarrow> u32 multiset \<Rightarrow> client_out list \<Rightarrow> nat \<Rightarrow> bool" where
  "acct c I c' O' out n \<longleftrightarrow>
     c_seq (t_sess c') = c_seq (t_sess c) + of_nat n \<and>
     wire out + pend_of (t_encs c') + O' \<subseteq># I + pend_of (t_encs c) + numbers (c_seq (t_sess c)) n"

lemma acct_refl: "acct c I c I [] 0"
  by (simp add: acct_def add.commute)

lemma acct_trans:
  assumes "acct c I c1 M o1 n1" "acct c1 M c2 O' o2 n2"
  shows "acct c I c2 O' (o1 @ o2) (n1 + n2)"
proof -
  let ?s = "c_seq (t_sess c)"
  have 1: "wire o1 + (pend_of (t_encs c1) + M) \<subseteq># I + pend_of (t_encs c) + numbers ?s n1" and s1: "c_seq (t_sess c1) = ?s + of_nat n1"
    using assms(1) by (simp_all add: acct_def ac_simps)
  have 2: "wire o2 + pend_of (t_encs c2) + O' \<subseteq># (pend_of (t_encs c1) + M) + numbers (?s + of_nat n1) n2" and s2: "c_seq (t_sess c2) = c_seq (t_sess c1) + of_nat n2"
    using assms(2) s1 by (simp_all add: acct_def ac_simps)
  have "wire o1 + (wire o2 + pend_of (t_encs c2) + O') \<subseteq># wire o1 + ((pend_of (t_encs c1) + M) + numbers (?s + of_nat n1) n2)"
    using 2 by simp
  also have "\<dots> = (wire o1 + (pend_of (t_encs c1) + M)) + numbers (?s + of_nat n1) n2" by (simp add: ac_simps)
  also have "\<dots> \<subseteq># (I + pend_of (t_encs c) + numbers ?s n1) + numbers (?s + of_nat n1) n2"
    using 1 by (rule subset_mset.add_right_mono)
  finally show ?thesis using s1 s2 by (simp add: acct_def numbers_add ac_simps)
qed

lemma acct_frame:
  assumes "acct c I c' O' out n"
  shows "acct c (I + J) c' (O' + J) out n"
proof -
  have "(wire out + pend_of (t_encs c') + O') + J \<subseteq># (I + pend_of (t_encs c) + numbers (c_seq (t_sess c)) n) + J"
    using assms by (intro subset_mset.add_right_mono) (simp add: acct_def)
  then show ?thesis using assms by (simp add: acct_def ac_simps)
qed

lemma acct_drop: "acct c I c' O' out n \<Longrightarrow> acct c I c' {#} out n"
  unfolding acct_def by (auto intro: subset_mset.trans [rotated])

lemma acct_same: "t_sess c' = t_sess c \<Longrightarrow> t_encs c' = t_encs c \<Longrightarrow> wire out \<subseteq># I \<Longrightarrow> acct c I c' {#} out 0"
  by (simp add: acct_def)


section \<open>Sending\<close>

definition valid :: "nat \<Rightarrow> nat option \<Rightarrow> bool" where
  "valid n p \<longleftrightarrow> (case p of None \<Rightarrow> True | Some i \<Rightarrow> i < n)"

definition enc_small :: "Encoder \<Rightarrow> bool" where
  "enc_small e \<longleftrightarrow> e_rsParity e \<le> 65536 \<and> list_all (\<lambda>f. \<not> is_parity f) (e_pending e)"

definition client_ok :: "TClient \<Rightarrow> bool" where
  "client_ok c \<longleftrightarrow>
     list_all (valid (length (t_encs c))) (map w_enc (t_wans c)) \<and> valid (length (t_encs c)) (t_xenc c) \<and>
     list_all (\<lambda>(k, i). i < length (t_wans c)) (t_byWAN c) \<and> list_all enc_small (t_encs c)"

definition keeps :: "TClient \<Rightarrow> TClient \<Rightarrow> bool" where
  "keeps c c' \<longleftrightarrow> map w_enc (t_wans c') = map w_enc (t_wans c) \<and> t_xenc c' = t_xenc c \<and> t_byWAN c' = t_byWAN c \<and> t_encs c' = t_encs c"

lemma keeps_refl [simp]: "keeps c c" by (simp add: keeps_def)

lemma keeps_trans: "keeps c c1 \<Longrightarrow> keeps c1 c2 \<Longrightarrow> keeps c c2" by (simp add: keeps_def)

lemma keeps_ok:
  assumes "keeps c c'" "client_ok c"
  shows "client_ok c'"
proof -
  have "length (map w_enc (t_wans c')) = length (map w_enc (t_wans c))" using assms(1) by (simp only: keeps_def)
  then show ?thesis using assms by (simp add: keeps_def client_ok_def)
qed

lemma upd_wan_keeps: "w_enc (f (t_wans c ! i)) = w_enc (t_wans c ! i) \<Longrightarrow> keeps c (upd_wan c i f)"
proof -
  assume f: "w_enc (f (t_wans c ! i)) = w_enc (t_wans c ! i)"
  have "map w_enc ((t_wans c)[i := f (t_wans c ! i)]) = map w_enc (t_wans c)"
  proof (cases "i < length (t_wans c)")
    case True
    then have "w_enc (f (t_wans c ! i)) = map w_enc (t_wans c) ! i" using f by simp
    then show ?thesis unfolding map_update by (simp only: list_update_id)
  qed (simp add: list_update_beyond)
  then show ?thesis by (simp add: keeps_def upd_wan_def)
qed

lemma upd_wan_sess [simp]: "t_sess (upd_wan c i f) = t_sess c" "t_encs (upd_wan c i f) = t_encs c"
  by (simp_all add: upd_wan_def)

lemma sendLocked_acct:
  assumes "sendLocked E c i f a = (c', out, err)"
  shows "keeps c c' \<and> t_sess c' = t_sess c \<and> wire out \<subseteq># {#fSeq f#}"
proof (cases a)
  case None
  then show ?thesis using assms by (simp add: sendLocked_def)
next
  case (Some aead)
  define g where "g = (if HasFlag f FlagPassSeq then f\<lparr>fBlockSeq := w_pathSeq (t_wans c ! i)\<rparr> else f)"
  define w where "w = (if HasFlag f FlagPassSeq then (t_wans c ! i)\<lparr>w_pathSeq := w_pathSeq (t_wans c ! i) + 1\<rparr> else t_wans c ! i)"
  define d where "d = upd_wan c i (\<lambda>_. w)"
  have keep: "keeps c d" "t_sess d = t_sess c" and seq: "fSeq g = fSeq f"
    by (auto simp: d_def w_def g_def intro: upd_wan_keeps)
  have eq: "sendLocked E c i f a = (case Encode g of
                Inl e \<Rightarrow> (d, [], Some SendEncode)
              | Inr plain \<Rightarrow>
                  (case Seal aead DirClientToServer plain of
                     Inl e \<Rightarrow> (d, [], Some SendSeal)
                   | Inr sealed \<Rightarrow>
                       (case w_q w of
                          Some q \<Rightarrow>
                            (let (q, ok) = enqueue q sealed
                             in (upd_wan d i (\<lambda>w. w\<lparr>w_q := Some q\<rparr>), [ToQueue (w_id w) sealed ok], if ok then None else Some QueueDropped))
                        | None \<Rightarrow>
                            (d, [ToTransport (w_id w) sealed], if ev_send E (w_id w) sealed then None else Some TransportFailed))))"
    unfolding sendLocked_def Some Let_def d_def w_def g_def option.case(2) by (cases "HasFlag f FlagPassSeq") simp_all
  have q: "keeps c (upd_wan d i (\<lambda>w. w\<lparr>w_q := Some q\<rparr>))" for q by (intro keeps_trans [OF keep(1)] upd_wan_keeps) simp
  show ?thesis
    using assms keep seq q sealed_seq [of g _ aead DirClientToServer] unfolding eq
    by (auto simp: wire_def sealed_frames_def split: sum.splits option.splits prod.splits)
qed

definition parity_count :: "frame list \<Rightarrow> nat" where
  "parity_count fs = length (filter is_parity fs)"

lemma number_parity_acct:
  assumes "number_parity c f = (c1, g)"
  shows "keeps c c1 \<and> acct c (dseqs [f]) c1 {#fSeq g#} [] (parity_count [f])"
  using assms
  by (auto simp: number_parity_def next_seq_def Client_NextSeq_def Let_def keeps_def acct_def parity_count_def is_parity_def ac_simps
      split: if_splits)

lemma acct_send:
  assumes "keeps c c'" "t_sess c' = t_sess c" "wire out \<subseteq># I"
  shows "acct c I c' {#} out 0"
  using assms by (simp add: keeps_def acct_same)

lemma send_frames_acct:
  "send_frames E a i c fs = (c', out) \<Longrightarrow> keeps c c' \<and> acct c (dseqs fs) c' {#} out (parity_count fs)"
proof (induction fs arbitrary: c c' out)
  case Nil
  then show ?case by (simp add: acct_refl parity_count_def)
next
  case (Cons f fs)
  obtain c1 g where 1: "number_parity c f = (c1, g)" by fastforce
  define c2 where "c2 = upd_wan c1 i (\<lambda>w. w\<lparr>w_framesSent := Suc (w_framesSent w)\<rparr>)"
  obtain c3 o1 err where 3: "sendLocked E c2 i g a = (c3, o1, err)" by (cases "sendLocked E c2 i g a")
  define c4 where "c4 = (if err = None then c3 else noteSendErr c3)"
  obtain c5 o2 where 5: "send_frames E a i c4 fs = (c5, o2)" by fastforce
  have eq: "c' = c5" "out = o1 @ o2" using Cons.prems 1 3 5 by (simp_all add: c2_def [symmetric] c4_def [symmetric] Let_def)
  have k2: "keeps c1 c2" "t_sess c2 = t_sess c1" by (auto simp: c2_def intro: upd_wan_keeps)
  have k4: "keeps c3 c4" "t_sess c4 = t_sess c3" by (simp_all add: c4_def keeps_def noteSendErr_def)
  have "keeps c1 c4" "t_sess c4 = t_sess c1" "wire o1 \<subseteq># {#fSeq g#}"
    using sendLocked_acct [OF 3] k2 k4 by (auto intro: keeps_trans)
  then have "acct c1 {#fSeq g#} c4 {#} o1 0" "keeps c c4" using number_parity_acct [OF 1] by (auto intro: acct_send keeps_trans)
  then have "acct c (dseqs [f]) c4 {#} o1 (parity_count [f])"
    using acct_trans [of c "dseqs [f]" c1 "{#fSeq g#}" "[]" "parity_count [f]" c4 "{#}" o1 0] number_parity_acct [OF 1] by simp
  from acct_frame [OF this, of "dseqs fs"] have "acct c (dseqs (f # fs)) c4 (dseqs fs) o1 (parity_count [f])" by simp
  moreover have "acct c4 (dseqs fs) c5 {#} o2 (parity_count fs)" "keeps c4 c5" using Cons.IH [OF 5] by auto
  ultimately have "acct c (dseqs (f # fs)) c5 {#} (o1 @ o2) (parity_count [f] + parity_count fs)" by (intro acct_trans)
  moreover have "parity_count [f] + parity_count fs = parity_count (f # fs)" by (simp add: parity_count_def)
  ultimately show ?case using \<open>keeps c c4\<close> \<open>keeps c4 c5\<close> unfolding eq by (auto intro: keeps_trans)
qed


lemma sendEncoded_acct:
  assumes "sendEncoded E c i fs = (c', out)"
  shows "keeps c c' \<and> (\<exists>n\<le>parity_count fs. acct c (dseqs fs) c' {#} out n)"
proof (cases "t_sessionReady c")
  case True
  then show ?thesis using assms send_frames_acct by (fastforce simp: sendEncoded_def getSessionAEAD_def)
next
  case False
  then have "c' = c" "out = []" using assms by (auto simp: sendEncoded_def getSessionAEAD_def)
  then show ?thesis using acct_drop [OF acct_refl, of c "dseqs fs"] by auto
qed

lemma send_cross_acct:
  "send_cross E a c fs = Some (c', out) \<Longrightarrow> keeps c c' \<and> acct c (dseqs fs) c' {#} out (parity_count fs)"
proof (induction fs arbitrary: c c' out)
  case Nil
  then show ?case by (simp add: acct_refl parity_count_def)
next
  case (Cons f fs)
  obtain c1 g where 1: "number_parity c f = (c1, g)" by fastforce
  obtain sched pick where 2: "PickWRR (t_sched c1) = (sched, pick)" by fastforce
  have "\<exists>c4 o1 o2. keeps c1 c4 \<and> t_sess c4 = t_sess c1 \<and> wire o1 \<subseteq># {#fSeq g#} \<and> send_cross E a c4 fs = Some (c', o2) \<and> out = o1 @ o2"
  proof (cases pick)
    case None
    then have "send_cross E a (noteNoWAN (c1\<lparr>t_sched := sched\<rparr>)) fs = Some (c', out)" using Cons.prems 1 2 by (simp add: Let_def)
    moreover have "keeps c1 (noteNoWAN (c1\<lparr>t_sched := sched\<rparr>))" "t_sess (noteNoWAN (c1\<lparr>t_sched := sched\<rparr>)) = t_sess c1"
      by (simp_all add: keeps_def noteNoWAN_def)
    ultimately show ?thesis by (intro exI [of _ "noteNoWAN (c1\<lparr>t_sched := sched\<rparr>)"] exI [of _ "[]"] exI [of _ out]) simp
  next
    case (Some wid)
    obtain i where i: "map_of (t_byWAN c1) wid = Some i" using Cons.prems 1 2 Some by (auto simp: Let_def split: option.splits)
    obtain c3 o1 err where 3: "sendLocked E (c1\<lparr>t_sched := sched\<rparr>) i g a = (c3, o1, err)"
      by (cases "sendLocked E (c1\<lparr>t_sched := sched\<rparr>) i g a")
    have "keeps c1 (c1\<lparr>t_sched := sched\<rparr>)" by (simp add: keeps_def)
    then have "keeps c1 c3" "t_sess c3 = t_sess c1" "wire o1 \<subseteq># {#fSeq g#}" using sendLocked_acct [OF 3] by (auto intro: keeps_trans)
    moreover obtain o2 where "send_cross E a c3 fs = Some (c', o2)" "out = o1 @ o2"
      using Cons.prems 1 2 Some i 3 by (auto simp: Let_def)
    ultimately show ?thesis by blast
  qed
  then obtain c4 o1 o2 where 4: "keeps c1 c4" "t_sess c4 = t_sess c1" "wire o1 \<subseteq># {#fSeq g#}" "send_cross E a c4 fs = Some (c', o2)" "out = o1 @ o2"
    by blast
  then have "acct c1 {#fSeq g#} c4 {#} o1 0" "keeps c c4" using number_parity_acct [OF 1] by (auto intro: acct_send keeps_trans)
  then have "acct c (dseqs [f]) c4 {#} o1 (parity_count [f])"
    using acct_trans [of c "dseqs [f]" c1 "{#fSeq g#}" "[]" "parity_count [f]" c4 "{#}" o1 0] number_parity_acct [OF 1] by simp
  from acct_frame [OF this, of "dseqs fs"] have "acct c (dseqs (f # fs)) c4 (dseqs fs) o1 (parity_count [f])" by simp
  moreover have "acct c4 (dseqs fs) c' {#} o2 (parity_count fs)" "keeps c4 c'" using Cons.IH [OF 4(4)] by auto
  ultimately have "acct c (dseqs (f # fs)) c' {#} (o1 @ o2) (parity_count [f] + parity_count fs)" by (intro acct_trans)
  moreover have "parity_count [f] + parity_count fs = parity_count (f # fs)" by (simp add: parity_count_def)
  ultimately show ?case using \<open>keeps c c4\<close> \<open>keeps c4 c'\<close> unfolding 4(5) by (auto intro: keeps_trans)
qed

lemma sendCrossEncoded_acct:
  assumes "sendCrossEncoded E c fs = Some (c', out)"
  shows "keeps c c' \<and> (\<exists>n\<le>parity_count fs. acct c (dseqs fs) c' {#} out n)"
proof (cases "t_sessionReady c")
  case True
  then show ?thesis using assms send_cross_acct by (fastforce simp: sendCrossEncoded_def getSessionAEAD_def)
next
  case False
  then have "c' = c" "out = []" using assms by (auto simp: sendCrossEncoded_def getSessionAEAD_def)
  then show ?thesis using acct_drop [OF acct_refl, of c "dseqs fs"] by auto
qed

section \<open>Encoders\<close>

lemma refresh_small: "rs_bounded rs_New \<Longrightarrow> e_rsParity e \<le> 65536 \<Longrightarrow> e_rsParity (refreshLocked rs_New e now) \<le> 65536"
  by (auto simp: refreshLocked_def rebuildLocked_def Let_def rs_bounded_def split: option.split bool.split)

lemma dseqs_marks [simp]: "dseqs (stamp_block b fs) = dseqs fs" "dseqs (markPassSeq fs) = dseqs fs"
  by (induction fs) (auto simp: dseqs_def stamp_block_def markPassSeq_def)

lemma parity_count_marks [simp]:
  "parity_count (stamp_block b fs) = parity_count fs" "parity_count (markPassSeq fs) = parity_count fs"
  "parity_count (xs @ ys) = parity_count xs + parity_count ys" "parity_count [] = 0"
  by (induction fs) (auto simp: parity_count_def stamp_block_def markPassSeq_def)

lemma parity_count_data: "list_all (\<lambda>f. \<not> is_parity f) fs \<Longrightarrow> parity_count fs = 0"
  by (auto simp: parity_count_def list_all_iff filter_empty_conv)

lemma parity_loop_counts: "dseqs (parity_loop sid bs k sh i sub) = {#}" "length (parity_loop sid bs k sh i sub) = length sh"
proof -
  show "dseqs (parity_loop sid bs k sh i sub) = {#}" using parity_loop_parity by (fastforce simp: dseqs_def filter_empty_conv)
  show "length (parity_loop sid bs k sh i sub) = length sh" by (induction sid bs k sh i sub rule: parity_loop.induct) (simp_all add: Let_def)
qed

lemma emitBlock_counts:
  assumes "list_all (\<lambda>f. \<not> is_parity f) (e_pending e)" "e_rsParity e \<le> 65536"
  shows "dseqs (snd (emitBlock e)) = dseqs (e_pending e)" "parity_count (snd (emitBlock e)) \<le> 65536"
proof -
  show "dseqs (snd (emitBlock e)) = dseqs (e_pending e)"
    by (simp add: emitBlock_def Let_def parity_loop_counts split: option.split)
  have "parity_count (parity_loop sid bs k (take (nat (e_rsParity e)) sh) i sub) \<le> 65536" for sid bs k sh i sub
  proof -
    have "parity_count (parity_loop sid bs k (take (nat (e_rsParity e)) sh) i sub) \<le> length (take (nat (e_rsParity e)) sh)"
      unfolding parity_count_def using length_filter_le parity_loop_counts(2) by metis
    then show ?thesis using assms(2) by (simp add: min_def split: if_splits)
  qed
  then show "parity_count (snd (emitBlock e)) \<le> 65536"
    using parity_count_data [OF assms(1)] by (simp add: emitBlock_def Let_def split: option.split)
qed

lemma Encoder_Push_counts:
  assumes "Encoder_Push rs_New e f now = (e', fs)" "rs_bounded rs_New" "enc_small e" "\<not> is_parity f"
  shows "dseqs fs + dseqs (e_pending e') = {#fSeq f#} + dseqs (e_pending e) \<and> parity_count fs \<le> 65536 \<and> enc_small e'"
proof -
  let ?r = "refreshLocked rs_New e now"
  let ?b = "if e_pending e = [] then ?r\<lparr>e_blockStart := Some now\<rparr> else ?r"
  let ?p = "?b\<lparr>e_pending := e_pending e @ [f]\<rparr>"
  have r: "e_rsParity ?r \<le> 65536" using assms(2,3) by (intro refresh_small) (simp_all add: enc_small_def)
  have d: "list_all (\<lambda>f. \<not> is_parity f) (e_pending e @ [f])" using assms(3,4) by (simp add: enc_small_def)
  then have pc: "parity_count (e_pending e) = 0" "parity_count [f] = 0" using parity_count_data by (auto simp: list_all_append)
  have "list_all (\<lambda>f. \<not> is_parity f) (e_pending ?p)" "e_rsParity ?p \<le> 65536" using d r by auto
  note em = emitBlock_counts [OF this]
  show ?thesis
  proof (cases "Enabled (e_params e) \<and> e_codingOn ?r")
    case False
    then have "e' = e \<and> fs = markPassSeq [f] \<or> e' = ?r\<lparr>e_pending := []\<rparr> \<and> fs = markPassSeq (e_pending e @ [f])"
      using assms(1) by (cases "Enabled (e_params e)") (simp_all add: Encoder_Push_def Let_def)
    then show ?thesis using assms(3,4) r d pc by (elim disjE conjE) (simp_all add: enc_small_def add.commute)
  next
    case True
    then have "(e', fs) = (if int (length (e_pending ?p)) < DataShards (e_params ?p) then (?p, []) else emitBlock ?p)"
      using assms(1) by (cases "e_pending e = []") (simp_all add: Encoder_Push_def Let_def split: if_splits)
    then have "e' = ?p \<and> fs = [] \<or> e' = fst (emitBlock ?p) \<and> fs = snd (emitBlock ?p)"
      by (metis fst_conv prod.collapse snd_conv)
    then show ?thesis
    proof
      assume "e' = ?p \<and> fs = []"
      then show ?thesis using r d assms(4) by (simp add: enc_small_def add.commute)
    next
      assume "e' = fst (emitBlock ?p) \<and> fs = snd (emitBlock ?p)"
      then show ?thesis using em r assms(4) by (simp add: enc_small_def emitBlock_frame add.commute)
    qed
  qed
qed

lemma Encoder_Tick_counts:
  assumes "Encoder_Tick rs_New e now = (e', fs)" "rs_bounded rs_New" "enc_small e"
  shows "dseqs fs + dseqs (e_pending e') = dseqs (e_pending e) \<and> parity_count fs = 0 \<and> enc_small e'"
  using assms refresh_small [of rs_New e now] parity_count_data [of "e_pending e"]
  by (auto simp: Encoder_Tick_def Let_def enc_small_def split: if_splits option.splits)


lemma rs_boundedD: "rs_bounded rs_New \<Longrightarrow> rs_New k p = Some rs \<Longrightarrow> p \<le> 65536"
  by (auto simp: rs_bounded_def)

lemma New_small: "rs_bounded rs_New \<Longrightarrow> NewEncoder rs_New p = Inr e \<Longrightarrow> enc_small e \<and> e_pending e = []"
  by (auto simp: NewEncoder_def Let_def enc_small_def Enabled_def dest: rs_boundedD split: if_splits option.splits)

lemma SetLossRate_small: "rs_bounded rs_New \<Longrightarrow> enc_small e \<Longrightarrow> enc_small (SetLossRate rs_New e r now) \<and> e_pending (SetLossRate rs_New e r now) = e_pending e"
  by (simp add: SetLossRate_def Let_def enc_small_def refresh_small)

section \<open>Steps that draw nothing\<close>

definition quiet :: "TClient \<Rightarrow> TClient \<Rightarrow> bool" where
  "quiet c c' \<longleftrightarrow> client_ok c' \<and> c_seq (t_sess c') = c_seq (t_sess c) \<and> pend_of (t_encs c') = pend_of (t_encs c)"

lemma quiet_trans: "quiet c c1 \<Longrightarrow> quiet c1 c2 \<Longrightarrow> quiet c c2" by (simp add: quiet_def)

lemma quiet_refl: "client_ok c \<Longrightarrow> quiet c c" by (simp add: quiet_def)

lemma quiet_keeps: "client_ok c \<Longrightarrow> keeps c c' \<Longrightarrow> c_seq (t_sess c') = c_seq (t_sess c) \<Longrightarrow> quiet c c'"
  using keeps_ok by (auto simp: quiet_def keeps_def)

lemma quiet_acct: "quiet c c' \<Longrightarrow> wire out = {#} \<Longrightarrow> client_ok c' \<and> acct c {#} c' {#} out 0"
  by (simp add: quiet_def acct_def)

lemma valid_mono: "valid n p \<Longrightarrow> n \<le> m \<Longrightarrow> valid m p" by (cases p) (simp_all add: valid_def)

lemma list_all_update: "list_all P xs \<Longrightarrow> P x \<Longrightarrow> list_all P (xs[i := x])"
  by (auto simp: list_all_iff dest: set_update_subset_insert [THEN subsetD])

lemma client_ok_enc: "client_ok c \<Longrightarrow> enc_small e \<Longrightarrow> client_ok (c\<lparr>t_encs := (t_encs c)[i := e]\<rparr>)"
  by (simp add: client_ok_def list_all_update)

lemma new_codecs_ok:
  assumes "client_ok c" "rs_bounded rs_New" "NewEncoder rs_New p = Inr enc" "new_codecs c enc dec = (c1, i, j)"
  shows "client_ok c1" "pend_of (t_encs c1) = pend_of (t_encs c)" "t_sess c1 = t_sess c" "i < length (t_encs c1)"
    "length (t_wans c1) = length (t_wans c)"
proof -
  have "list_all (valid (length (t_encs c1))) (map w_enc (t_wans c))" "valid (length (t_encs c1)) (t_xenc c)"
    using assms(1,4) valid_mono [of "length (t_encs c)" _ "length (t_encs c1)"]
    by (auto simp: client_ok_def new_codecs_def list_all_iff)
  then show "client_ok c1" using assms New_small [OF assms(2,3)] by (auto simp: client_ok_def new_codecs_def)
qed (use assms New_small [OF assms(2,3)] in \<open>auto simp: new_codecs_def\<close>)

lemma client_ok_slot:
  assumes "client_ok c" "w_enc (f (t_wans c ! i)) = p" "valid (length (t_encs c)) p"
  shows "client_ok (upd_wan c i f)"
  using assms by (simp add: client_ok_def upd_wan_def map_update list_all_update)

lemma adopt_cross_quiet:
  assumes "client_ok c" "rs_bounded (ev_rs E)" "adopt_cross E c f mtu = (c', err)"
  shows "quiet c c'"
proof -
  have x: "client_ok c \<Longrightarrow> client_ok (c\<lparr>t_xenc := None\<rparr>)" by (simp add: client_ok_def valid_def)
  have *: "quiet c (c1\<lparr>t_xenc := Some i, t_xdec := Some j, t_wans := map (\<lambda>w. w\<lparr>w_enc := Some i, w_dec := Some j\<rparr>) (t_wans c1)\<rparr>)"
    if "NewEncoder (ev_rs E) p = Inr enc" "new_codecs c enc dec = (c1, i, j)" for p enc dec c1 i j
    using new_codecs_ok [OF assms(1,2) that] by (auto simp: quiet_def client_ok_def valid_def list_all_iff)
  show ?thesis
    using assms(1,3) x * by (auto simp: adopt_cross_def Let_def quiet_refl quiet_def split: sum.splits prod.splits)
qed

lemma adopt_wans_quiet:
  "client_ok c \<Longrightarrow> rs_bounded (ev_rs E) \<Longrightarrow> adopt_wans E f mtu ns c = (c', err) \<Longrightarrow> quiet c c'"
proof (induction ns arbitrary: c)
  case Nil
  then show ?case by (simp add: quiet_refl)
next
  case (Cons n ns)
  show ?case
  proof (cases "fecParamsFor f mtu (Some (cf_WANs (t_cfg c) ! n))")
    case (Inl e)
    then show ?thesis using Cons.prems by (simp add: quiet_refl)
  next
    case (Inr p)
    note pars = Inr
    show ?thesis
    proof (cases "NewEncoder (ev_rs E) p")
      case (Inl e)
      have "client_ok (upd_wan c n (\<lambda>w. w\<lparr>w_enc := None\<rparr>))"
        using Cons.prems(1) by (intro client_ok_slot [where p = None]) (simp_all add: valid_def)
      then show ?thesis using Cons.prems Inl pars by (auto simp: quiet_def)
    next
      case (Inr enc)
      obtain c1 i j where n: "new_codecs c enc (NewDecoder p) = (c1, i, j)" by (cases "new_codecs c enc (NewDecoder p)")
      note k = new_codecs_ok [OF Cons.prems(1,2) Inr n]
      let ?c = "upd_wan c1 n (\<lambda>w. w\<lparr>w_enc := Some i, w_dec := Some j\<rparr>)"
      have ok: "client_ok ?c" using k(1,4) by (intro client_ok_slot [where p = "Some i"]) (simp_all add: valid_def)
      then have "quiet c ?c" using k by (simp add: quiet_def)
      moreover have "quiet ?c c'" using Cons.IH [OF ok Cons.prems(2)] Cons.prems(3) pars Inr n by simp
      ultimately show ?thesis by (rule quiet_trans)
    qed
  qed
qed

lemma applyAnnounce_quiet:
  assumes "client_ok c" "rs_bounded (ev_rs E)" "applyAnnounce E c data = (c', err)"
  shows "quiet c c'"
proof -
  have set: "quiet c (c\<lparr>t_crossPath := b\<rparr>)" "client_ok (c\<lparr>t_crossPath := b\<rparr>)" for b
    using assms(1) by (simp_all add: quiet_def client_ok_def)
  have fin: "quiet c d \<Longrightarrow> quiet c (d\<lparr>t_mtu := m, t_adoptedFEC := a\<rparr>)" for d m a by (simp add: quiet_def client_ok_def)
  have x: "adopt_cross E (c\<lparr>t_crossPath := b\<rparr>) f mtu = (d, e) \<Longrightarrow> quiet c d" for f mtu d e b
    using adopt_cross_quiet [OF set(2) assms(2)] quiet_trans [OF set(1)] by blast
  have w: "adopt_wans E f mtu ns (c\<lparr>t_crossPath := b\<rparr>) = (d, e) \<Longrightarrow> quiet c d" for f mtu ns d e b
    using adopt_wans_quiet [OF set(2) assms(2)] quiet_trans [OF set(1)] by blast
  show ?thesis
    using assms(1,3) unfolding applyAnnounce_def Let_def
    by (auto simp: quiet_refl split: if_splits option.splits prod.splits dest!: x w intro: fin)
qed


lemma handleKexAck_quiet:
  assumes "client_ok c" "rs_bounded (ev_rs E)" "handleKexAck E c sealed = Some (c', ok)"
  shows "quiet c c'"
proof -
  have fin: "quiet c d \<Longrightarrow> quiet c (setSessionAEAD d a)" for d a by (simp add: quiet_def client_ok_def setSessionAEAD_def)
  show ?thesis
    using assms(1,3) unfolding handleKexAck_def
    by (auto simp: quiet_refl split: if_splits sum.splits option.splits prod.splits
        dest!: applyAnnounce_quiet [OF assms(1,2)] intro: fin)
qed

lemma openAndVerify_keeps:
  "openAndVerify c sealed = (c', f) \<Longrightarrow> keeps c c' \<and> c_seq (t_sess c') = c_seq (t_sess c)"
  unfolding openAndVerify_def Client_CheckReplay_def Let_def
  by (auto simp: keeps_def split: if_splits sum.splits option.splits prod.splits bool.splits)

lemma buffer_quiet:
  assumes "client_ok c"
  shows "buffer_push E c fs now = (c', out) \<Longrightarrow> quiet c c' \<and> wire out = {#}"
    and "buffer_tick E c now = (c', out) \<Longrightarrow> quiet c c' \<and> wire out = {#}"
proof -
  have wg: "wire (deliverToWG d fs) = {#}" for d fs
    by (auto simp: deliverToWG_def wire_def sealed_frames_def split: option.split)
  have d: "quiet c (c\<lparr>t_delivery := b\<rparr>)" for b using assms by (simp add: quiet_def client_ok_def)
  show "buffer_push E c fs now = (c', out) \<Longrightarrow> quiet c c' \<and> wire out = {#}" "buffer_tick E c now = (c', out) \<Longrightarrow> quiet c c' \<and> wire out = {#}"
    using wg d by (auto simp: buffer_push_def buffer_tick_def Let_def split: prod.splits)
qed

lemma dec_quiet:
  assumes "client_ok c"
  shows "dec_push E c p path f now = Some (c', fs) \<Longrightarrow> quiet c c'" "dec_tick E c p now = Some (c', fs) \<Longrightarrow> quiet c c'"
proof -
  have "quiet c (c\<lparr>t_decs := ds\<rparr>)" for ds using assms by (simp add: quiet_def client_ok_def)
  then show "dec_push E c p path f now = Some (c', fs) \<Longrightarrow> quiet c c'" "dec_tick E c p now = Some (c', fs) \<Longrightarrow> quiet c c'"
    by (auto simp: dec_push_def dec_tick_def Let_def split: option.splits prod.splits)
qed

lemma upd_wan_quiet: "client_ok c \<Longrightarrow> (\<And>w. w_enc (f w) = w_enc w) \<Longrightarrow> quiet c (upd_wan c i f)"
  by (intro quiet_keeps upd_wan_keeps) simp_all

lemma client_recv_quiet:
  assumes "client_ok c" "rs_bounded (ev_rs E)" "client_recv E c i sealed now = Some (c', out)"
  shows "quiet c c' \<and> wire out = {#}"
proof (cases "DecodeHeader sealed")
  case (Inl e)
  then show ?thesis using assms by (simp add: client_recv_def quiet_refl)
next
  case (Inr hdr)
  show ?thesis
  proof (cases "fSessionID hdr = c_ID (t_sess c) \<and> HasFlag hdr FlagKex")
    case True
    then obtain d ok where d: "handleKexAck E c sealed = Some (d, ok)" "c' = (if ok then upd_wan d i (\<lambda>w. w\<lparr>w_lastRx := now\<rparr>) else d)" "out = []"
      using assms(3) Inr by (auto simp: client_recv_def)
    have q: "quiet c d" by (rule handleKexAck_quiet [OF assms(1,2) d(1)])
    moreover have "quiet d (upd_wan d i (\<lambda>w. w\<lparr>w_lastRx := now\<rparr>))" using q by (intro upd_wan_quiet) (simp_all add: quiet_def)
    ultimately show ?thesis using d(2,3) by (auto intro: quiet_trans)
  next
    case False
    obtain d g where d: "openAndVerify c sealed = (d, g)" by fastforce
    have q: "quiet c d" using openAndVerify_keeps [OF d] assms(1) by (intro quiet_keeps) auto
    show ?thesis
    proof (cases g)
      case None
      then show ?thesis using assms(3) Inr False d q by (simp add: client_recv_def)
    next
      case (Some f)
      let ?d = "upd_wan d i (\<lambda>w. w\<lparr>w_lastRx := now\<rparr>)"
      have q1: "quiet c ?d" using q by (intro quiet_trans [OF q] upd_wan_quiet) (simp_all add: quiet_def)
      then have ok: "client_ok ?d" by (simp add: quiet_def)
      have pong: "quiet ?d (handlePong ?d i f now)" using ok
        by (auto simp: handlePong_def Let_def quiet_refl intro: upd_wan_quiet)
      have push: "quiet ?d c' \<and> wire out = {#}"
        if h: "map_option (\<lambda>(c, frames). buffer_push E c frames now) (dec_push E ?d p path f now) = Some (c', out)" for p path
      proof -
        obtain d2 fs where "dec_push E ?d p path f now = Some (d2, fs)" and b: "buffer_push E d2 fs now = (c', out)" using h by auto
        then have "quiet ?d d2" using dec_quiet(1) [OF ok] by blast
        moreover from this have "client_ok d2" by (simp add: quiet_def)
        ultimately show ?thesis using buffer_quiet(1) [OF _ b] quiet_trans by blast
      qed
      have "quiet ?d c' \<and> wire out = {#}"
        using assms(3) Inr False d Some pong push ok by (auto simp: client_recv_def Let_def quiet_refl split: if_splits)
      then show ?thesis using q1 quiet_trans by blast
    qed
  qed
qed


section \<open>Steps that send\<close>

definition good_step :: "TClient \<Rightarrow> TClient \<Rightarrow> client_out list \<Rightarrow> bool" where
  "good_step c c' out \<longleftrightarrow> client_ok c' \<and> (\<exists>n\<le>65537. acct c {#} c' {#} out n)"

lemma quiet_good: "quiet c c' \<Longrightarrow> wire out = {#} \<Longrightarrow> good_step c c' out"
  using quiet_acct by (fastforce simp: good_step_def)

lemma next_seq_acct: "next_seq c = (c1, q) \<Longrightarrow> keeps c c1 \<and> acct c {#} c1 {#q#} [] 1"
  by (auto simp: next_seq_def Client_NextSeq_def Let_def keeps_def acct_def)

lemma one_send_good:
  assumes "client_ok c" "next_seq c = (c1, q)" "sendLocked E c1 i f a = (c2, out, err)" "fSeq f = q"
  shows "good_step c c2 out"
proof -
  have "acct c1 {#q#} c2 {#} out 0" "keeps c c2"
    using sendLocked_acct [OF assms(3)] next_seq_acct [OF assms(2)] assms(4) by (auto intro: acct_send keeps_trans)
  then show ?thesis
    using acct_trans [of c "{#}" c1 "{#q#}" "[]" 1 c2 "{#}" out 0] next_seq_acct [OF assms(2)] keeps_ok assms(1)
    by (auto simp: good_step_def intro!: exI [of _ 1])
qed

lemma good_quiet: "good_step c c1 out \<Longrightarrow> (client_ok c1 \<Longrightarrow> quiet c1 c2) \<Longrightarrow> good_step c c2 out"
  by (auto simp: good_step_def quiet_def acct_def)

lemma quiet_then_good: "quiet c c1 \<Longrightarrow> good_step c1 c2 out \<Longrightarrow> good_step c c2 out"
  by (auto simp: good_step_def quiet_def acct_def)

lemma handshake_good:
  assumes "client_ok c" "handshake_send E c i = (c', out)"
  shows "good_step c c' out"
  using assms one_send_good [OF assms(1), of _ _ E i]
  by (auto simp: handshake_send_def Client_send_def Let_def split: prod.splits)

lemma keepalive_good:
  assumes "client_ok c" "keepalive_send E c i now = (c', out)"
  shows "good_step c c' out"
proof (cases "t_sessionReady c")
  case False
  then show ?thesis using assms by (auto simp: keepalive_send_def getSessionAEAD_def intro: quiet_good quiet_refl)
next
  case True
  then obtain c1 q f c2 err where "next_seq c = (c1, q)" "sendLocked E c1 i f (t_sessAEAD c) = (c2, out, err)" "fSeq f = q"
    and c': "c' = upd_wan c2 i (\<lambda>w. w\<lparr>w_probeOut := True, w_probeStart := Some now\<rparr>)"
    using assms(2) by (auto simp: keepalive_send_def getSessionAEAD_def Client_send_def Let_def split: prod.splits)
  then have "good_step c c2 out" using one_send_good [OF assms(1)] by blast
  then show ?thesis unfolding c' by (rule good_quiet) (auto intro: upd_wan_quiet)
qed

lemma probe_good:
  assumes "client_ok c" "keepalive_tick E c i now = (c', out)"
  shows "good_step c c' out"
proof -
  have q: "quiet c (book_probe c i now)"
    using assms(1) by (auto simp: book_probe_def Let_def intro: upd_wan_quiet)
  then have "client_ok (book_probe c i now)" by (simp add: quiet_def)
  then show ?thesis using quiet_then_good [OF q keepalive_good] assms(2) by (simp add: keepalive_tick_def)
qed

lemma enc_push_acct:
  assumes "client_ok c" "rs_bounded (ev_rs E)" "valid (length (t_encs c)) p" "\<not> is_parity f" "enc_push E c p f now = Some (c', fs)"
  shows "client_ok c' \<and> acct c {#fSeq f#} c' (dseqs fs) [] 0 \<and> parity_count fs \<le> 65536"
proof -
  obtain i e where p: "p = Some i" and e: "Encoder_Push (ev_rs E) (t_encs c ! i) f now = (e, fs)" and c': "c' = c\<lparr>t_encs := (t_encs c)[i := e]\<rparr>"
    using assms(5) by (auto simp: enc_push_def split: option.splits prod.splits)
  have i: "i < length (t_encs c)" using assms(3) p by (simp add: valid_def)
  then have "enc_small (t_encs c ! i)" using assms(1) by (simp add: client_ok_def list_all_length)
  note k = Encoder_Push_counts [OF e assms(2) this assms(4)]
  have "pend_of (t_encs c') + dseqs fs + dseqs (e_pending (t_encs c ! i)) = {#fSeq f#} + pend_of (t_encs c) + dseqs (e_pending (t_encs c ! i))"
    using pend_update [OF i, of e] k unfolding c' by (simp add: ac_simps)
  then have "pend_of (t_encs c') + dseqs fs = {#fSeq f#} + pend_of (t_encs c)" by (simp only: add_right_cancel)
  then show ?thesis using k client_ok_enc [OF assms(1), of e i] by (simp add: c' acct_def)
qed

lemma enc_tick_acct:
  assumes "client_ok c" "rs_bounded (ev_rs E)" "valid (length (t_encs c)) p" "enc_tick E c p now = Some (c', fs)"
  shows "client_ok c' \<and> acct c {#} c' (dseqs fs) [] 0 \<and> parity_count fs = 0"
proof -
  obtain i e where p: "p = Some i" and e: "Encoder_Tick (ev_rs E) (t_encs c ! i) now = (e, fs)" and c': "c' = c\<lparr>t_encs := (t_encs c)[i := e]\<rparr>"
    using assms(4) by (auto simp: enc_tick_def split: option.splits prod.splits)
  have i: "i < length (t_encs c)" using assms(3) p by (simp add: valid_def)
  then have "enc_small (t_encs c ! i)" using assms(1) by (simp add: client_ok_def list_all_length)
  note k = Encoder_Tick_counts [OF e assms(2) this]
  have "pend_of (t_encs c') + dseqs fs + dseqs (e_pending (t_encs c ! i)) = pend_of (t_encs c) + dseqs (e_pending (t_encs c ! i))"
    using pend_update [OF i, of e] k unfolding c' by (simp add: ac_simps)
  then have "pend_of (t_encs c') + dseqs fs = pend_of (t_encs c)" by (simp only: add_right_cancel)
  then show ?thesis using k client_ok_enc [OF assms(1), of e i] by (simp add: c' acct_def)
qed

lemma slot_valid: "client_ok c \<Longrightarrow> i < length (t_wans c) \<Longrightarrow> valid (length (t_encs c)) (w_enc (t_wans c ! i))"
  by (simp add: client_ok_def list_all_length)

lemma byWAN_valid: "client_ok c \<Longrightarrow> map_of (t_byWAN c) k = Some i \<Longrightarrow> i < length (t_wans c)"
  by (auto simp: client_ok_def list_all_iff dest!: map_of_SomeD)

lemma push_good:
  assumes "rs_bounded (ev_rs E)" "next_seq c = (c1, fSeq f)" "\<not> is_parity f"
    and "client_ok d" "t_sess d = t_sess c1" "t_encs d = t_encs c1" "valid (length (t_encs d)) p" "enc_push E d p f now = Some (d1, fs)"
    and "keeps d1 c' \<and> (\<exists>n\<le>parity_count fs. acct d1 (dseqs fs) c' {#} out n)"
  shows "good_step c c' out"
proof -
  note k = enc_push_acct [OF assms(4,1,7,3,8)]
  obtain m where m: "m \<le> 65536" "acct d1 (dseqs fs) c' {#} out m" using assms(9) k le_trans by blast
  have "acct c {#} d {#fSeq f#} [] 1" using next_seq_acct [OF assms(2)] assms(5,6) by (simp add: acct_def)
  then have "acct c {#} c' {#} ([] @ [] @ out) (1 + (0 + m))" using k m(2) acct_trans by blast
  then show ?thesis using m(1) k assms(9) keeps_ok by (auto simp: good_step_def intro!: exI [of _ "Suc m"])
qed

lemma lost_good:
  assumes "client_ok c" "next_seq c = (c1, s)" "keeps c1 d" "t_sess d = t_sess c1"
  shows "good_step c d []"
proof -
  have "acct c {#} c1 {#} [] 1" "keeps c c1" using acct_drop next_seq_acct [OF assms(2)] by blast+
  then show ?thesis using assms(1,3,4) keeps_ok [OF keeps_trans [OF \<open>keeps c c1\<close> assms(3)]]
    by (auto simp: good_step_def acct_def keeps_def intro!: exI [of _ 1])
qed

text \<open>The part of \<open>ingress\<close> behind its guards.\<close>

definition relay :: "env \<Rightarrow> TClient \<Rightarrow> frame \<Rightarrow> int \<Rightarrow> f64 \<Rightarrow> (TClient \<times> client_out list) option" where
  "relay E c f now draw =
     (if t_crossPath c then
        (case enc_push E c (t_xenc c) f now of
           None \<Rightarrow> None
         | Some (c, frames) \<Rightarrow> if frames \<noteq> [] then sendCrossEncoded E c frames else Some (c, []))
      else
        (case Pick (t_sched c) f draw of (sched, pick) \<Rightarrow>
           (case pick of
              None \<Rightarrow> Some (noteNoWAN (c\<lparr>t_sched := sched\<rparr>), [])
            | Some wanID \<Rightarrow>
                (case map_of (t_byWAN c) wanID of
                   None \<Rightarrow> None
                 | Some i \<Rightarrow>
                     map_option (\<lambda>(c, frames). sendEncoded E c i frames)
                       (enc_push E (c\<lparr>t_sched := sched\<rparr>) (w_enc (t_wans c ! i)) f now)))))"

lemma ingress_relay:
  assumes "next_seq (adopt_peer c a) = (c1, s)" "\<not> int (length payload) > t_mtu (adopt_peer c a)" "t_sessionReady (adopt_peer c a)"
  shows "ingress E c a payload now draw = relay E c1 (zero_frame\<lparr>fSessionID := c_ID (t_sess c1), fSeq := s, fPayload := payload\<rparr>) now draw"
  using assms by (simp add: ingress_def relay_def Let_def getSessionAEAD_def split: prod.split option.split)

lemma relay_good:
  assumes "client_ok c" "rs_bounded (ev_rs E)" "next_seq c = (c1, fSeq f)" "\<not> is_parity f" "relay E c1 f now draw = Some (c', out)"
  shows "good_step c c' out"
proof -
  have ok1: "client_ok c1" using next_seq_acct [OF assms(3)] assms(1) keeps_ok by blast
  show ?thesis
  proof (cases "t_crossPath c1")
    case True
    then obtain d1 fs where p: "enc_push E c1 (t_xenc c1) f now = Some (d1, fs)"
      and r: "(if fs \<noteq> [] then sendCrossEncoded E d1 fs else Some (d1, [])) = Some (c', out)"
      using assms(5) unfolding relay_def by (auto split: option.splits)
    have "keeps d1 c' \<and> (\<exists>n\<le>parity_count fs. acct d1 (dseqs fs) c' {#} out n)"
      using r sendCrossEncoded_acct acct_refl [of d1 "{#}"] by (cases "fs = []") auto
    then show ?thesis using push_good [OF assms(2-4) ok1 _ _ _ p] ok1 by (simp add: client_ok_def)
  next
    case False
    obtain sched pick where k: "Pick (t_sched c1) f draw = (sched, pick)" by fastforce
    let ?d = "c1\<lparr>t_sched := sched\<rparr>"
    have okd: "client_ok ?d" using ok1 by (simp add: client_ok_def)
    show ?thesis
    proof (cases pick)
      case None
      then have "c' = noteNoWAN ?d" "out = []" using assms(5) False k by (auto simp: relay_def)
      then show ?thesis using lost_good [OF assms(1,3), of c'] by (simp add: noteNoWAN_def keeps_def)
    next
      case (Some wid)
      then obtain i d1 fs where i: "map_of (t_byWAN c1) wid = Some i"
        and p: "enc_push E ?d (w_enc (t_wans c1 ! i)) f now = Some (d1, fs)" and r: "sendEncoded E d1 i fs = (c', out)"
        using assms(5) False k unfolding relay_def by (auto split: option.splits)
      show ?thesis using push_good [OF assms(2-4) okd _ _ _ p sendEncoded_acct [OF r]] slot_valid [OF ok1 byWAN_valid [OF ok1 i]] by simp
    qed
  qed
qed

lemma ingress_good:
  assumes "client_ok c" "rs_bounded (ev_rs E)" "ingress E c a payload now draw = Some (c', out)"
  shows "good_step c c' out"
proof -
  let ?c = "adopt_peer c a"
  have q: "quiet c ?c" using assms(1) by (auto simp: adopt_peer_def SetWGAddr_def quiet_def client_ok_def split: option.split)
  then have ok: "client_ok ?c" by (simp add: quiet_def)
  have n: "good_step ?c (noteOversize ?c) []" "good_step ?c (notePreSession ?c) []"
    using ok by (auto simp: noteOversize_def notePreSession_def quiet_def client_ok_def intro!: quiet_good)
  have "good_step ?c c' out"
  proof (cases "int (length payload) > t_mtu ?c \<or> \<not> t_sessionReady ?c")
    case True
    then show ?thesis using assms(3) n unfolding ingress_def Let_def getSessionAEAD_def by (auto split: if_splits)
  next
    case False
    obtain c1 s where s: "next_seq ?c = (c1, s)" by fastforce
    let ?f = "zero_frame\<lparr>fSessionID := c_ID (t_sess c1), fSeq := s, fPayload := payload\<rparr>"
    have "\<not> is_parity ?f" by (simp add: is_parity_def HasFlag_def zero_frame_def)
    then show ?thesis using relay_good [OF ok assms(2), of c1 ?f] s ingress_relay [OF s] False assms(3) by simp
  qed
  then show ?thesis by (rule quiet_then_good [OF q])
qed


text \<open>Ticks hand on what waits and draw nothing.\<close>

definition calm_step :: "TClient \<Rightarrow> TClient \<Rightarrow> client_out list \<Rightarrow> bool" where
  "calm_step c c' out \<longleftrightarrow> client_ok c' \<and> length (t_wans c') = length (t_wans c) \<and> acct c {#} c' {#} out 0"

lemma calm_trans: "calm_step c c1 o1 \<Longrightarrow> calm_step c1 c2 o2 \<Longrightarrow> calm_step c c2 (o1 @ o2)"
  using acct_trans [of c "{#}" c1 "{#}" o1 0 c2 "{#}" o2 0] by (simp add: calm_step_def)

lemma calm_good: "calm_step c c' out \<Longrightarrow> good_step c c' out"
  by (auto simp: calm_step_def good_step_def)

lemma keeps_length: "keeps c c' \<Longrightarrow> length (t_wans c') = length (t_wans c)"
  unfolding keeps_def by (metis length_map)

lemma tick_send_calm:
  assumes "client_ok c" "rs_bounded (ev_rs E)" "valid (length (t_encs c)) p" "enc_tick E c p now = Some (c1, fs)"
    and "keeps c1 c2 \<and> (\<exists>n\<le>parity_count fs. acct c1 (dseqs fs) c2 {#} out n)"
  shows "calm_step c c2 out"
proof -
  note k = enc_tick_acct [OF assms(1-4)]
  have "acct c1 (dseqs fs) c2 {#} out 0" using k assms(5) by auto
  then have "acct c {#} c2 {#} ([] @ out) (0 + 0)" using k acct_trans by blast
  moreover have "length (t_wans c1) = length (t_wans c)" using assms(4) by (auto simp: enc_tick_def split: option.splits prod.splits)
  ultimately show ?thesis using k assms(5) keeps_ok keeps_length by (fastforce simp: calm_step_def)
qed

lemma tick_deliver_calm:
  assumes "client_ok c" "dec_tick E c p now = Some (c1, fs)" "buffer_push E c1 fs now = (c2, out)"
  shows "calm_step c c2 out"
proof -
  have q: "quiet c c1" using dec_quiet(2) [OF assms(1,2)] .
  then have "quiet c c2" "wire out = {#}" using buffer_quiet(1) [OF _ assms(3)] quiet_trans by (auto simp: quiet_def)
  moreover have "length (t_wans c2) = length (t_wans c)"
    using assms(2,3) by (auto simp: dec_tick_def buffer_push_def Let_def split: option.splits prod.splits)
  ultimately show ?thesis using quiet_acct by (auto simp: calm_step_def)
qed

lemma fec_tick_wans_calm:
  "client_ok c \<Longrightarrow> rs_bounded (ev_rs E) \<Longrightarrow> list_all (\<lambda>i. i < length (t_wans c)) is \<Longrightarrow>
     fec_tick_wans E now is c = Some (c', out) \<Longrightarrow> calm_step c c' out"
proof (induction "is" arbitrary: c out)
  case Nil
  then show ?case by (simp add: calm_step_def acct_refl)
next
  case (Cons i "is")
  obtain c1 fs where 1: "enc_tick E c (w_enc (t_wans c ! i)) now = Some (c1, fs)" using Cons.prems(4) by (auto split: option.splits)
  obtain c2 o1 where 2: "sendEncoded E c1 i fs = (c2, o1)" by fastforce
  obtain c3 gs where 3: "dec_tick E c2 (w_dec (t_wans c2 ! i)) now = Some (c3, gs)"
    using Cons.prems(4) 1 2 by (auto split: option.splits)
  obtain c4 o2 where 4: "buffer_push E c3 gs now = (c4, o2)" by fastforce
  obtain o3 where 5: "fec_tick_wans E now is c4 = Some (c', o3)" "out = o1 @ o2 @ o3"
    using Cons.prems(4) 1 2 3 4 by auto
  have "calm_step c c2 o1"
    using tick_send_calm [OF Cons.prems(1,2) _ 1 sendEncoded_acct [OF 2]] slot_valid [OF Cons.prems(1)] Cons.prems(3) by simp
  moreover from this have "calm_step c2 c4 o2" using tick_deliver_calm [OF _ 3 4] by (simp add: calm_step_def)
  ultimately have c4: "calm_step c c4 (o1 @ o2)" by (rule calm_trans)
  then have "calm_step c4 c' o3" using Cons.IH [OF _ Cons.prems(2) _ 5(1)] Cons.prems(3) by (simp add: calm_step_def)
  then show ?case using calm_trans [OF c4] 5(2) by simp
qed

lemma fec_tick_cross_calm:
  assumes "client_ok c" "rs_bounded (ev_rs E)" "fec_tick_cross E c now = Some (c', out)"
  shows "calm_step c c' out"
proof -
  obtain c1 fs where 1: "enc_tick E c (t_xenc c) now = Some (c1, fs)" using assms(3) by (auto simp: fec_tick_cross_def split: option.splits)
  obtain c2 o1 where 2: "sendCrossEncoded E c1 fs = Some (c2, o1)" using assms(3) 1 by (auto simp: fec_tick_cross_def split: option.splits)
  obtain c3 gs where 3: "dec_tick E c2 (t_xdec c2) now = Some (c3, gs)" using assms(3) 1 2 by (auto simp: fec_tick_cross_def split: option.splits)
  obtain o2 where 4: "buffer_push E c3 gs now = (c', o2)" "out = o1 @ o2"
    using assms(3) 1 2 3 by (auto simp: fec_tick_cross_def Let_def split: prod.splits)
  have "calm_step c c2 o1" using tick_send_calm [OF assms(1,2) _ 1 sendCrossEncoded_acct [OF 2]] assms(1) by (simp add: client_ok_def)
  moreover from this have "calm_step c2 c' o2" using tick_deliver_calm [OF _ 3 4(1)] by (simp add: calm_step_def)
  ultimately show ?thesis unfolding 4(2) by (rule calm_trans)
qed

lemma fec_tick_good:
  assumes "client_ok c" "rs_bounded (ev_rs E)" "fec_tick E c now = Some (c', out)"
  shows "good_step c c' out"
proof -
  obtain c1 o1 o2 where 1: "(if t_crossPath c then fec_tick_cross E c now else fec_tick_wans E now [0..<length (t_wans c)] c) = Some (c1, o1)"
    and 2: "buffer_tick E c1 now = (c', o2)" and out: "out = o1 @ o2"
    using assms(3) unfolding fec_tick_def Let_def by (auto split: option.splits prod.splits)
  have c1: "calm_step c c1 o1"
    using 1 fec_tick_cross_calm [OF assms(1,2)] fec_tick_wans_calm [OF assms(1,2), of "[0..<length (t_wans c)]"] by (auto simp: list_all_iff split: if_splits)
  then have "quiet c1 c'" "wire o2 = {#}" using buffer_quiet(2) [OF _ 2] by (auto simp: calm_step_def)
  moreover have "length (t_wans c') = length (t_wans c1)" using 2 by (auto simp: buffer_tick_def Let_def split: prod.splits)
  ultimately have "calm_step c1 c' o2" using quiet_acct by (auto simp: calm_step_def)
  then show ?thesis unfolding out by (intro calm_good calm_trans [OF c1])
qed

lemma health_tick_wan_quiet:
  assumes "client_ok c" "rs_bounded (ev_rs E)" "i < length (t_wans c)" "health_tick_wan E now i c = Some c'"
  shows "quiet c c' \<and> length (t_wans c') = length (t_wans c)"
proof -
  obtain ie jd where s: "w_enc (t_wans c ! i) = Some ie" "w_dec (t_wans c ! i) = Some jd"
    using assms(4) by (auto simp: health_tick_wan_def Let_def split: option.splits)
  then have ie: "ie < length (t_encs c)" using slot_valid [OF assms(1,3)] by (simp add: valid_def)
  then have small: "enc_small (t_encs c ! ie)" using assms(1) by (simp add: client_ok_def list_all_length)
  obtain r m d where c': "c' = (upd_wan (c\<lparr>t_decs := (t_decs c)[jd := d], t_encs := (t_encs c)[ie := SetLossRate (ev_rs E) (t_encs c ! ie) r now]\<rparr>) i (\<lambda>w. w\<lparr>w_health := m\<rparr>))
      \<lparr>t_sched := OnState (t_sched c) (w_id (t_wans c ! i)) (mState m) (mLoss m)\<rparr>"
    using assms(4) s by (auto simp: health_tick_wan_def Let_def upd_wan_def split: prod.splits)
  let ?e = "SetLossRate (ev_rs E) (t_encs c ! ie) r now"
  let ?c1 = "c\<lparr>t_decs := (t_decs c)[jd := d], t_encs := (t_encs c)[ie := ?e]\<rparr>"
  have "client_ok (c\<lparr>t_encs := (t_encs c)[ie := ?e]\<rparr>)" using client_ok_enc [OF assms(1)] SetLossRate_small [OF assms(2) small] by blast
  then have "client_ok ?c1" by (simp add: client_ok_def)
  moreover have "pend_of ((t_encs c)[ie := ?e]) = pend_of (t_encs c)"
    using pend_update [OF ie, of ?e] SetLossRate_small [OF assms(2) small, of r now] by simp
  ultimately have q: "quiet c ?c1" by (simp add: quiet_def)
  then have "quiet c (upd_wan ?c1 i (\<lambda>w. w\<lparr>w_health := m\<rparr>))"
    by (intro quiet_trans [OF q] upd_wan_quiet) (simp_all add: quiet_def)
  then show ?thesis unfolding c' by (simp add: quiet_def client_ok_def upd_wan_def)
qed

lemma health_tick_loop_quiet:
  "client_ok c \<Longrightarrow> rs_bounded (ev_rs E) \<Longrightarrow> list_all (\<lambda>i. i < length (t_wans c)) is \<Longrightarrow>
     health_tick_loop E now is c = Some c' \<Longrightarrow> quiet c c'"
proof (induction "is" arbitrary: c)
  case Nil
  then show ?case by (simp add: quiet_refl)
next
  case (Cons i "is")
  then obtain d where d: "health_tick_wan E now i c = Some d" "health_tick_loop E now is d = Some c'"
    by (auto simp: bind_eq_Some_conv)
  have q: "quiet c d \<and> length (t_wans d) = length (t_wans c)" using health_tick_wan_quiet [OF Cons.prems(1,2) _ d(1)] Cons.prems(3) by simp
  then have "quiet d c'" using Cons.IH [OF _ Cons.prems(2) _ d(2)] Cons.prems(3) by (simp add: quiet_def)
  then show ?case using q quiet_trans by blast
qed

lemma reload_wans_quiet: "client_ok c \<Longrightarrow> quiet c (fst (reload_wans nc is c))"
proof (induction "is" arbitrary: c)
  case (Cons i "is")
  let ?c = "c\<lparr>t_sched := AddPath (t_sched c) (w_id (t_wans c ! i)) (f64_of_int (wn_CapacityMbps (cf_WANs nc ! i)))\<rparr>"
  have q: "quiet c ?c" using Cons.prems by (simp add: quiet_def client_ok_def)
  have "quiet c (fst (reload_wans nc is (upd_wan ?c i (\<lambda>w. w\<lparr>w_health := Monitor_Reload (w_health w) o1\<rparr>))))" for o1
  proof -
    let ?d = "upd_wan ?c i (\<lambda>w. w\<lparr>w_health := Monitor_Reload (w_health w) o1\<rparr>)"
    have d: "quiet c ?d" using q by (intro quiet_trans [OF q] upd_wan_quiet) (simp_all add: quiet_def)
    then show ?thesis using Cons.IH [of ?d] quiet_trans [OF d] by (simp add: quiet_def)
  qed
  then show ?case using Cons.IH [OF Cons.prems] q by (auto simp: Let_def split: sum.split)
qed (simp add: quiet_refl)

lemma Client_Reload_quiet: "client_ok c \<Longrightarrow> quiet c (fst (Client_Reload c nc))"
proof -
  assume ok: "client_ok c"
  obtain d e where d: "reload_wans nc [0..<length (t_wans c)] c = (d, e)" by fastforce
  have "quiet c d" using reload_wans_quiet [OF ok, of nc "[0..<length (t_wans c)]"] d by simp
  then show ?thesis using ok d by (auto simp: Client_Reload_def quiet_refl quiet_def client_ok_def split: option.split)
qed

lemma client_step_good:
  assumes "client_ok c" "rs_bounded (ev_rs E)" "client_step E c ev = Some (c', out)"
  shows "good_step c c' out"
proof (cases ev)
  case (Ingress a b now draw)
  then show ?thesis using assms ingress_good by simp
next
  case (Receive i b now)
  then show ?thesis using assms client_recv_quiet quiet_good by fastforce
next
  case (SendHandshake i)
  then show ?thesis using assms handshake_good [OF assms(1)] by simp
next
  case (SendProbe i now)
  then show ?thesis using assms keepalive_good [OF assms(1)] by simp
next
  case (ProbeTick i now)
  then show ?thesis using assms probe_good [OF assms(1)] by simp
next
  case (FecTick now)
  then show ?thesis using assms fec_tick_good by simp
next
  case (HealthTick now)
  then show ?thesis using assms health_tick_loop_quiet [OF assms(1,2), of "[0..<length (t_wans c)]"]
    by (auto simp: health_tick_def list_all_iff intro: quiet_good)
next
  case (ReloadConfig nc)
  then show ?thesis using assms Client_Reload_quiet [OF assms(1)] by (auto intro: quiet_good)
qed


section \<open>No nonce twice\<close>

lemma client_run_acct:
  "client_ok c \<Longrightarrow> rs_bounded (ev_rs E) \<Longrightarrow> client_run E c evs = Some (c', out) \<Longrightarrow>
     client_ok c' \<and> acct c {#} c' {#} out (drawn E c evs)"
proof (induction evs arbitrary: c out)
  case Nil
  then show ?case by (simp add: acct_refl)
next
  case (Cons ev evs)
  obtain d o1 o2 where 1: "client_step E c ev = Some (d, o1)" and 2: "client_run E d evs = Some (c', o2)" and out: "out = o1 @ o2"
    using Cons.prems(3) by (auto split: option.splits)
  obtain n where n: "n \<le> 65537" "acct c {#} d {#} o1 n" and d: "client_ok d"
    using client_step_good [OF Cons.prems(1,2) 1] by (auto simp: good_step_def)
  have "c_seq (t_sess d) - c_seq (t_sess c) = (of_nat n :: u32)" using n(2) by (simp add: acct_def)
  then have "unat (c_seq (t_sess d) - c_seq (t_sess c)) = n" using n(1) by (simp add: unat_of_nat)
  then have "drawn E c (ev # evs) = n + drawn E d evs" using 1 by simp
  then show ?case using Cons.IH [OF d Cons.prems(2) 2] acct_trans [OF n(2)] unfolding out by metis
qed

lemma numbers_distinct: "N \<le> 2 ^ 32 \<Longrightarrow> distinct (map (\<lambda>k. s + of_nat k + 1 :: u32) [0..<N])"
proof -
  assume N: "N \<le> 2 ^ 32"
  have "inj_on (\<lambda>k. s + of_nat k + 1 :: u32) {0..<N}"
  proof (rule inj_onI)
    fix a b assume ab: "a \<in> {0..<N}" "b \<in> {0..<N}" and "s + of_nat a + 1 = (s + of_nat b + 1 :: u32)"
    then have "unat (of_nat a :: u32) = unat (of_nat b :: u32)" by simp
    then have "a mod 2 ^ 32 = b mod 2 ^ 32" by (simp add: unat_of_nat)
    then show "a = b" using ab N by simp
  qed
  then show ?thesis by (simp add: distinct_map)
qed

lemma distinct_sub: "mset xs \<subseteq># mset ys \<Longrightarrow> distinct ys \<Longrightarrow> distinct xs"
proof -
  assume "mset xs \<subseteq># mset ys" and d: "distinct ys"
  then obtain zs where "mset ys = mset (xs @ zs)" by (metis ex_mset mset_append subset_mset.le_iff_add)
  then have "distinct (xs @ zs)" using d mset_eq_imp_distinct_iff by blast
  then show ?thesis by simp
qed

text \<open>A client as \<open>NewClient\<close> builds it.\<close>

definition client_fresh :: "TClient \<Rightarrow> bool" where
  "client_fresh c \<longleftrightarrow> client_ok c \<and> c_seq (t_sess c) = 0 \<and> pend_of (t_encs c) = {#}"

lemma init_cross_quiet:
  assumes "client_ok c" "rs_bounded (ev_rs E)" "init_cross E cfg c = Inr c'"
  shows "quiet c c'"
proof -
  have "quiet c (c1\<lparr>t_crossPath := True, t_xenc := Some i, t_xdec := Some j\<rparr>)"
    if "NewEncoder (ev_rs E) p = Inr enc" "new_codecs c enc dec = (c1, i, j)" for p enc dec c1 i j
    using new_codecs_ok [OF assms(1,2) that] by (simp add: quiet_def client_ok_def valid_def)
  then show ?thesis using assms(1,3) by (auto simp: init_cross_def quiet_refl split: if_splits sum.splits prod.splits)
qed

lemma wan_codecs_quiet:
  assumes "client_ok c" "rs_bounded (ev_rs E)" "wan_codecs E p c = Inr (c', ie, jd)"
  shows "quiet c c' \<and> valid (length (t_encs c')) ie"
proof (cases "t_crossPath c")
  case True
  then show ?thesis using assms by (auto simp: wan_codecs_def quiet_refl client_ok_def)
next
  case False
  then obtain enc i j where e: "NewEncoder (ev_rs E) p = Inr enc" and n: "new_codecs c enc (NewDecoder p) = (c', i, j)" and "ie = Some i"
    using assms(3) by (cases "NewEncoder (ev_rs E) p") (auto simp: wan_codecs_def Let_def split: prod.splits)
  then show ?thesis using new_codecs_ok [OF assms(1,2) e n] by (simp add: quiet_def valid_def)
qed

lemma add_wan_quiet:
  assumes "client_ok c" "rs_bounded (ev_rs E)" "add_wan E cfg now w c = Inr c'"
  shows "quiet c c'"
proof -
  obtain p d ie jd tr where d: "wan_codecs E p c = Inr (d, ie, jd)" and "newTransport w (cf_Server cfg) = Inr tr"
    and p: "fecParamsFor (cf_FEC cfg) (cf_MTU cfg) (Some w) = Inr p"
    using assms(3) by (auto simp: add_wan_def Let_def split: sum.splits)
  then have "\<exists>wl sched. w_enc wl = ie \<and> c' = d\<lparr>t_wans := t_wans d @ [wl], t_byWAN := AList.update (wn_ID w) (length (t_wans d)) (t_byWAN d), t_sched := sched\<rparr>"
    using assms(3) by (intro exI [of _ "last (t_wans c')"] exI [of _ "t_sched c'"]) (auto simp: add_wan_def Let_def)
  then obtain wl sched where c': "w_enc wl = ie" "c' = d\<lparr>t_wans := t_wans d @ [wl], t_byWAN := AList.update (wn_ID w) (length (t_wans d)) (t_byWAN d), t_sched := sched\<rparr>"
    by blast
  note q = wan_codecs_quiet [OF assms(1,2) d]
  have "set (AList.update k v xs) \<subseteq> insert (k, v) (set xs)" for k v and xs :: "(string \<times> nat) list"
    by (induction xs) auto
  then have "list_all (\<lambda>(k, i). i < Suc (length (t_wans d))) (AList.update (wn_ID w) (length (t_wans d)) (t_byWAN d))"
    using q by (fastforce simp: quiet_def client_ok_def list_all_iff)
  then show ?thesis using q c' by (auto simp: quiet_def client_ok_def)
qed

lemma add_wans_quiet: "client_ok c \<Longrightarrow> rs_bounded (ev_rs E) \<Longrightarrow> add_wans E cfg now ws c = Inr c' \<Longrightarrow> quiet c c'"
proof (induction ws arbitrary: c)
  case (Cons w ws)
  then obtain d where d: "add_wan E cfg now w c = Inr d" "add_wans E cfg now ws d = Inr c'" by (auto split: sum.splits)
  have q: "quiet c d" using add_wan_quiet [OF Cons.prems(1,2) d(1)] .
  then show ?case using Cons.IH [OF _ Cons.prems(2) d(2)] quiet_trans [OF q] by (simp add: quiet_def)
qed (simp add: quiet_refl)

lemma NewTunnelClient_fresh:
  assumes "rs_bounded (ev_rs E)" "NewTunnelClient E cfg idRandom keyRandom now = Some (Inr c)"
  shows "client_fresh c"
proof -
  obtain cfg' a sid priv pub d where d: "init_cross E cfg' (client_base cfg' a sid priv pub now) = Inr d" "add_wans E cfg' now (cf_WANs cfg') d = Inr c"
    using assms(2) unfolding NewTunnelClient_def Let_def
    by (auto split: sum.splits if_splits option.splits)
  let ?b = "client_base cfg' a sid priv pub now"
  have b: "client_ok ?b" "c_seq (t_sess ?b) = 0" "pend_of (t_encs ?b) = {#}"
    by (simp_all add: client_base_def Let_def client_ok_def valid_def NewClientWithID_def pend_of_def)
  have q: "quiet ?b d" using init_cross_quiet [OF b(1) assms(1) d(1)] .
  then have "quiet d c" using add_wans_quiet [OF _ assms(1) d(2)] by (simp add: quiet_def)
  then have "quiet ?b c" using q quiet_trans by blast
  then show ?thesis using b by (simp add: client_fresh_def quiet_def)
qed

lemma run_seqs_distinct:
  assumes "rs_bounded (ev_rs E)" "client_fresh c" "client_run E c evs = Some (c', out)" "drawn E c evs \<le> 2 ^ 32"
  shows "distinct (map frameSeq (sealed_frames out))"
proof -
  have "acct c {#} c' {#} out (drawn E c evs)" using client_run_acct [OF _ assms(1,3)] assms(2) by (simp add: client_fresh_def)
  then have "wire out + pend_of (t_encs c') \<subseteq># numbers 0 (drawn E c evs)" using assms(2) by (simp add: acct_def client_fresh_def)
  then have "wire out \<subseteq># numbers 0 (drawn E c evs)" using mset_subset_eq_add_left subset_mset.trans by blast
  then show ?thesis using distinct_sub numbers_distinct [OF assms(4), of 0] unfolding wire_def numbers_def by blast
qed


text \<open>
  C3: No nonce is used twice. Whatever a client does from its construction on, datagrams,
  handshakes, probes, ticks, received frames and reloads in any order, the frames it seals,
  those of the handshake under the base key and those of the session included, carry pairwise
  different nonces, as long as its session counter has given out no more than \<open>2 ^ 32\<close> numbers.
\<close>

theorem client_nonces_unique:
  assumes "rs_bounded (ev_rs E)" "NewTunnelClient E cfg idRandom keyRandom t = Some (Inr c)"
    and "client_run E c evs = Some (c', out)" "drawn E c evs \<le> 2 ^ 32"
  shows "distinct (map (\<lambda>b. makeNonce DirClientToServer (frameSeq b)) (sealed_frames out))"
proof -
  have "distinct (map frameSeq (sealed_frames out))"
    using run_seqs_distinct [OF assms(1) NewTunnelClient_fresh [OF assms(1,2)] assms(3,4)] .
  moreover have "inj_on (makeNonce DirClientToServer) (set (map frameSeq (sealed_frames out)))"
    by (rule inj_onI) (simp add: makeNonce_eq)
  ultimately have "distinct (map (makeNonce DirClientToServer) (map frameSeq (sealed_frames out)))"
    by (subst distinct_map) (rule conjI)
  then show ?thesis by (simp add: comp_def)
qed

text \<open>A client without redundancy and the primitives of \<open>Crypto\<close>; nothing outside fails.\<close>

definition demo_env :: env where
  "demo_env = \<lparr>ev_rs = \<lambda>_ _. None, ev_hmac = plain_hmac, ev_chacha = \<lambda>_. Some plain_aead, ev_gcm = \<lambda>_. Some plain_aead,
     ev_x = plain_x25519, ev_rng = id, ev_blocks = id, ev_send = \<lambda>_ _. True, ev_unmarshal = \<lambda>_. None, ev_resolve = \<lambda>_. True\<rparr>"

definition plain_doc :: Config where
  "plain_doc = minimal_doc\<lparr>cf_FEC := minimal_fec\<lparr>fc_Enabled := False\<rparr>\<rparr>"

lemma plain_doc_valid: "Validate (\<lambda>_. True) plain_doc = Inr (default_doc\<lparr>cf_FEC := minimal_fec\<lparr>fc_Enabled := False\<rparr>\<rparr>)"
  by (simp add: Validate_def val_mode_def val_sched_def val_delivery_def val_mtu_def val_transport_def val_health_def val_crypto_def val_log_def
      val_telemetry_def val_queue_def minimal_doc_def default_doc_def or_default_def ensure_def config_consts DeliveryMaxPending_def
      SplitHostPort_def last_index_def itoa_1 [simplified] plain_doc_def val_fec_def minimal_fec_def)

lemma demo_client_exists:
  "\<exists>c. NewTunnelClient demo_env plain_doc (Some (make_bytes 8)) (Some (make_bytes 32)) 0 = Some (Inr c)"
proof -
  have k: "\<exists>key. derive plain_hmac psk salt info = Some key \<and> length key = keySize" for psk salt info
    using plain_hmac_ok derive_one_block [OF plain_hmac_ok] by (simp add: keySize_def hmac_ok_def)
  obtain key where key: "DeriveKey plain_hmac (str_bytes ''secret'') = Inr (Some key)" "length key = keySize"
    using k [of "str_bytes ''secret''"] by (auto simp: DeriveKey_def str_bytes_def)
  show ?thesis
    using key
    by (simp add: NewTunnelClient_def demo_env_def plain_doc_valid default_doc_def maxWANs_def default_transports_def config_consts NewAEAD_def
        NewID_def GenerateEphemeralKey_def init_cross_def minimal_fec_def fecParamsFor_def add_wan_def wan_codecs_def client_base_def
        NewEncoder_def new_codecs_def newTransport_def no_params_def Enabled_def fill_params_def Let_def)
qed

lemma handshake_seals: "length (sealed_frames (snd (handshake_send E c i))) = 1"
proof -
  obtain c1 q where n: "next_seq c = (c1, q)" by fastforce
  let ?p = "copy_at 4 (t_clientPub c) (copy_at 0 (put_u32 (of_int (wn_CapacityMbps (w_cfg (t_wans c ! i))))) (make_bytes (4 + PublicKeySize)))"
  let ?f = "zero_frame\<lparr>fFlags := FlagFirst, fSessionID := c_ID (t_sess c1), fSeq := q, fPayload := ?p\<rparr>"
  have "Encode g = Inr (header_bytes g @ fPayload g)" if "fPayload g = ?p" for g
    using that by (intro Encode_ok) (simp add: PublicKeySize_def MaxPayload_def)
  then show ?thesis using n
    by (simp add: handshake_send_def Client_send_def sendLocked_def Let_def Seal_def sealed_frames_def case_prod_beta split: option.split)
qed


lemma handshake_draws: "c_seq (t_sess (fst (handshake_send E c i))) = c_seq (t_sess c) + 1"
proof -
  obtain c1 q where n: "next_seq c = (c1, q)" by fastforce
  have "t_sess (fst (sendLocked E c1 i f a)) = t_sess c1" for f a using sendLocked_acct [of E c1 i f a] by (cases "sendLocked E c1 i f a") auto
  then show ?thesis using n
    by (auto simp: handshake_send_def Client_send_def Let_def case_prod_beta next_seq_def Client_NextSeq_def)
qed

theorem client_nonces_unique_witness:
  "\<exists>c c' out. NewTunnelClient demo_env plain_doc (Some (make_bytes 8)) (Some (make_bytes 32)) 0 = Some (Inr c) \<and>
     client_run demo_env c [SendHandshake 0, SendHandshake 0] = Some (c', out) \<and> length (sealed_frames out) = 2 \<and>
     distinct (map (\<lambda>b. makeNonce DirClientToServer (frameSeq b)) (sealed_frames out))"
proof -
  let ?evs = "[SendHandshake 0, SendHandshake 0]"
  obtain c where c: "NewTunnelClient demo_env plain_doc (Some (make_bytes 8)) (Some (make_bytes 32)) 0 = Some (Inr c)"
    using demo_client_exists by blast
  obtain c1 o1 where 1: "handshake_send demo_env c 0 = (c1, o1)" by fastforce
  obtain c2 o2 where 2: "handshake_send demo_env c1 0 = (c2, o2)" by fastforce
  have run: "client_run demo_env c ?evs = Some (c2, o1 @ o2)" using 1 2 by simp
  have "length (sealed_frames (o1 @ o2)) = 2"
    using handshake_seals [of demo_env c 0] handshake_seals [of demo_env c1 0] 1 2 by (simp add: sealed_frames_def)
  moreover have "drawn demo_env c ?evs \<le> 2 ^ 32"
    using handshake_draws [of demo_env c 0] handshake_draws [of demo_env c1 0] 1 2 by simp
  moreover have "rs_bounded (ev_rs demo_env)" by (simp add: rs_bounded_def demo_env_def)
  ultimately show ?thesis using client_nonces_unique [OF _ c run] c run by blast
qed

end
