(* ===== verification/Tunnel_Server.thy ===== *)
theory Tunnel_Server
  imports Tunnel_Client
begin

unbundle bit_operations_syntax

text \<open>
  The tunnel server of \<open>internal/tunnel/server.go\<close> with its part of \<open>reload.go\<close> and
  \<open>stats.go\<close>: the session table, one scheduler and a set of paths per session, one decoder for
  all sessions. As in \<open>Tunnel_Client\<close>, a definition per handler of one event; the clock, the
  random bytes, the draw of the scheduler and the result of a dial are arguments. Egress sockets
  are numbers.
\<close>

section \<open>Environment and state\<close>

record senv = env +
  sv_first :: "(u64 \<times> firstWindow) list \<Rightarrow> (u64 \<times> firstWindow) list"
  sv_ids :: "u64 list \<Rightarrow> u64 list"
  sv_keys :: "string list \<Rightarrow> string list"
  sv_sendTo :: "udp_addr \<Rightarrow> bytes \<Rightarrow> bool"
  sv_marshal :: "ServerAnnounce \<Rightarrow> bytes option"

definition maxSessions :: nat where "maxSessions = 1024"
definition maxPathsPerSession :: nat where "maxPathsPerSession = 16"
definition sessionTTL :: int where "sessionTTL = 5 * Minute"

record pathState =
  ph_addr :: udp_addr
  ph_capacity :: f64
  ph_health :: Monitor
  ph_lastArrive :: int
  ph_lastKeepalive :: int
  ph_pathSeq :: u32

record sessState =
  st_sched :: Scheduler
  st_paths :: "(string \<times> pathState) list"
  st_lastSeen :: "udp_addr option"

record Server =
  v_cfg :: Config
  v_psk :: bytes
  v_baseAEAD :: aead
  v_mgr :: Manager
  v_wanTr :: transport
  v_fecParams :: Params
  v_fecDec :: Decoder
  v_ann :: bytes
  v_sendErrs :: nat
  v_start :: int
  v_states :: "(u64 \<times> sessState) list"

datatype server_out = ToClient udp_addr bytes | ToPeer nat bytes | CloseSocket nat

section \<open>Construction\<close>

datatype server_error =
    ServerConfig cfg_error | ServerNeedsPeer | ServerKey crypto_error | ServerCipher crypto_error | ServerParams param_error | AnnounceFailed

definition server_transport :: "Config \<Rightarrow> transport" where
  "server_transport cfg =
     (let b = \<lparr>bd_Iface = [], bd_LocalIP = [], bd_FIB = 0\<rparr>
      in if cf_Transport cfg = TransportFakeTCP then TFakeTCP (NewFakeTCP ''wan'' (cf_Listen cfg) [] b)
         else if cf_Transport cfg = TransportICMP then TICMP (NewICMP ''wan'' (cf_Listen cfg) [] b)
         else TUDP (NewUDP ''wan'' (cf_Listen cfg) [] b))"

definition NewServer :: "senv \<Rightarrow> Config \<Rightarrow> int \<Rightarrow> (server_error + Server) option" where
  "NewServer E cfg now =
     (case Validate (ev_resolve E) cfg of
        Inl e \<Rightarrow> Some (Inl (ServerConfig e))
      | Inr cfg \<Rightarrow>
          (if cf_WGPeer cfg = [] then Some (Inl ServerNeedsPeer)
           else
             (case DeriveKey (ev_hmac E) (str_bytes (cc_Key (cf_Crypto cfg))) of
                Inl e \<Rightarrow> Some (Inl (ServerKey e))
              | Inr None \<Rightarrow> None
              | Inr (Some baseKey) \<Rightarrow>
                  Some (case NewAEAD (ev_chacha E) (ev_gcm E) baseKey (cc_Cipher (cf_Crypto cfg)) of
                     Inl e \<Rightarrow> Inl (ServerCipher e)
                   | Inr a \<Rightarrow>
                       (case fecParamsFor (cf_FEC cfg) (cf_MTU cfg) None of
                          Inl e \<Rightarrow> Inl (ServerParams e)
                        | Inr params \<Rightarrow>
                            (case sv_marshal E \<lparr>an_Version = AnnounceVersion, an_MTU = cf_MTU cfg, an_FEC = cf_FEC cfg\<rparr> of
                               None \<Rightarrow> Inl AnnounceFailed
                             | Some ann \<Rightarrow>
                                 Inr \<lparr>v_cfg = cfg, v_psk = str_bytes (cc_Key (cf_Crypto cfg)), v_baseAEAD = a, v_mgr = NewManager,
                                      v_wanTr = server_transport cfg, v_fecParams = params, v_fecDec = NewDecoder params, v_ann = ann,
                                      v_sendErrs = 0, v_start = now, v_states = []\<rparr>))))))"

section \<open>Scheduling state\<close>

definition new_state :: "Server \<Rightarrow> sessState" where
  "new_state s =
     \<lparr>st_sched = New_Scheduler \<lparr>so_Mode = sc_Mode (cf_Scheduler (v_cfg s)), so_Affinity = AffPacket, so_BalanceBy = sc_BalanceBy (cf_Scheduler (v_cfg s))\<rparr>,
      st_paths = [], st_lastSeen = None\<rparr>"

definition put_state :: "Server \<Rightarrow> u64 \<Rightarrow> sessState \<Rightarrow> Server" where
  "put_state s sid st = s\<lparr>v_states := AList.update sid st (v_states s)\<rparr>"

definition stateFor :: "Server \<Rightarrow> u64 \<Rightarrow> Server \<times> sessState" where
  "stateFor s sid =
     (case map_of (v_states s) sid of
        Some st \<Rightarrow> (s, st)
      | None \<Rightarrow> (put_state s sid (new_state s), new_state s))"

definition effectiveCapacityFor :: "Server \<Rightarrow> f64 \<Rightarrow> f64" where
  "effectiveCapacityFor s capMbps = effectiveCapacity (f64_trunc capMbps) (Fin 0) (v_fecParams s) (sc_BalanceBy (cf_Scheduler (v_cfg s)))"

definition upd_sess :: "Server \<Rightarrow> u64 \<Rightarrow> (ServerSession \<Rightarrow> ServerSession) \<Rightarrow> Server" where
  "upd_sess s sid f = s\<lparr>v_mgr := upd_session (v_mgr s) sid f\<rparr>"

text \<open>
  \<open>registerPath\<close>; an empty payload stands for nil, both leave the capacity alone. First the
  part that books a declared capacity.
\<close>

definition declare_capacity :: "Server \<Rightarrow> string \<Rightarrow> bytes \<Rightarrow> sessState \<times> pathState \<Rightarrow> sessState \<times> pathState" where
  "declare_capacity s pathKey payload sp =
     (case sp of (st, ps) \<Rightarrow>
      if length payload \<ge> 4 then
        (let capMbps = f64_of_int (uint (get_u32 payload 0));
             cap = sc_CapacityCapMbps (cf_Scheduler (v_cfg s));
             capMbps = (if flt (Fin 0) cap \<and> flt cap capMbps then cap else capMbps)
         in if \<not> feq capMbps (ph_capacity ps)
            then (st\<lparr>st_sched := AddPath (st_sched st) pathKey (effectiveCapacityFor s capMbps)\<rparr>, ps\<lparr>ph_capacity := capMbps\<rparr>)
            else (st, ps))
      else (st, ps))"

definition registerPath :: "Server \<Rightarrow> u64 \<Rightarrow> udp_addr \<Rightarrow> bytes \<Rightarrow> int \<Rightarrow> Server" where
  "registerPath s sid ua payload now =
     (let pathKey = UDPAddr_String ua;
          (s, st) = stateFor s sid;
          st = st\<lparr>st_lastSeen := Some ua\<rparr>
      in if map_of (st_paths st) pathKey = None \<and> length (st_paths st) \<ge> maxPathsPerSession then put_state s sid st
         else
           (let (st, ps) =
                  (case map_of (st_paths st) pathKey of
                     Some ps \<Rightarrow> (st, ps)
                   | None \<Rightarrow>
                       (st\<lparr>st_sched := AddPath (st_sched st) pathKey (Fin 1)\<rparr>,
                        \<lparr>ph_addr = ua, ph_capacity = Fin 1,
                         ph_health = New_Monitor (healthOptions (cf_Health (v_cfg s)) (monitorMaxLoss (v_fecParams s))),
                         ph_lastArrive = now, ph_lastKeepalive = 0, ph_pathSeq = 0\<rparr>));
                ps = ps\<lparr>ph_lastArrive := now\<rparr>;
                (st, ps) = declare_capacity s pathKey payload (st, ps);
                st = st\<lparr>st_paths := AList.update pathKey ps (st_paths st)\<rparr>
            in upd_sess (put_state s sid st) sid (\<lambda>sess. SetEndpoint sess pathKey ua)))"

section \<open>Sending to clients\<close>

definition server_noteSendErr :: "Server \<Rightarrow> Server" where "server_noteSendErr s = s\<lparr>v_sendErrs := v_sendErrs s + 1\<rparr>"

definition next_server_seq :: "Server \<Rightarrow> u64 \<Rightarrow> Server \<times> u32" where
  "next_server_seq s sid =
     (case Get (v_mgr s) sid of
        None \<Rightarrow> (s, 0)
      | Some sess \<Rightarrow> (let (sess, q) = Server_NextSeq sess in (upd_sess s sid (\<lambda>_. sess), q)))"

definition transmit :: "senv \<Rightarrow> Server \<Rightarrow> udp_addr \<Rightarrow> bytes \<Rightarrow> Server \<times> server_out list" where
  "transmit E s addr sealed = (if sv_sendTo E addr sealed then s else server_noteSendErr s, [ToClient addr sealed])"

definition sendToAddrKey :: "senv \<Rightarrow> Server \<Rightarrow> udp_addr \<Rightarrow> frame \<Rightarrow> aead \<Rightarrow> Server \<times> server_out list" where
  "sendToAddrKey E s addr f a =
     (case Encode f of
        Inl e \<Rightarrow> (s, [])
      | Inr plain \<Rightarrow> (case Seal a DirServerToClient plain of Inl e \<Rightarrow> (s, []) | Inr sealed \<Rightarrow> transmit E s addr sealed))"

definition sendToAddr :: "senv \<Rightarrow> Server \<Rightarrow> aead \<Rightarrow> udp_addr \<Rightarrow> frame \<Rightarrow> Server \<times> server_out list" where
  "sendToAddr E s sessAEAD addr f =
     (case Encode f of
        Inl e \<Rightarrow> (s, [])
      | Inr plain \<Rightarrow> (case Seal sessAEAD DirServerToClient plain of Inl e \<Rightarrow> (s, []) | Inr sealed \<Rightarrow> transmit E s addr sealed))"

definition sendPong :: "senv \<Rightarrow> Server \<Rightarrow> u64 \<Rightarrow> udp_addr \<Rightarrow> bytes \<Rightarrow> Server \<times> server_out list" where
  "sendPong E s sid ua ts =
     (case Get (v_mgr s) sid of
        None \<Rightarrow> (s, [])
      | Some sess \<Rightarrow>
          (let (s, q) = next_server_seq s sid
           in sendToAddr E s (s_aead sess) ua (zero_frame\<lparr>fFlags := FlagPong, fSessionID := sid, fSeq := q, fPayload := ts\<rparr>)))"

definition sendAck :: "senv \<Rightarrow> Server \<Rightarrow> u64 \<Rightarrow> udp_addr \<Rightarrow> Server \<times> server_out list" where
  "sendAck E s sid ua =
     (case Get (v_mgr s) sid of
        None \<Rightarrow> (s, [])
      | Some sess \<Rightarrow>
          (let payload = s_ServerPub sess @ v_ann s;
               (s, q) = next_server_seq s sid
           in sendToAddrKey E s ua (zero_frame\<lparr>fFlags := FlagControl OR FlagKex, fSessionID := sid, fSeq := q, fPayload := payload\<rparr>) (v_baseAEAD s)))"

definition pickPath :: "Server \<Rightarrow> u64 \<Rightarrow> f64 \<Rightarrow> Server \<times> udp_addr option" where
  "pickPath s sid draw =
     (let (s, st) = stateFor s sid;
          (sched, pick) = Pick (st_sched st) zero_frame draw;
          s = put_state s sid (st\<lparr>st_sched := sched\<rparr>)
      in (s, case Option.bind pick (map_of (st_paths st)) of Some ps \<Rightarrow> Some (ph_addr ps) | None \<Rightarrow> st_lastSeen st))"

definition pickCrossPath :: "Server \<Rightarrow> u64 \<Rightarrow> Server \<times> udp_addr option" where
  "pickCrossPath s sid =
     (let (s, st) = stateFor s sid;
          (sched, pick) = PickWRR (st_sched st);
          s = put_state s sid (st\<lparr>st_sched := sched\<rparr>)
      in (s, map_option ph_addr (Option.bind pick (map_of (st_paths st)))))"

definition pathForAddr :: "Server \<Rightarrow> u64 \<Rightarrow> udp_addr \<Rightarrow> pathState option" where
  "pathForAddr s sid ua = map_of (st_paths (snd (stateFor s sid))) (UDPAddr_String ua)"

definition stamp_path :: "Server \<Rightarrow> u64 \<Rightarrow> udp_addr \<Rightarrow> frame \<Rightarrow> Server \<times> frame" where
  "stamp_path s sid addr f =
     (if HasFlag f FlagPassSeq then
        (case pathForAddr s sid addr of
           None \<Rightarrow> (fst (stateFor s sid), f)
         | Some ps \<Rightarrow>
             (let (s, st) = stateFor s sid
              in (put_state s sid (st\<lparr>st_paths := AList.update (UDPAddr_String addr) (ps\<lparr>ph_pathSeq := ph_pathSeq ps + 1\<rparr>) (st_paths st)\<rparr>),
                  f\<lparr>fBlockSeq := ph_pathSeq ps\<rparr>)))
      else (s, f))"

definition send_one :: "senv \<Rightarrow> Server \<Rightarrow> u64 \<Rightarrow> aead \<Rightarrow> udp_addr option \<Rightarrow> frame \<Rightarrow> Server \<times> server_out list" where
  "send_one E s sid a oneAddr f =
     (let (s, f) = (if HasFlag f FlagFECParity then (let (s, q) = next_server_seq s sid in (s, f\<lparr>fSeq := q\<rparr>)) else (s, f));
          (s, addr) = (if CrossPath (v_fecParams s) then pickCrossPath s sid else (s, oneAddr))
      in case addr of
           None \<Rightarrow> (s, [])
         | Some addr \<Rightarrow> (let (s, f) = stamp_path s sid addr f in sendToAddr E s a addr f))"

fun send_block :: "senv \<Rightarrow> Server \<Rightarrow> u64 \<Rightarrow> aead \<Rightarrow> udp_addr option \<Rightarrow> frame list \<Rightarrow> Server \<times> server_out list" where
  "send_block E s sid a oneAddr [] = (s, [])"
| "send_block E s sid a oneAddr (f # fs) =
     (let (s, out) = send_one E s sid a oneAddr f; (s, rest) = send_block E s sid a oneAddr fs in (s, out @ rest))"

definition sendToSession :: "senv \<Rightarrow> Server \<Rightarrow> u64 \<Rightarrow> aead \<Rightarrow> frame list \<Rightarrow> f64 \<Rightarrow> Server \<times> server_out list" where
  "sendToSession E s sid a frames draw =
     (if frames = [] then (s, [])
      else if CrossPath (v_fecParams s) then send_block E s sid a None frames
      else
        (case pickPath s sid draw of
           (s, None) \<Rightarrow> (s, [])
         | (s, Some oneAddr) \<Rightarrow> send_block E s sid a (Some oneAddr) frames))"


section \<open>Frames from clients\<close>

definition server_interval :: "Server \<Rightarrow> int" where
  "server_interval s =
     (let interval = f64_trunc (hc_ProbeInterval (cf_Health (v_cfg s))) * Second in if interval \<le> 0 then defaultProbeInterval else interval)"

text \<open>\<open>time.Unix(0, n)\<close> is never the zero time, so the branch for a first keepalive is not taken.\<close>

definition unix_is_zero :: "int \<Rightarrow> bool" where
  "unix_is_zero n \<longleftrightarrow> n = - 62135596800 * Second"

definition book_misses :: "int \<Rightarrow> int \<Rightarrow> Monitor \<Rightarrow> Monitor" where
  "book_misses missed now m = ((\<lambda>m. NoteMissedProbe m now) ^^ nat missed) m"

definition keepalive_sample :: "int \<Rightarrow> int \<Rightarrow> pathState \<Rightarrow> pathState" where
  "keepalive_sample interval now ps =
     (let m = NoteAlive (ph_health ps); lastKA = ph_lastKeepalive ps in
      if unix_is_zero lastKA then ps\<lparr>ph_lastKeepalive := now, ph_health := ObserveSample m (Fin 0) 0\<rparr>
      else
        (let gap = sat64 (now - lastKA);
             m = (if gap > 2 * interval \<and> sat64 (now - ph_lastArrive ps) > 2 * interval
                  then (let missed = gap sdiv interval - 1;
                            missed = (if missed > 8 then 8 else missed)
                        in ObserveSample (book_misses missed now m) (Fin 1) 0)
                  else ObserveSample m (Fin 0) 0)
         in ps\<lparr>ph_lastKeepalive := now, ph_health := m\<rparr>))"

definition observeKeepalive :: "Server \<Rightarrow> u64 \<Rightarrow> string \<Rightarrow> int \<Rightarrow> Server" where
  "observeKeepalive s sid pathKey now =
     (let (s, st) = stateFor s sid in
      case map_of (st_paths st) pathKey of
        None \<Rightarrow> s
      | Some ps \<Rightarrow> put_state s sid (st\<lparr>st_paths := AList.update pathKey (keepalive_sample (server_interval s) now ps) (st_paths st)\<rparr>))"

text \<open>
  A session enters the table only after its socket was set, so the case without a socket, where the
  code would write to a nil connection, does not arise; it has no output here.
\<close>

definition forwardDecoded :: "Server \<Rightarrow> frame list \<Rightarrow> server_out list" where
  "forwardDecoded s frames =
     concat (map (\<lambda>f. case Option.bind (Get (v_mgr s) (fSessionID f)) s_egress of None \<Rightarrow> [] | Some sock \<Rightarrow> [ToPeer sock (fPayload f)]) frames)"

text \<open>
  The part of the handshake that finds or creates the session; the flag of the result says
  whether there is one. A session is stored only when its keys, its socket and its encoder are.
\<close>

definition establish :: "senv \<Rightarrow> Server \<Rightarrow> u64 \<Rightarrow> bytes \<Rightarrow> int \<Rightarrow> bytes option \<Rightarrow> nat option \<Rightarrow> (Server \<times> server_out list \<times> bool) option" where
  "establish E s sid clientPub now keyRandom dial =
     (case GenerateEphemeralKey (ev_x E) keyRandom of
        Inl e \<Rightarrow> Some (s, [], False)
      | Inr (sPriv, sPub) \<Rightarrow>
          (case ECDHShared (ev_x E) sPriv clientPub of
             Inl e \<Rightarrow> Some (s, [], False)
           | Inr shared \<Rightarrow>
               (case dial of
                  None \<Rightarrow> Some (s, [], False)
                | Some egress \<Rightarrow>
                    (case DerivePFSKey (ev_hmac E) (v_psk s) shared sid of
                       None \<Rightarrow> None
                     | Some sessKey \<Rightarrow>
                         Some (case NewAEAD (ev_chacha E) (ev_gcm E) sessKey (cc_Cipher (cf_Crypto (v_cfg s))) of
                            Inl e \<Rightarrow> (s, [CloseSocket egress], False)
                          | Inr a \<Rightarrow>
                              (case NewEncoder (ev_rs E) (v_fecParams s) of
                                 Inl e \<Rightarrow> (s, [CloseSocket egress], False)
                               | Inr enc \<Rightarrow>
                                   (let sess = (NewServerSession sid a now)\<lparr>s_ServerPub := sPub, s_Enc := Some enc\<rparr>
                                    in (s\<lparr>v_mgr := Put (v_mgr s) (SetEgress sess egress)\<rparr>, [], True))))))))"

definition first_session :: "senv \<Rightarrow> Server \<Rightarrow> u64 \<Rightarrow> u32 \<Rightarrow> bytes \<Rightarrow> int \<Rightarrow> bytes option \<Rightarrow> nat option \<Rightarrow> (Server \<times> server_out list \<times> bool) option" where
  "first_session E s sid q payload now keyRandom dial =
     (case Get (v_mgr s) sid of
        Some sess \<Rightarrow> Some (s, [], True)
      | None \<Rightarrow>
          if Count (v_mgr s) \<ge> maxSessions then Some (s, [], False)
          else
            (let (m, ok) = CheckFirstReplay (sv_first E) (v_mgr s) sid q now;
                 s = s\<lparr>v_mgr := m\<rparr>
             in if \<not> ok then Some (s, [], False)
                else if length payload < 4 + PublicKeySize then Some (s, [], False)
                else establish E s sid (take PublicKeySize (drop 4 payload)) now keyRandom dial))"

definition check_replay :: "Server \<Rightarrow> u64 \<Rightarrow> u32 \<Rightarrow> Server \<times> bool" where
  "check_replay s sid q =
     (case Get (v_mgr s) sid of
        None \<Rightarrow> (s, False)
      | Some sess \<Rightarrow> (let (sess, ok) = Server_CheckReplay sess q in (upd_sess s sid (\<lambda>_. sess), ok)))"

definition handleFirst :: "senv \<Rightarrow> Server \<Rightarrow> frame \<Rightarrow> bytes \<Rightarrow> udp_addr \<Rightarrow> int \<Rightarrow> bytes option \<Rightarrow> nat option \<Rightarrow> (Server \<times> server_out list) option" where
  "handleFirst E s hdr sealed ua now keyRandom dial =
     (case Open (v_baseAEAD s) DirClientToServer sealed of
        Inl e \<Rightarrow> Some (s, [])
      | Inr plain \<Rightarrow>
          (case Decode plain of
             Inl e \<Rightarrow> Some (s, [])
           | Inr f \<Rightarrow>
               (let sid = fSessionID hdr in
                case first_session E s sid (fSeq hdr) (fPayload f) now keyRandom dial of
                  None \<Rightarrow> None
                | Some (s, out, False) \<Rightarrow> Some (s, out)
                | Some (s, out, True) \<Rightarrow>
                    (case check_replay s sid (fSeq hdr) of
                       (s, False) \<Rightarrow> Some (s, out)
                     | (s, True) \<Rightarrow>
                         (let s = upd_sess s sid (\<lambda>sess. Touch sess now);
                              s = registerPath s sid ua (fPayload f) now;
                              (s, ack) = sendAck E s sid ua
                          in Some (s, out @ ack))))))"

definition handleData :: "senv \<Rightarrow> Server \<Rightarrow> frame \<Rightarrow> bytes \<Rightarrow> udp_addr option \<Rightarrow> int \<Rightarrow> (Server \<times> server_out list) option" where
  "handleData E s hdr sealed ua now =
     (let sid = fSessionID hdr in
      case Get (v_mgr s) sid of
        None \<Rightarrow> Some (s, [])
      | Some sess \<Rightarrow>
          (case Open (s_aead sess) DirClientToServer sealed of
             Inl e \<Rightarrow> Some (s, [])
           | Inr plain \<Rightarrow>
               (case check_replay s sid (fSeq hdr) of
                  (s, False) \<Rightarrow> Some (s, [])
                | (s, True) \<Rightarrow>
                    (case Decode plain of
                       Inl e \<Rightarrow> Some (s, [])
                     | Inr f \<Rightarrow>
                         (let s = upd_sess s sid (\<lambda>sess. Touch sess now);
                              pathKey = (case ua of Some ua \<Rightarrow> UDPAddr_String ua | None \<Rightarrow> []);
                              s = (case ua of Some ua \<Rightarrow> registerPath s sid ua [] now | None \<Rightarrow> s)
                          in if HasFlag f FlagKeepalive then
                               (case ua of
                                  Some ua \<Rightarrow> Some (sendPong E (observeKeepalive s sid pathKey now) sid ua (fPayload f))
                                | None \<Rightarrow> Some (s, []))
                             else if fPayload f = [] then Some (s, [])
                             else map_option (\<lambda>(d, frames). (s\<lparr>v_fecDec := d\<rparr>, forwardDecoded (s\<lparr>v_fecDec := d\<rparr>) frames))
                                    (Decoder_Push (ev_rs E) (v_fecDec s) pathKey f now))))))"

text \<open>
  One frame. The code reads the clock anew in \<open>Touch\<close>, \<open>registerPath\<close>, the decoder and the session table;
  the readings of one call are the same \<open>now\<close> here.
\<close>

definition handleClientFrame :: "senv \<Rightarrow> Server \<Rightarrow> bytes \<Rightarrow> udp_addr option \<Rightarrow> int \<Rightarrow> bytes option \<Rightarrow> nat option \<Rightarrow> (Server \<times> server_out list) option" where
  "handleClientFrame E s sealed addr now keyRandom dial =
     (case DecodeHeader sealed of
        Inl e \<Rightarrow> Some (s, [])
      | Inr hdr \<Rightarrow>
          if HasFlag hdr FlagFirst then
            (case addr of None \<Rightarrow> Some (s, []) | Some ua \<Rightarrow> handleFirst E s hdr sealed ua now keyRandom dial)
          else handleData E s hdr sealed addr now)"

section \<open>Replies and ticks\<close>

text \<open>\<open>egressReader\<close> on one datagram from the WireGuard peer; the session of the socket is in the table.\<close>

definition egress_step :: "senv \<Rightarrow> Server \<Rightarrow> u64 \<Rightarrow> bytes \<Rightarrow> int \<Rightarrow> f64 \<Rightarrow> Server \<times> server_out list" where
  "egress_step E s sid payload now draw =
     (case Get (v_mgr s) sid of
        None \<Rightarrow> (s, [])
      | Some sess \<Rightarrow>
          if int (length payload) > cf_MTU (v_cfg s) then (s, [])
          else
            (let (s, q) = next_server_seq s sid;
                 f = zero_frame\<lparr>fSessionID := sid, fSeq := q, fPayload := payload\<rparr>
             in case s_Enc sess of
                  Some enc \<Rightarrow>
                    (let (enc, frames) = Encoder_Push (ev_rs E) enc f now
                     in sendToSession E (upd_sess s sid (\<lambda>sess. sess\<lparr>s_Enc := Some enc\<rparr>)) sid (s_aead sess) frames draw)
                | None \<Rightarrow> sendToSession E s sid (s_aead sess) [f] draw))"

fun server_fec_sessions :: "senv \<Rightarrow> int \<Rightarrow> (u64 \<Rightarrow> f64) \<Rightarrow> u64 list \<Rightarrow> Server \<Rightarrow> Server \<times> server_out list" where
  "server_fec_sessions E now draw [] s = (s, [])"
| "server_fec_sessions E now draw (sid # sids) s =
     (let (s, out) =
            (case Get (v_mgr s) sid of
               None \<Rightarrow> (s, [])
             | Some sess \<Rightarrow>
                 (case s_Enc sess of
                    None \<Rightarrow> (s, [])
                  | Some enc \<Rightarrow>
                      (let (enc, frames) = Encoder_Tick (ev_rs E) enc now
                       in sendToSession E (upd_sess s sid (\<lambda>sess. sess\<lparr>s_Enc := Some enc\<rparr>)) sid (s_aead sess) frames (draw sid))));
          (s, rest) = server_fec_sessions E now draw sids s
      in (s, out @ rest))"

definition server_fec_tick :: "senv \<Rightarrow> Server \<Rightarrow> int \<Rightarrow> (u64 \<Rightarrow> f64) \<Rightarrow> Server \<times> server_out list" where
  "server_fec_tick E s now draw =
     (let (s, out) = server_fec_sessions E now draw (sv_ids E (map s_ID (All (v_mgr s)))) s;
          (d, frames) = Decoder_Tick (v_fecDec s) now (ev_blocks E (map fst (d_blocks (v_fecDec s))));
          s = s\<lparr>v_fecDec := d\<rparr>
      in (s, out @ forwardDecoded s frames))"

definition server_fecTickInterval :: "Server \<Rightarrow> int" where
  "server_fecTickInterval s =
     (let interval = BlockTimeout (v_fecParams s) sdiv 2 in if interval < 25 * Millisecond then 250 * Millisecond else interval)"

text \<open>One path in a tick of \<open>healthTickLoop\<close>: the silence watchdog, the two statistics, the breaker.\<close>

definition watchdog :: "int \<Rightarrow> int \<Rightarrow> pathState \<Rightarrow> Monitor" where
  "watchdog interval now ps =
     (if unix_is_zero (ph_lastArrive ps) then ph_health ps
      else
        (let silence = sat64 (now - ph_lastArrive ps) in
         if silence > 3 * interval then
           (let missed = silence sdiv interval - 2;
                missed = (if missed > 4 then 4 else missed)
            in ObserveSample (book_misses missed now (ph_health ps)) (Fin 1) 0)
         else ph_health ps))"

definition health_path :: "u64 \<Rightarrow> int \<Rightarrow> int \<Rightarrow> string \<Rightarrow> pathState \<Rightarrow> Decoder \<Rightarrow> Decoder \<times> pathState" where
  "health_path sid interval now pathKey ps d =
     (let m = watchdog interval now ps;
          (d, lost, received) = TakeStreamStats d sid pathKey;
          m = observe_stats ObserveInBand lost received m;
          (d, rawLost, rawRecv) = TakePathStats d sid pathKey;
          m = observe_stats ObserveRaw rawLost rawRecv m
      in (d, ps\<lparr>ph_health := Monitor_Tick m now\<rparr>))"

fun health_paths :: "u64 \<Rightarrow> int \<Rightarrow> int \<Rightarrow> string list \<Rightarrow> Decoder \<Rightarrow> sessState \<Rightarrow> f64 \<Rightarrow> Decoder \<times> sessState \<times> f64" where
  "health_paths sid interval now [] d st mx = (d, st, mx)"
| "health_paths sid interval now (k # ks) d st mx =
     (case map_of (st_paths st) k of
        None \<Rightarrow> health_paths sid interval now ks d st mx
      | Some ps \<Rightarrow>
          (let (d, ps) = health_path sid interval now k ps d;
               m = ph_health ps;
               st = st\<lparr>st_paths := AList.update k ps (st_paths st), st_sched := OnState (st_sched st) k (mState m) (mLoss m)\<rparr>
           in health_paths sid interval now ks d st (if flt mx (mLoss m) then mLoss m else mx)))"

fun server_health_sessions :: "senv \<Rightarrow> int \<Rightarrow> u64 list \<Rightarrow> Server \<Rightarrow> Server" where
  "server_health_sessions E now [] s = s"
| "server_health_sessions E now (sid # sids) s =
     (case (map_of (v_states s) sid, Get (v_mgr s) sid) of
        (Some st, Some sess) \<Rightarrow>
          (let (d, st, mx) = health_paths sid (server_interval s) now (sv_keys E (map fst (st_paths st))) (v_fecDec s) st (Fin 0);
               s = put_state (s\<lparr>v_fecDec := d\<rparr>) sid st;
               s = (case s_Enc sess of
                      None \<Rightarrow> s
                    | Some enc \<Rightarrow> upd_sess s sid (\<lambda>sess. sess\<lparr>s_Enc := Some (SetLossRate (ev_rs E) enc mx now)\<rparr>))
           in server_health_sessions E now sids s)
      | _ \<Rightarrow> server_health_sessions E now sids s)"

definition server_health_tick :: "senv \<Rightarrow> Server \<Rightarrow> int \<Rightarrow> Server" where
  "server_health_tick E s now = server_health_sessions E now (sv_ids E (map fst (v_states s))) s"

definition sweep :: "Server \<Rightarrow> int \<Rightarrow> Server \<times> server_out list" where
  "sweep s now =
     (let (m, _, socks) = Expire (v_mgr s) sessionTTL now;
          (m, _) = ExpireFirsts m sessionTTL now
      in (s\<lparr>v_mgr := m, v_states := filter (\<lambda>(sid, st). Get m sid \<noteq> None) (v_states s)\<rparr>, map CloseSocket socks))"

section \<open>Reload and telemetry\<close>

definition serverReloadable :: "Config \<Rightarrow> Config \<Rightarrow> reload_error option" where
  "serverReloadable cur nc =
     (if cf_Listen nc \<noteq> cf_Listen cur \<or> cf_WGPeer nc \<noteq> cf_WGPeer cur \<or> cf_SessionID nc \<noteq> cf_SessionID cur \<or>
         cf_Transport nc \<noteq> cf_Transport cur \<or> cf_MTU nc \<noteq> cf_MTU cur \<or> fc_Mode (cf_FEC nc) \<noteq> fc_Mode (cf_FEC cur) \<or>
         cc_Key (cf_Crypto nc) \<noteq> cc_Key (cf_Crypto cur) \<or> cc_Cipher (cf_Crypto nc) \<noteq> cc_Cipher (cf_Crypto cur) \<or>
         sc_Mode (cf_Scheduler nc) \<noteq> sc_Mode (cf_Scheduler cur) \<or> sc_BalanceBy (cf_Scheduler nc) \<noteq> sc_BalanceBy (cf_Scheduler cur)
      then Some StructuralChange
      else if \<not> feq (sc_CapacityCapMbps (cf_Scheduler nc)) (sc_CapacityCapMbps (cf_Scheduler cur)) then Some CapacityCapChange
      else None)"

definition Server_Reload :: "Server \<Rightarrow> Config \<Rightarrow> Server \<times> reload_error option" where
  "Server_Reload s nc =
     (case serverReloadable (v_cfg s) nc of
        Some e \<Rightarrow> (s, Some e)
      | None \<Rightarrow>
          (let opts = healthOptions (cf_Health nc) (monitorMaxLoss (v_fecParams s));
               reload = (\<lambda>(k, ps). (k, ps\<lparr>ph_health := Monitor_Reload (ph_health ps) opts\<rparr>))
           in (s\<lparr>v_states := map (\<lambda>(sid, st). (sid, st\<lparr>st_paths := map reload (st_paths st)\<rparr>)) (v_states s)\<rparr>, None)))"

definition contains :: "string \<Rightarrow> string \<Rightarrow> bool" where
  "contains s sub \<longleftrightarrow> list_ex (\<lambda>i. take (length sub) (drop i s) = sub) [0..<Suc (length s)]"

definition zero_wan_stats :: WANStats where
  "zero_wan_stats =
     \<lparr>ws_ID = [], ws_Transport = [], ws_State = [], ws_LossPct = Fin 0, ws_RTTMs = Fin 0, ws_JitterMs = Fin 0, ws_CapacityMbps = Fin 0,
      ws_FramesSent = 0, ws_Pongs = 0, ws_MissedProbes = 0, ws_LastRxAgeMs = 0, ws_QueueDrops = 0\<rparr>"

definition path_stats :: "sessState \<Rightarrow> string \<Rightarrow> WANStats" where
  "path_stats st k =
     foldl (\<lambda>w i. if contains k (pi_ID i) \<or> pi_ID i = k
                   then (let w = w\<lparr>ws_CapacityMbps := pi_CapacityMbps i, ws_State := pi_State i\<rparr>
                         in if flt (Fin 0) (pi_Loss i) then w\<lparr>ws_LossPct := fmul (pi_Loss i) (Fin 100)\<rparr> else w)
                   else w)
       (zero_wan_stats\<lparr>ws_ID := k\<rparr>) (Paths (st_sched st))"

text \<open>Each path key is reported once, from the first session that has it; the order of sessions and keys is that of the range statements.\<close>

definition snapshot_paths :: "senv \<Rightarrow> Server \<Rightarrow> (string \<times> WANStats) list" where
  "snapshot_paths E s =
     foldl (\<lambda>acc sid. case map_of (v_states s) sid of
                None \<Rightarrow> acc
              | Some st \<Rightarrow> foldl (\<lambda>acc k. if map_of acc k = None then acc @ [(k, path_stats st k)] else acc) acc (sv_keys E (map fst (st_paths st))))
       [] (sv_ids E (map fst (v_states s)))"

definition ascii_lower :: "char \<Rightarrow> nat" where
  "ascii_lower c = (let n = of_char c in if 65 \<le> n \<and> n \<le> 90 then n + 32 else n)"

definition equal_fold :: "string \<Rightarrow> string \<Rightarrow> bool" where
  "equal_fold a b \<longleftrightarrow> map ascii_lower a = map ascii_lower b"

definition Server_Snapshot :: "senv \<Rightarrow> Server \<Rightarrow> int \<Rightarrow> Snapshot" where
  "Server_Snapshot E s now =
     (let (lost, recv) = Decoder_Stats (v_fecDec s)
      in \<lparr>sn_Mode = ''server'', sn_UptimeSec = to_seconds (sat64 (now - v_start s)), sn_Sessions = length (v_states s),
          sn_WANs = map snd (snapshot_paths E s),
          sn_FEC = \<lparr>fs_CrossPath = equal_fold (fc_Mode (cf_FEC (v_cfg s))) ''crosspath'', fs_DataShards = fc_DataShards (cf_FEC (v_cfg s)),
                    fs_BlocksSent = 0, fs_FramesLost = lost, fs_Recovered = recv, fs_CodingOn = True\<rparr>,
          sn_Delivery = \<lparr>ds_Pending = 0, ds_MaxPending = 0, ds_Drops = 0\<rparr>\<rparr>)"

end
