(* ===== verification/Server_Runs.thy ===== *)
theory Server_Runs
  imports Tunnel_Server
begin

unbundle bit_operations_syntax

text \<open>
  Runs of the tunnel server. Every event keeps the server's bounds and the sessions it has with
  their keys, and never reopens a replay window; so a datagram that does not open under the key
  it claims changes nothing, and one that was accepted is not accepted again while its session
  lives. What an acknowledgement is sealed with, and what a keepalive does to a path, is exact.
\<close>

section \<open>Runs\<close>

datatype server_event =
    ClientFrame bytes "udp_addr option" int "bytes option" "nat option" | PeerDatagram u64 bytes int f64
  | ServerFecTick int "u64 \<Rightarrow> f64" | ServerHealthTick int | ServerReload Config | Sweep int

fun server_step :: "senv \<Rightarrow> Server \<Rightarrow> server_event \<Rightarrow> (Server \<times> server_out list) option" where
  "server_step E s (ClientFrame b a now k d) = handleClientFrame E s b a now k d"
| "server_step E s (PeerDatagram sid b now draw) = Some (egress_step E s sid b now draw)"
| "server_step E s (ServerFecTick now draw) = Some (server_fec_tick E s now draw)"
| "server_step E s (ServerHealthTick now) = Some (server_health_tick E s now, [])"
| "server_step E s (ServerReload nc) = Some (fst (Server_Reload s nc), [])"
| "server_step E s (Sweep now) = Some (sweep s now)"

fun server_run :: "senv \<Rightarrow> Server \<Rightarrow> server_event list \<Rightarrow> (Server \<times> server_out list) option" where
  "server_run E s [] = Some (s, [])"
| "server_run E s (ev # evs) =
     (case server_step E s ev of
        None \<Rightarrow> None
      | Some (s, out) \<Rightarrow> map_option (\<lambda>(s, rest). (s, out @ rest)) (server_run E s evs))"

fun is_sweep :: "server_event \<Rightarrow> bool" where
  "is_sweep (Sweep now) = True"
| "is_sweep _ = False"

section \<open>The invariant and what sessions keep\<close>

definition server_inv :: "Server \<Rightarrow> bool" where
  "server_inv s \<longleftrightarrow>
     list_all (\<lambda>(sid, x). s_ID x = sid \<and> replay_inv (s_replay x)) (m_sessions (v_mgr s)) \<and> Count (v_mgr s) \<le> maxSessions \<and>
     list_all (\<lambda>(sid, st). length (st_paths st) \<le> maxPathsPerSession) (v_states s)"

text \<open>The same session later: same name and key, and every number refused before is refused.\<close>

definition later :: "ServerSession \<Rightarrow> ServerSession \<Rightarrow> bool" where
  "later x y \<longleftrightarrow> s_ID y = s_ID x \<and> s_aead y = s_aead x \<and> replay_inv (s_replay y) \<and>
     (\<forall>q. \<not> snd (Server_CheckReplay x q) \<longrightarrow> \<not> snd (Server_CheckReplay y q))"

definition good :: "Server \<Rightarrow> Server \<Rightarrow> bool" where
  "good s s' \<longleftrightarrow> server_inv s' \<and> v_baseAEAD s' = v_baseAEAD s \<and> v_ann s' = v_ann s \<and> v_cfg s' = v_cfg s \<and> v_psk s' = v_psk s \<and>
     v_fecParams s' = v_fecParams s \<and>
     (\<forall>sid x. Get (v_mgr s) sid = Some x \<longrightarrow> (\<exists>y. Get (v_mgr s') sid = Some y \<and> later x y))"

lemma session_inv: "server_inv s \<Longrightarrow> Get (v_mgr s) sid = Some x \<Longrightarrow> s_ID x = sid \<and> replay_inv (s_replay x)"
  by (auto simp: server_inv_def Get_def list_all_iff dest!: map_of_SomeD)

lemma later_same: "replay_inv (s_replay x) \<Longrightarrow> s_ID y = s_ID x \<Longrightarrow> s_aead y = s_aead x \<Longrightarrow> s_replay y = s_replay x \<Longrightarrow> later x y"
  by (simp add: later_def Server_CheckReplay_def case_prod_unfold Let_def)

lemma later_trans: "later x y \<Longrightarrow> later y z \<Longrightarrow> later x z"
  by (simp add: later_def)

lemma good_refl: "server_inv s \<Longrightarrow> good s s"
  using session_inv later_same by (fastforce simp: good_def)

lemma good_trans: "good s s1 \<Longrightarrow> good s1 s2 \<Longrightarrow> good s s2"
  unfolding good_def using later_trans by (metis (no_types, lifting))

lemma good_inv: "good s s' \<Longrightarrow> server_inv s'" by (simp add: good_def)

lemma good_frame:
  assumes "server_inv s" "v_mgr s' = v_mgr s" "v_states s' = v_states s" "v_baseAEAD s' = v_baseAEAD s" "v_ann s' = v_ann s"
    and "v_cfg s' = v_cfg s" "v_psk s' = v_psk s" "v_fecParams s' = v_fecParams s"
  shows "good s s'"
  using good_refl [OF assms(1)] assms by (simp add: good_def server_inv_def)

lemma list_all_AList: "list_all P xs \<Longrightarrow> P (k, v) \<Longrightarrow> list_all P (AList.update k v xs)"
  using set_update_sub [of k v xs] by (auto simp: list_all_iff)

lemma good_state:
  assumes "server_inv s" "length (st_paths st) \<le> maxPathsPerSession"
  shows "good s (put_state s sid st)"
  using good_refl [OF assms(1)] assms by (simp add: good_def server_inv_def put_state_def list_all_AList)

lemma length_update_old: "map_of xs k \<noteq> None \<Longrightarrow> length (AList.update k v xs) = length xs"
  by (induction xs) auto

lemma good_sess:
  assumes "server_inv s" "\<And>x. Get (v_mgr s) sid = Some x \<Longrightarrow> later x (f x)"
  shows "good s (upd_sess s sid f)"
proof (cases "Get (v_mgr s) sid")
  case None
  then have "upd_sess s sid f = s" by (simp add: upd_sess_def upd_session_def)
  then show ?thesis using good_refl [OF assms(1)] by simp
next
  case (Some x)
  let ?m = "m_sessions (v_mgr s)"
  have eq: "v_mgr (upd_sess s sid f) = (v_mgr s)\<lparr>m_sessions := AList.update sid (f x) ?m\<rparr>"
    using Some by (simp add: upd_sess_def upd_session_def)
  have l: "later x (f x)" "s_ID x = sid" using assms(2) Some session_inv [OF assms(1) Some] by auto
  then have "list_all (\<lambda>(sid, x). s_ID x = sid \<and> replay_inv (s_replay x)) (AList.update sid (f x) ?m)"
    using assms(1) by (intro list_all_AList) (auto simp: server_inv_def later_def)
  moreover have "length (AList.update sid (f x) ?m) = length ?m" using Some by (intro length_update_old) (simp add: Get_def)
  ultimately have "server_inv (upd_sess s sid f)" using assms(1) unfolding server_inv_def eq by (simp add: Count_def upd_sess_def)
  moreover have "\<exists>y. Get (v_mgr (upd_sess s sid f)) i = Some y \<and> later z y" if "Get (v_mgr s) i = Some z" for i z
    using that l Some good_refl [OF assms(1)] unfolding eq by (auto simp: Get_def update_conv' good_def)
  ultimately show ?thesis unfolding good_def by (simp add: upd_sess_def)
qed

lemma good_sess_same:
  assumes "server_inv s" "\<And>x. s_ID (f x) = s_ID x \<and> s_aead (f x) = s_aead x \<and> s_replay (f x) = s_replay x"
  shows "good s (upd_sess s sid f)"
  using assms session_inv [OF assms(1)] by (intro good_sess) (auto intro!: later_same)

section \<open>Operations\<close>

lemma stateFor_good:
  assumes "server_inv s" "stateFor s sid = (s', st)"
  shows "good s s' \<and> length (st_paths st) \<le> maxPathsPerSession \<and> v_mgr s' = v_mgr s \<and> v_fecParams s' = v_fecParams s \<and> v_cfg s' = v_cfg s"
proof (cases "map_of (v_states s) sid")
  case None
  then show ?thesis using assms good_state [OF assms(1), of "new_state s" sid]
    by (auto simp: stateFor_def new_state_def put_state_def)
next
  case (Some x)
  then have "length (st_paths x) \<le> maxPathsPerSession" using assms(1) by (auto simp: server_inv_def list_all_iff dest!: map_of_SomeD)
  then show ?thesis using assms Some good_refl by (auto simp: stateFor_def)
qed

lemma declare_paths: "declare_capacity s k p (st, ps) = (st', ps') \<Longrightarrow> st_paths st' = st_paths st"
  by (auto simp: declare_capacity_def Let_def split: if_splits)

lemma registerPath_good:
  assumes "server_inv s"
  shows "good s (registerPath s sid ua payload now)"
proof -
  let ?k = "UDPAddr_String ua"
  obtain s1 st where st: "stateFor s sid = (s1, st)" by fastforce
  note g = stateFor_good [OF assms st]
  have inv1: "server_inv s1" using g by (simp add: good_def)
  let ?st = "st\<lparr>st_lastSeen := Some ua\<rparr>"
  show ?thesis
  proof (cases "map_of (st_paths st) ?k = None \<and> length (st_paths st) \<ge> maxPathsPerSession")
    case True
    then have "registerPath s sid ua payload now = put_state s1 sid ?st" using st by (simp add: registerPath_def Let_def)
    then show ?thesis using g good_state [OF inv1, of ?st sid] by (auto intro: good_trans)
  next
    case False
    obtain st2 ps2 where 2: "(case map_of (st_paths st) ?k of
         Some ps \<Rightarrow> (?st, ps)
       | None \<Rightarrow> (?st\<lparr>st_sched := AddPath (st_sched ?st) ?k (Fin 1)\<rparr>,
            \<lparr>ph_addr = ua, ph_capacity = Fin 1, ph_health = New_Monitor (healthOptions (cf_Health (v_cfg s1)) (monitorMaxLoss (v_fecParams s1))),
             ph_lastArrive = now, ph_lastKeepalive = 0, ph_pathSeq = 0\<rparr>)) = (st2, ps2)" by fastforce
    then have p2: "st_paths st2 = st_paths st" by (auto split: option.splits)
    obtain st3 ps3 where 3: "declare_capacity s1 ?k payload (st2, ps2\<lparr>ph_lastArrive := now\<rparr>) = (st3, ps3)" by fastforce
    have p3: "st_paths st3 = st_paths st" using declare_paths [OF 3] p2 by simp
    let ?st4 = "st3\<lparr>st_paths := AList.update ?k ps3 (st_paths st3)\<rparr>"
    have eq: "registerPath s sid ua payload now = upd_sess (put_state s1 sid ?st4) sid (\<lambda>sess. SetEndpoint sess ?k ua)"
      using st False 2 3 by (auto simp: registerPath_def Let_def)
    have "length (AList.update ?k ps3 (st_paths st)) \<le> maxPathsPerSession"
      using False g length_update_le [of ?k ps3 "st_paths st"] length_update_old [of "st_paths st" ?k ps3] by fastforce
    then have 4: "good s1 (put_state s1 sid ?st4)" using good_state [OF inv1] p3 by simp
    moreover have "good (put_state s1 sid ?st4) (upd_sess (put_state s1 sid ?st4) sid (\<lambda>sess. SetEndpoint sess ?k ua))"
      using 4 by (intro good_sess_same) (simp_all add: good_def SetEndpoint_def)
    ultimately show ?thesis unfolding eq using g good_trans by blast
  qed
qed


lemma next_seq_good:
  assumes "server_inv s" "next_server_seq s sid = (s', q)"
  shows "good s s'"
proof (cases "Get (v_mgr s) sid")
  case None
  then show ?thesis using assms good_refl by (simp add: next_server_seq_def)
next
  case (Some x)
  then have "s' = upd_sess s sid (\<lambda>_. fst (Server_NextSeq x))" using assms(2) by (simp add: next_server_seq_def Let_def case_prod_unfold)
  moreover have "good s (upd_sess s sid (\<lambda>_. fst (Server_NextSeq x)))"
    using session_inv [OF assms(1) Some] Some by (intro good_sess [OF assms(1)]) (auto simp: Server_NextSeq_def intro!: later_same)
  ultimately show ?thesis by simp
qed

lemma transmit_good: "server_inv s \<Longrightarrow> good s (fst (transmit E s addr b))"
  by (auto simp: transmit_def server_noteSendErr_def intro!: good_frame)

lemma sendToAddr_good:
  assumes "server_inv s"
  shows "good s (fst (sendToAddrKey E s addr f a))" "good s (fst (sendToAddr E s a addr f))"
  using transmit_good [OF assms] good_refl [OF assms] by (auto simp: sendToAddrKey_def sendToAddr_def split: sum.split)

lemma sendPong_good:
  assumes "server_inv s"
  shows "good s (fst (sendPong E s sid ua ts))"
proof (cases "Get (v_mgr s) sid")
  case None
  then show ?thesis using assms good_refl by (simp add: sendPong_def)
next
  case (Some x)
  obtain s1 q where n: "next_server_seq s sid = (s1, q)" by fastforce
  have g: "good s s1" using next_seq_good [OF assms n] .
  then show ?thesis using Some n sendToAddr_good(2) [OF good_inv [OF g]] by (auto simp: sendPong_def intro: good_trans)
qed

lemma sendAck_good:
  assumes "server_inv s"
  shows "good s (fst (sendAck E s sid ua))"
proof (cases "Get (v_mgr s) sid")
  case None
  then show ?thesis using assms good_refl by (simp add: sendAck_def)
next
  case (Some x)
  obtain s1 q where n: "next_server_seq s sid = (s1, q)" by fastforce
  have g: "good s s1" using next_seq_good [OF assms n] .
  then show ?thesis using Some n sendToAddr_good(1) [OF good_inv [OF g]] by (auto simp: sendAck_def Let_def intro: good_trans)
qed

lemma pick_good:
  assumes "server_inv s"
  shows "good s (fst (pickPath s sid draw))" "good s (fst (pickCrossPath s sid))"
proof -
  obtain s1 st where st: "stateFor s sid = (s1, st)" by fastforce
  note g = stateFor_good [OF assms st]
  have "good s (put_state s1 sid (st\<lparr>st_sched := x\<rparr>))" for x
    using g good_state [OF good_inv, of s s1 "st\<lparr>st_sched := x\<rparr>" sid] by (auto intro: good_trans)
  then show "good s (fst (pickPath s sid draw))" "good s (fst (pickCrossPath s sid))"
    using st by (simp_all add: pickPath_def pickCrossPath_def Let_def case_prod_unfold)
qed

lemma stamp_good:
  assumes "server_inv s"
  shows "good s (fst (stamp_path s sid addr f))"
proof -
  obtain s1 st where st: "stateFor s sid = (s1, st)" by fastforce
  note g = stateFor_good [OF assms st]
  show ?thesis
  proof (cases "HasFlag f FlagPassSeq \<and> map_of (st_paths st) (UDPAddr_String addr) \<noteq> None")
    case True
    then obtain ps where ps: "map_of (st_paths st) (UDPAddr_String addr) = Some ps" by blast
    let ?st = "st\<lparr>st_paths := AList.update (UDPAddr_String addr) (ps\<lparr>ph_pathSeq := ph_pathSeq ps + 1\<rparr>) (st_paths st)\<rparr>"
    have "length (st_paths ?st) \<le> maxPathsPerSession" using g length_update_old [of "st_paths st"] ps by simp
    then have "good s1 (put_state s1 sid ?st)" using g good_state [OF good_inv, of s s1] by blast
    then show ?thesis using True ps st g by (auto simp: stamp_path_def pathForAddr_def intro: good_trans)
  next
    case False
    then show ?thesis using st g good_refl [OF assms] by (auto simp: stamp_path_def pathForAddr_def)
  qed
qed

lemma send_one_good:
  assumes "server_inv s"
  shows "good s (fst (send_one E s sid a oneAddr f))"
proof -
  obtain s1 f1 where 1: "(if HasFlag f FlagFECParity then (let (s, q) = next_server_seq s sid in (s, f\<lparr>fSeq := q\<rparr>)) else (s, f)) = (s1, f1)"
    by fastforce
  then have g1: "good s s1" using next_seq_good [OF assms] good_refl [OF assms] by (auto simp: Let_def split: if_splits prod.splits)
  obtain s2 addr where 2: "(if CrossPath (v_fecParams s1) then pickCrossPath s1 sid else (s1, oneAddr)) = (s2, addr)" by fastforce
  have "good s1 s2" using 2 pick_good(2) [OF good_inv [OF g1], of sid] good_refl [OF good_inv [OF g1]] by (auto split: if_splits)
  then have g2: "good s s2" by (rule good_trans [OF g1])
  show ?thesis
  proof (cases addr)
    case None
    then show ?thesis using 1 2 g2 by (simp add: send_one_def Let_def)
  next
    case (Some ad)
    obtain s3 f3 where 3: "stamp_path s2 sid ad f1 = (s3, f3)" by fastforce
    have g3: "good s s3" using stamp_good [OF good_inv [OF g2], of sid ad f1] 3 good_trans [OF g2] by simp
    have "fst (send_one E s sid a oneAddr f) = fst (sendToAddr E s3 a ad f3)" 
      by (simp only: send_one_def Let_def 1 [unfolded Let_def] 2 3 Some prod.case option.case)
    then show ?thesis using sendToAddr_good(2) [OF good_inv [OF g3]] good_trans [OF g3] by simp
  qed
qed

lemma send_block_good: "server_inv s \<Longrightarrow> good s (fst (send_block E s sid a oneAddr fs))"
proof (induction fs arbitrary: s)
  case (Cons f fs)
  have g: "good s (fst (send_one E s sid a oneAddr f))" by (rule send_one_good [OF Cons.prems])
  then show ?case using good_trans [OF g Cons.IH [OF good_inv [OF g]]] by (simp add: Let_def case_prod_unfold)
qed (simp add: good_refl)

lemma sendToSession_good:
  assumes "server_inv s"
  shows "good s (fst (sendToSession E s sid a fs draw))"
proof -
  obtain s1 ad where 1: "pickPath s sid draw = (s1, ad)" by fastforce
  have g: "good s s1" using pick_good(1) [OF assms, of sid draw] 1 by simp
  then show ?thesis
    using 1 good_refl [OF assms] send_block_good [OF assms] good_trans [OF g send_block_good [OF good_inv [OF g]]]
    by (auto simp: sendToSession_def split: option.split)
qed

lemma observe_good:
  assumes "server_inv s"
  shows "good s (observeKeepalive s sid k now)"
proof -
  obtain s1 st where st: "stateFor s sid = (s1, st)" by fastforce
  note g = stateFor_good [OF assms st]
  have "good s1 (put_state s1 sid (st\<lparr>st_paths := AList.update k ps (st_paths st)\<rparr>))" if "map_of (st_paths st) k \<noteq> None" for ps
    using g that length_update_old [OF that, of ps] by (intro good_state) (auto simp: good_def)
  then show ?thesis using st g by (auto simp: observeKeepalive_def intro: good_trans split: option.split)
qed

lemma check_replay_good:
  assumes "server_inv s" "check_replay s sid q = (s', ok)"
  shows "good s s' \<and> (\<forall>x. Get (v_mgr s) sid = Some x \<longrightarrow> ok = snd (Server_CheckReplay x q)
    \<and> (\<exists>y. Get (v_mgr s') sid = Some y \<and> \<not> snd (Server_CheckReplay y q)))"
proof (cases "Get (v_mgr s) sid")
  case None
  then show ?thesis using assms good_refl by (simp add: check_replay_def)
next
  case (Some x)
  let ?y = "fst (Server_CheckReplay x q)"
  have inv: "replay_inv (s_replay x)" using session_inv [OF assms(1) Some] by simp
  have s': "s' = upd_sess s sid (\<lambda>_. ?y)" "ok = snd (Server_CheckReplay x q)"
    using assms(2) Some by (auto simp: check_replay_def Let_def split: prod.splits)
  have "s_ID ?y = s_ID x" "s_aead ?y = s_aead x" by (simp_all add: Server_CheckReplay_def Let_def case_prod_unfold)
  then have "later x ?y" using server.inv_chk [OF inv] server.chk_stays [OF inv] by (simp add: later_def)
  then have "good s s'" unfolding s' using Some by (intro good_sess [OF assms(1)]) auto
  moreover have "Get (v_mgr s') sid = Some ?y" using Some by (simp add: s' upd_sess_def upd_session_def Get_def update_conv')
  ultimately show ?thesis using Some s'(2) server.chk_again [OF inv] by auto
qed


section \<open>Frames from clients\<close>

lemma good_first_windows:
  assumes "server_inv s" "m_sessions m = m_sessions (v_mgr s)"
  shows "good s (s\<lparr>v_mgr := m\<rparr>)"
  using good_refl [OF assms(1)] assms by (simp add: good_def server_inv_def Get_def Count_def)

lemma CheckFirst_sessions: "CheckFirstReplay rng m sid q now = (m', ok) \<Longrightarrow> m_sessions m' = m_sessions m"
  by (auto simp: CheckFirstReplay_def Let_def split: if_splits prod.splits)

lemma good_Put:
  assumes "server_inv s" "Get (v_mgr s) (s_ID x) = None" "Count (v_mgr s) < maxSessions" "replay_inv (s_replay x)"
  shows "good s (s\<lparr>v_mgr := Put (v_mgr s) x\<rparr>)"
proof -
  let ?m = "m_sessions (v_mgr s)"
  have "s_ID x \<notin> fst ` set ?m" using assms(2) by (simp add: Get_def map_of_eq_None_iff)
  then have "length (AList.update (s_ID x) x ?m) = Suc (length ?m)" by (rule length_update_new)
  moreover have "list_all (\<lambda>(sid, x). s_ID x = sid \<and> replay_inv (s_replay x)) (AList.update (s_ID x) x ?m)"
    using assms(1,4) by (intro list_all_AList) (auto simp: server_inv_def)
  ultimately have "server_inv (s\<lparr>v_mgr := Put (v_mgr s) x\<rparr>)" using assms(1,3) by (simp add: server_inv_def Put_def Count_def)
  moreover have "\<exists>y. Get (Put (v_mgr s) x) i = Some y \<and> later z y" if "Get (v_mgr s) i = Some z" for i z
    using that assms(2) good_refl [OF assms(1)] by (auto simp: Get_def Put_def update_conv' good_def)
  ultimately show ?thesis unfolding good_def by simp
qed

lemma new_session_replay: "replay_inv (s_replay (NewServerSession sid a now))"
  by (simp add: NewServerSession_def Touch_def replay_inv_New)

lemma establish_good:
  assumes "server_inv s" "Get (v_mgr s) sid = None" "Count (v_mgr s) < maxSessions" "establish E s sid pub now k d = Some (s', out, ok)"
  shows "good s s' \<and> (ok \<longrightarrow> out = [] \<and> Get (v_mgr s') sid \<noteq> None) \<and> (\<not> ok \<longrightarrow> (\<forall>x\<in>set out. \<exists>n. x = CloseSocket n))"
proof -
  let ?x = "\<lambda>a p e n. SetEgress ((NewServerSession sid a now)\<lparr>s_ServerPub := p, s_Enc := e\<rparr>) n"
  have x: "s_ID (?x a p e n) = sid" "replay_inv (s_replay (?x a p e n))" for a p e n
    using new_session_replay by (simp_all add: SetEgress_def NewServerSession_def Touch_def)
  have g: "good s (s\<lparr>v_mgr := Put (v_mgr s) (?x a p e n)\<rparr>)" for a p e n
    by (intro good_Put [OF assms(1) _ assms(3)] x) (simp add: x assms(2))
  have "Get (Put (v_mgr s) (?x a p e n)) sid \<noteq> None" for a p e n
    using x by (simp add: Put_def Get_def update_conv')
  then show ?thesis
    using assms(4) good_refl [OF assms(1)] g unfolding establish_def Let_def
    by (auto split: sum.splits option.splits prod.splits)
qed

lemma first_session_good:
  assumes "server_inv s" "first_session E s sid q p now k d = Some (s', out, ok)"
  shows "good s s' \<and> (ok \<longrightarrow> out = [] \<and> Get (v_mgr s') sid \<noteq> None) \<and> (\<not> ok \<longrightarrow> (\<forall>x\<in>set out. \<exists>n. x = CloseSocket n))"
proof (cases "Get (v_mgr s) sid = None \<and> Count (v_mgr s) < maxSessions")
  case False
  then show ?thesis using assms good_refl [OF assms(1)] by (auto simp: first_session_def split: option.splits if_splits)
next
  case True
  obtain m ok1 where c: "CheckFirstReplay (sv_first E) (v_mgr s) sid q now = (m, ok1)" by fastforce
  let ?s = "s\<lparr>v_mgr := m\<rparr>"
  have ms: "m_sessions m = m_sessions (v_mgr s)" using CheckFirst_sessions [OF c] .
  have g: "good s ?s" using good_first_windows [OF assms(1) ms] .
  have t: "Get (v_mgr ?s) sid = None" "Count (v_mgr ?s) < maxSessions" using True ms by (simp_all add: Get_def Count_def)
  show ?thesis
    using assms(2) True c g establish_good [OF good_inv [OF g] t] good_trans [OF g]
    by (auto simp: first_session_def Let_def split: if_splits)
qed

text \<open>What a session that refuses a number does with a frame of that number, and when it starts to.\<close>

definition refused :: "Server \<Rightarrow> frame \<Rightarrow> bool" where
  "refused s hdr \<longleftrightarrow> (\<exists>y. Get (v_mgr s) (fSessionID hdr) = Some y \<and> \<not> snd (Server_CheckReplay y (fSeq hdr)))"

lemma refused_good: "good s s' \<Longrightarrow> refused s hdr \<Longrightarrow> refused s' hdr"
  unfolding good_def refused_def later_def by blast

lemma handleFirst_good:
  assumes "server_inv s" "handleFirst E s hdr b ua now k d = Some (s', out)"
  shows "good s s' \<and> (refused s' hdr \<or> (\<forall>x\<in>set out. \<exists>n. x = CloseSocket n))"
proof (cases "\<exists>plain f. Open (v_baseAEAD s) DirClientToServer b = Inr plain \<and> Decode plain = Inr f")
  case False
  then show ?thesis using assms good_refl [OF assms(1)] by (auto simp: handleFirst_def split: sum.splits)
next
  case True
  then obtain plain f where f: "Open (v_baseAEAD s) DirClientToServer b = Inr plain" "Decode plain = Inr f" by blast
  let ?sid = "fSessionID hdr"
  obtain s1 o1 ok where 1: "first_session E s ?sid (fSeq hdr) (fPayload f) now k d = Some (s1, o1, ok)"
    using assms(2) f by (auto simp: handleFirst_def Let_def split: option.splits)
  note g1 = first_session_good [OF assms(1) 1]
  show ?thesis
  proof (cases ok)
    case False
    then show ?thesis using assms(2) f 1 g1 by (simp add: handleFirst_def)
  next
    case True
    obtain s2 ok2 where 2: "check_replay s1 ?sid (fSeq hdr) = (s2, ok2)" by fastforce
    note g2 = check_replay_good [OF good_inv 2, of s]
    have r2: "refused s2 hdr" using g1 g2 True by (auto simp: refused_def)
    have g: "good s s2" using g1 g2 good_trans by blast
    let ?s3 = "upd_sess s2 ?sid (\<lambda>sess. Touch sess now)"
    have g3: "good s2 ?s3" using good_inv [OF g] by (intro good_sess_same) (simp_all add: Touch_def)
    have g4: "good s2 (registerPath ?s3 ?sid ua (fPayload f) now)"
      using good_trans [OF g3 registerPath_good [OF good_inv [OF g3]]] .
    have g5: "good s2 (fst (sendAck E (registerPath ?s3 ?sid ua (fPayload f) now) ?sid ua))"
      using good_trans [OF g4 sendAck_good [OF good_inv [OF g4]]] .
    have "s' = s2 \<or> s' = fst (sendAck E (registerPath ?s3 ?sid ua (fPayload f) now) ?sid ua)"
      using assms(2) f 1 2 True by (auto simp: handleFirst_def Let_def case_prod_unfold split: bool.splits)
    then have "good s2 s'" using g5 good_refl [OF good_inv [OF g]] by auto
    then show ?thesis using good_trans [OF g] refused_good r2 by blast
  qed
qed

lemma handleData_good:
  assumes "server_inv s" "handleData E s hdr b ua now = Some (s', out)"
  shows "good s s' \<and> (refused s' hdr \<or> out = [])"
proof (cases "\<exists>x plain. Get (v_mgr s) (fSessionID hdr) = Some x \<and> Open (s_aead x) DirClientToServer b = Inr plain")
  case False
  then show ?thesis using assms good_refl [OF assms(1)] by (auto simp: handleData_def Let_def split: sum.splits option.splits)
next
  case True
  then obtain x plain where x: "Get (v_mgr s) (fSessionID hdr) = Some x" "Open (s_aead x) DirClientToServer b = Inr plain" by blast
  let ?sid = "fSessionID hdr"
  obtain s2 ok2 where 2: "check_replay s ?sid (fSeq hdr) = (s2, ok2)" by fastforce
  note g2 = check_replay_good [OF assms(1) 2]
  have r2: "refused s2 hdr" and g: "good s s2" using g2 x by (auto simp: refused_def)
  let ?s3 = "upd_sess s2 ?sid (\<lambda>sess. Touch sess now)"
  let ?s4 = "case ua of Some ua \<Rightarrow> registerPath ?s3 ?sid ua [] now | None \<Rightarrow> ?s3"
  have g3: "good s2 ?s3" using good_inv [OF g] by (intro good_sess_same) (simp_all add: Touch_def)
  then have g4: "good s2 ?s4" using registerPath_good [OF good_inv [OF g3]] by (auto intro: good_trans split: option.split)
  have g5: "good s2 (fst (sendPong E (observeKeepalive ?s4 ?sid pk now) ?sid ad p))" for pk ad p
    using good_trans [OF g4 observe_good [OF good_inv [OF g4]]] sendPong_good good_inv good_trans by blast
  have g6: "good s2 (?s4\<lparr>v_fecDec := dd\<rparr>)" for dd using good_trans [OF g4 good_frame [OF good_inv [OF g4]]] by simp
  have "good s2 s'"
    using assms(2) x 2 g4 g5 g6 good_refl [OF good_inv [OF g]] unfolding handleData_def Let_def
    by (auto simp: prod_eq_iff split: bool.splits sum.splits if_splits option.splits)
  then show ?thesis using good_trans [OF g] refused_good r2 by blast
qed

lemma handle_good:
  assumes "server_inv s" "handleClientFrame E s b a now k d = Some (s', out)"
  shows "good s s' \<and> ((\<forall>x\<in>set out. \<exists>n. x = CloseSocket n) \<or> (\<exists>hdr. DecodeHeader b = Inr hdr \<and> refused s' hdr))"
  using assms good_refl [OF assms(1)] handleFirst_good [OF assms(1)] handleData_good [OF assms(1)]
  unfolding handleClientFrame_def by (fastforce split: sum.splits if_splits option.splits)

lemma refused_silent:
  assumes "refused s hdr" "DecodeHeader b = Inr hdr"
  shows "\<exists>s'. handleClientFrame E s b a now k d = Some (s', [])"
proof -
  obtain y where y: "Get (v_mgr s) (fSessionID hdr) = Some y" "\<not> snd (Server_CheckReplay y (fSeq hdr))" using assms(1) by (auto simp: refused_def)
  then obtain s1 where "check_replay s (fSessionID hdr) (fSeq hdr) = (s1, False)" by (auto simp: check_replay_def Let_def case_prod_unfold)
  then show ?thesis using y assms(2)
    by (auto simp: handleClientFrame_def handleFirst_def handleData_def first_session_def Let_def split: sum.split option.split)
qed


section \<open>Replies, ticks and reloads\<close>

lemma good_enc: "server_inv s \<Longrightarrow> good s (upd_sess s sid (\<lambda>sess. sess\<lparr>s_Enc := e\<rparr>))"
  by (intro good_sess_same) simp_all

lemma egress_good:
  assumes "server_inv s"
  shows "good s (fst (egress_step E s sid p now draw))"
proof (cases "Get (v_mgr s) sid")
  case None
  then show ?thesis using good_refl [OF assms] by (simp add: egress_step_def)
next
  case (Some x)
  obtain s1 q where 1: "next_server_seq s sid = (s1, q)" by fastforce
  have g: "good s s1" using next_seq_good [OF assms 1] .
  have g2: "good s (upd_sess s1 sid (\<lambda>sess. sess\<lparr>s_Enc := e\<rparr>))" for e using good_trans [OF g good_enc [OF good_inv [OF g]]] .
  show ?thesis
    using Some 1 good_refl [OF assms] good_trans [OF g sendToSession_good [OF good_inv [OF g]]]
      good_trans [OF g2 sendToSession_good [OF good_inv [OF g2]]]
    by (auto simp: egress_step_def Let_def split: option.split prod.split)
qed

lemma fec_sessions_good: "server_inv s \<Longrightarrow> good s (fst (server_fec_sessions E now draw sids s))"
proof (induction sids arbitrary: s)
  case (Cons sid sids)
  let ?r = "case Get (v_mgr s) sid of None \<Rightarrow> (s, []) | Some sess \<Rightarrow> (case s_Enc sess of None \<Rightarrow> (s, [])
      | Some enc \<Rightarrow> (case Encoder_Tick (ev_rs E) enc now of (enc, frames) \<Rightarrow>
          sendToSession E (upd_sess s sid (\<lambda>sess. sess\<lparr>s_Enc := Some enc\<rparr>)) sid (s_aead sess) frames (draw sid)))"
  have g2: "good s (upd_sess s sid (\<lambda>sess. sess\<lparr>s_Enc := e\<rparr>))" for e using good_enc [OF Cons.prems] .
  have g: "good s (fst ?r)"
    using good_refl [OF Cons.prems] good_trans [OF g2 sendToSession_good [OF good_inv [OF g2]]] by (auto split: option.split prod.split)
  show ?case using good_trans [OF g Cons.IH [OF good_inv [OF g]]] unfolding server_fec_sessions.simps Let_def by (simp add: case_prod_unfold)
qed (simp add: good_refl)

lemma server_tick_good:
  assumes "server_inv s"
  shows "good s (fst (server_fec_tick E s now draw))"
proof -
  obtain s1 o1 where 1: "server_fec_sessions E now draw (sv_ids E (map s_ID (All (v_mgr s)))) s = (s1, o1)" by fastforce
  have g: "good s s1" using fec_sessions_good [OF assms, of E now draw "sv_ids E (map s_ID (All (v_mgr s)))"] 1 by simp
  have "good s (s1\<lparr>v_fecDec := d\<rparr>)" for d using good_trans [OF g good_frame [OF good_inv [OF g]]] by simp
  then show ?thesis using 1 by (simp add: server_fec_tick_def Let_def case_prod_unfold)
qed

lemma health_paths_length: "health_paths sid iv now ks d st mx = (d', st', mx') \<Longrightarrow> length (st_paths st') = length (st_paths st)"
proof (induction ks arbitrary: d st mx)
  case (Cons k ks)
  show ?case
  proof (cases "map_of (st_paths st) k")
    case None
    then show ?thesis using Cons by simp
  next
    case (Some ps)
    obtain d1 ps1 where "health_path sid iv now k ps d = (d1, ps1)" by fastforce
    then show ?thesis using Cons.prems Cons.IH Some length_update_old [of "st_paths st" k ps1] by (fastforce simp: Let_def)
  qed
qed simp

lemma health_sessions_good: "server_inv s \<Longrightarrow> good s (server_health_sessions E now sids s)"
proof (induction sids arbitrary: s)
  case (Cons sid sids)
  show ?case
  proof (cases "\<exists>st x. map_of (v_states s) sid = Some st \<and> Get (v_mgr s) sid = Some x")
    case False
    then show ?thesis using Cons by (auto split: option.splits)
  next
    case True
    then obtain st x where st: "map_of (v_states s) sid = Some st" and x: "Get (v_mgr s) sid = Some x" by blast
    obtain d st1 mx where h: "health_paths sid (server_interval s) now (sv_keys E (map fst (st_paths st))) (v_fecDec s) st (Fin 0) = (d, st1, mx)"
      by (metis prod_cases3)
    have "length (st_paths st) \<le> maxPathsPerSession" using Cons.prems st by (auto simp: server_inv_def list_all_iff dest!: map_of_SomeD)
    then have l: "length (st_paths st1) \<le> maxPathsPerSession" using health_paths_length [OF h] by simp
    let ?s1 = "put_state (s\<lparr>v_fecDec := d\<rparr>) sid st1"
    have g0: "good s (s\<lparr>v_fecDec := d\<rparr>)" using Cons.prems by (intro good_frame) simp_all
    then have g1: "good s ?s1" using good_trans [OF g0 good_state [OF good_inv [OF g0] l]] by blast
    let ?s2 = "case s_Enc x of None \<Rightarrow> ?s1 | Some enc \<Rightarrow> upd_sess ?s1 sid (\<lambda>sess. sess\<lparr>s_Enc := Some (SetLossRate (ev_rs E) enc mx now)\<rparr>)"
    have g2: "good s ?s2" using g1 good_trans [OF g1 good_enc [OF good_inv [OF g1]]] by (simp split: option.split)
    have "server_health_sessions E now (sid # sids) s = server_health_sessions E now sids ?s2" using st x h by (simp add: Let_def)
    then show ?thesis using good_trans [OF g2 Cons.IH [OF good_inv [OF g2]]] by simp
  qed
qed (simp add: good_refl)

lemma reload_good:
  assumes "server_inv s"
  shows "good s (fst (Server_Reload s nc))"
proof -
  let ?f = "\<lambda>g (sid, st). (sid, st\<lparr>st_paths := map g (st_paths st)\<rparr>)"
  have "list_all (\<lambda>(sid, st). length (st_paths st) \<le> maxPathsPerSession) (map (?f g) (v_states s))" for g :: "string \<times> pathState \<Rightarrow> string \<times> pathState"
    using assms by (auto simp: server_inv_def list_all_iff)
  then show ?thesis
    using good_refl [OF assms] by (auto simp: Server_Reload_def Let_def good_def server_inv_def split: option.split)
qed

lemma sweep_inv: "server_inv s \<Longrightarrow> server_inv (fst (sweep s now)) \<and> v_baseAEAD (fst (sweep s now)) = v_baseAEAD s"
  by (auto simp: sweep_def Expire_def ExpireFirsts_def Let_def server_inv_def list_all_iff Count_def intro: le_trans [OF length_filter_le])

lemma step_good:
  assumes "server_inv s" "server_step E s ev = Some (s', out)"
  shows "server_inv s' \<and> v_baseAEAD s' = v_baseAEAD s \<and> (\<not> is_sweep ev \<longrightarrow> good s s')"
proof (cases ev)
  case (ClientFrame b a now k d)
  then show ?thesis using assms handle_good [OF assms(1)] by (auto simp: good_def)
next
  case (Sweep now)
  then show ?thesis using assms sweep_inv [OF assms(1), of now] by auto
qed (use assms egress_good [OF assms(1)] server_tick_good [OF assms(1)] health_sessions_good [OF assms(1)] reload_good [OF assms(1)] in
    \<open>auto simp: server_health_tick_def good_def prod_eq_iff\<close>)

lemma run_good:
  "server_inv s \<Longrightarrow> server_run E s evs = Some (s', out) \<Longrightarrow> server_inv s' \<and> v_baseAEAD s' = v_baseAEAD s \<and> (list_all (\<lambda>ev. \<not> is_sweep ev) evs \<longrightarrow> good s s')"
proof (induction evs arbitrary: s out)
  case Nil
  then show ?case by (simp add: good_refl)
next
  case (Cons ev evs)
  obtain s1 o1 o2 where 1: "server_step E s ev = Some (s1, o1)" "server_run E s1 evs = Some (s', o2)"
    using Cons.prems(2) by (auto split: option.splits)
  note g = step_good [OF Cons.prems(1) 1(1)]
  show ?case using g Cons.IH [of s1 o2] 1(2) good_trans by auto
qed

lemma NewServer_inv: "NewServer E cfg now = Some (Inr s) \<Longrightarrow> server_inv s"
  unfolding NewServer_def
  by (auto simp: server_inv_def NewManager_def Count_def split: sum.splits if_splits option.splits)


section \<open>The answer to a handshake\<close>

text \<open>Operations that touch neither the set of sessions nor the handshake windows.\<close>

definition same_table :: "Server \<Rightarrow> Server \<Rightarrow> bool" where
  "same_table s s' \<longleftrightarrow> map fst (m_sessions (v_mgr s')) = map fst (m_sessions (v_mgr s)) \<and> m_firstWindows (v_mgr s') = m_firstWindows (v_mgr s)"

lemma same_table_trans: "same_table s s1 \<Longrightarrow> same_table s1 s2 \<Longrightarrow> same_table s s2" by (simp add: same_table_def)

lemma same_table_upd: "same_table s (upd_sess s sid f)"
proof (cases "Get (v_mgr s) sid")
  case (Some x)
  then have "sid \<in> set (map fst (m_sessions (v_mgr s)))" by (force simp: Get_def dest: map_of_SomeD)
  then show ?thesis using Some by (simp add: same_table_def upd_sess_def upd_session_def update_keys)
qed (simp add: same_table_def upd_sess_def upd_session_def)

lemma same_table_state: "same_table s (put_state s sid st)" by (simp add: same_table_def put_state_def)

lemma same_table_Get: "same_table s s' \<Longrightarrow> Get (v_mgr s') sid = None \<longleftrightarrow> Get (v_mgr s) sid = None"
proof -
  assume "same_table s s'"
  then have "set (map fst (m_sessions (v_mgr s'))) = set (map fst (m_sessions (v_mgr s)))" by (simp only: same_table_def)
  then show ?thesis by (simp add: Get_def map_of_eq_None_iff)
qed

lemma stateFor_frame: "stateFor s sid = (s', st) \<Longrightarrow> v_mgr s' = v_mgr s \<and> v_baseAEAD s' = v_baseAEAD s \<and> v_ann s' = v_ann s \<and> v_fecDec s' = v_fecDec s"
  by (auto simp: stateFor_def put_state_def split: option.splits)

lemma registerPath_session:
  assumes "Get (v_mgr s) sid = Some x"
  shows "\<exists>e. Get (v_mgr (registerPath s sid ua p now)) sid = Some (x\<lparr>s_endpoints := e\<rparr>)"
    and "v_baseAEAD (registerPath s sid ua p now) = v_baseAEAD s" "v_ann (registerPath s sid ua p now) = v_ann s"
    and "v_fecDec (registerPath s sid ua p now) = v_fecDec s" "same_table s (registerPath s sid ua p now)"
proof -
  obtain s1 st where st: "stateFor s sid = (s1, st)" by fastforce
  note f = stateFor_frame [OF st]
  have "\<exists>st'. registerPath s sid ua p now = put_state s1 sid st'
      \<or> registerPath s sid ua p now = upd_sess (put_state s1 sid st') sid (\<lambda>sess. SetEndpoint sess (UDPAddr_String ua) ua)"
    unfolding registerPath_def Let_def st prod.case by (simp only: case_prod_unfold split: if_split) blast
  then obtain st' where r: "registerPath s sid ua p now = put_state s1 sid st'
      \<or> registerPath s sid ua p now = upd_sess (put_state s1 sid st') sid (\<lambda>sess. SetEndpoint sess (UDPAddr_String ua) ua)" by blast
  have ex: "\<exists>e. x = x\<lparr>s_endpoints := e\<rparr>" by (rule exI [of _ "s_endpoints x"]) simp
  then show "\<exists>e. Get (v_mgr (registerPath s sid ua p now)) sid = Some (x\<lparr>s_endpoints := e\<rparr>)"
    using r f assms by (auto simp: put_state_def upd_sess_def upd_session_def Get_def update_conv' SetEndpoint_def intro: ex)
  show "v_baseAEAD (registerPath s sid ua p now) = v_baseAEAD s" "v_ann (registerPath s sid ua p now) = v_ann s"
    "v_fecDec (registerPath s sid ua p now) = v_fecDec s"
    using r f by (auto simp: put_state_def upd_sess_def)
  have "same_table s (put_state s1 sid st')" using f by (simp add: same_table_def put_state_def)
  then show "same_table s (registerPath s sid ua p now)" using r same_table_upd same_table_trans by metis
qed

definition ack_frame :: "u64 \<Rightarrow> u32 \<Rightarrow> bytes \<Rightarrow> frame" where
  "ack_frame sid q payload = zero_frame\<lparr>fFlags := FlagControl OR FlagKex, fSessionID := sid, fSeq := q, fPayload := payload\<rparr>"

lemma sendAck_answer:
  assumes "Get (v_mgr s) sid = Some x" "length (s_ServerPub x) + length (v_ann s) \<le> MaxPayload"
    and "ack = ack_frame sid (s_seq x + 1) (s_ServerPub x @ v_ann s)"
  shows "\<exists>s' b. sendAck E s sid ua = (s', [ToClient ua b]) \<and> Seal (v_baseAEAD s) DirServerToClient (header_bytes ack @ fPayload ack) = Inr b
    \<and> Get (v_mgr s') sid = Some (x\<lparr>s_seq := s_seq x + 1\<rparr>) \<and> same_table s s'"
proof -
  let ?s = "upd_sess s sid (\<lambda>_. x\<lparr>s_seq := s_seq x + 1\<rparr>)"
  have n: "next_server_seq s sid = (?s, s_seq x + 1)" using assms(1) by (simp add: next_server_seq_def Server_NextSeq_def)
  have e: "Encode ack = Inr (header_bytes ack @ fPayload ack)" using assms(2,3) by (intro Encode_ok) (simp add: ack_frame_def)
  obtain b where b: "Seal (v_baseAEAD s) DirServerToClient (header_bytes ack @ fPayload ack) = Inr b" using Seal_ok by fastforce
  have f: "zero_frame\<lparr>fFlags := FlagControl OR FlagKex, fSessionID := sid, fSeq := s_seq x + 1, fPayload := s_ServerPub x @ v_ann s\<rparr> = ack"
    by (simp add: assms(3) ack_frame_def)
  have "v_baseAEAD ?s = v_baseAEAD s" by (simp add: upd_sess_def)
  then have "sendAck E s sid ua = transmit E ?s ua b" using assms(1) n e b by (simp add: sendAck_def Let_def f sendToAddrKey_def)
  moreover have "Get (v_mgr (fst (transmit E ?s ua b))) sid = Some (x\<lparr>s_seq := s_seq x + 1\<rparr>)"
    using assms(1) by (simp add: transmit_def server_noteSendErr_def upd_sess_def upd_session_def Get_def update_conv')
  moreover have "same_table s (fst (transmit E ?s ua b))"
    using same_table_upd [of s sid "\<lambda>_. x\<lparr>s_seq := s_seq x + 1\<rparr>"] by (simp add: same_table_def transmit_def server_noteSendErr_def)
  ultimately show ?thesis using b by (simp add: transmit_def)
qed

lemma CheckFirst_new:
  assumes "map_of (m_firstWindows m) sid = None"
  shows "snd (CheckFirstReplay rng m sid q now)"
proof -
  have "snd (CheckAndMark (NewReplayWindow n) q)" for n using CheckAndMark_hist(2) [OF replay_hist_New [of n]] by (simp add: replay_fresh_def)
  then show ?thesis using assms by (simp add: CheckFirstReplay_def Let_def case_prod_unfold update_conv')
qed

text \<open>A frame sealed by a client opens, and its header is readable.\<close>

lemma sealed_opens:
  assumes "aead_ok a" "length (fPayload f) \<le> MaxPayload" "Seal a d (header_bytes f @ fPayload f) = Inr b"
  shows "Open a d b = Inr (header_bytes f @ fPayload f)" "Decode (header_bytes f @ fPayload f) = Inr (f\<lparr>fVersion := Version\<rparr>)"
    "DecodeHeader b = Inr (f\<lparr>fVersion := Version, fPayload := []\<rparr>)" "Encode f = Inr (header_bytes f @ fPayload f)"
proof -
  show "Open a d b = Inr (header_bytes f @ fPayload f)" using Open_Inr_iff [OF assms(1)] assms(3) by blast
  show "Decode (header_bytes f @ fPayload f) = Inr (f\<lparr>fVersion := Version\<rparr>)" using Decode_header_bytes assms(2) by simp
  have "b = header_bytes f @ aead_Seal a (makeNonce d (fSeq f)) (fPayload f) (header_bytes f)"
    using assms(3) Seal_ok [of "header_bytes f @ fPayload f" a d] by (simp add: frameSeq_header)
  then show "DecodeHeader b = Inr (f\<lparr>fVersion := Version, fPayload := []\<rparr>)" using DecodeHeader_header_bytes by simp
  show "Encode f = Inr (header_bytes f @ fPayload f)" using Encode_ok [OF assms(2)] .
qed

text \<open>
  A handshake of an unknown session at a server with room: the session exists afterwards, with
  the key both sides derive, and the acknowledgement carries the server's public key and the
  announcement, under number 1.
\<close>

lemma handshake_answer:
  assumes base: "aead_ok (v_baseAEAD s)" "Seal (v_baseAEAD s) DirClientToServer (header_bytes f @ fPayload f) = Inr b"
    and f: "length (fPayload f) \<le> MaxPayload" "4 + PublicKeySize \<le> length (fPayload f)" "HasFlag f FlagFirst"
    and room: "Get (v_mgr s) (fSessionID f) = None" "Count (v_mgr s) < maxSessions" "map_of (m_firstWindows (v_mgr s)) (fSessionID f) = None"
    and keys: "ECDHShared (ev_x E) kr (take PublicKeySize (drop 4 (fPayload f))) = Inr shared"
      "DerivePFSKey (ev_hmac E) (v_psk s) shared (fSessionID f) = Some key"
      "NewAEAD (ev_chacha E) (ev_gcm E) key (cc_Cipher (cf_Crypto (v_cfg s))) = Inr a" "NewEncoder (ev_rs E) (v_fecParams s) = Inr enc"
    and ack: "ack = ack_frame (fSessionID f) 1 (x_pub (ev_x E) kr @ v_ann s)" "length (fPayload ack) \<le> MaxPayload"
  shows "\<exists>s' c x. handleClientFrame E s b (Some ua) now (Some kr) (Some sock) = Some (s', [ToClient ua c])
    \<and> Seal (v_baseAEAD s) DirServerToClient (header_bytes ack @ fPayload ack) = Inr c
    \<and> Get (v_mgr s') (fSessionID f) = Some x \<and> s_ID x = fSessionID f \<and> s_aead x = a \<and> s_egress x = Some sock \<and> s_Enc x = Some enc \<and> s_seq x = 1 \<and> replay_hist (s_replay x) [fSeq f]
    \<and> same_table (s\<lparr>v_mgr := Put (fst (CheckFirstReplay (sv_first E) (v_mgr s) (fSessionID f) (fSeq f) now)) x\<rparr>) s'"
proof -
  let ?sid = "fSessionID f"
  note o = sealed_opens [OF base(1) f(1) base(2)]
  obtain m where m: "CheckFirstReplay (sv_first E) (v_mgr s) ?sid (fSeq f) now = (m, True)"
    using CheckFirst_new [OF room(3)] by (metis prod.collapse)
  let ?x = "SetEgress ((NewServerSession ?sid a now)\<lparr>s_ServerPub := x_pub (ev_x E) kr, s_Enc := Some enc\<rparr>) sock"
  let ?s1 = "s\<lparr>v_mgr := Put m ?x\<rparr>"
  have 1: "first_session E s ?sid (fSeq f) (fPayload f) now (Some kr) (Some sock) = Some (?s1, [], True)"
    using room m f(2) keys by (simp add: first_session_def establish_def GenerateEphemeralKey_def)
  have g1: "Get (v_mgr ?s1) ?sid = Some ?x" by (simp add: Get_def Put_def update_conv' SetEgress_def NewServerSession_def Touch_def)
  let ?y = "fst (Server_CheckReplay ?x (fSeq f))"
  let ?s2 = "upd_sess ?s1 ?sid (\<lambda>_. ?y)"
  have "snd (CheckAndMark (NewReplayWindow n) q)" for n q using CheckAndMark_hist(2) [OF replay_hist_New [of n]] by (simp add: replay_fresh_def)
  then have "snd (Server_CheckReplay ?x (fSeq f))"
    by (simp add: Server_CheckReplay_def SetEgress_def NewServerSession_def Touch_def Let_def case_prod_unfold)
  then have 2: "check_replay ?s1 ?sid (fSeq f) = (?s2, True)" using g1 by (simp add: check_replay_def Let_def case_prod_unfold)
  let ?s3 = "upd_sess ?s2 ?sid (\<lambda>sess. Touch sess now)"
  have g3: "Get (v_mgr ?s3) ?sid = Some (Touch ?y now)" using g1 by (simp add: upd_sess_def upd_session_def Get_def update_conv')
  let ?s4 = "registerPath ?s3 ?sid ua (fPayload f) now"
  obtain e where g4: "Get (v_mgr ?s4) ?sid = Some ((Touch ?y now)\<lparr>s_endpoints := e\<rparr>)" using registerPath_session(1) [OF g3] by blast
  have y: "s_ServerPub ?y = x_pub (ev_x E) kr" "s_seq ?y = 0" "s_aead ?y = a" "s_egress ?y = Some sock" "s_Enc ?y = Some enc" "s_ID ?y = ?sid"
    by (simp_all add: Server_CheckReplay_def SetEgress_def NewServerSession_def Touch_def Let_def case_prod_unfold)
  have yr: "replay_hist (s_replay ?y) [fSeq f]"
    using CheckAndMark_hist(1) [OF replay_hist_New]
    by (simp add: Server_CheckReplay_def SetEgress_def NewServerSession_def Touch_def Let_def case_prod_unfold)
  have b4: "v_baseAEAD ?s4 = v_baseAEAD s" "v_ann ?s4 = v_ann s" using registerPath_session(2,3) [OF g3] by (simp_all add: upd_sess_def)
  obtain s5 c where a5: "sendAck E ?s4 ?sid ua = (s5, [ToClient ua c])" "Seal (v_baseAEAD s) DirServerToClient (header_bytes ack @ fPayload ack) = Inr c"
      "Get (v_mgr s5) ?sid = Some ((Touch ?y now)\<lparr>s_endpoints := e, s_seq := 1\<rparr>)" "same_table ?s4 s5"
    using sendAck_answer [OF g4, of ack E ua] ack y b4 by (auto simp: Touch_def ack_frame_def)
  have "handleClientFrame E s b (Some ua) now (Some kr) (Some sock) = Some (s5, [ToClient ua c])"
    using o f(3) 1 2 a5(1) by (simp add: handleClientFrame_def handleFirst_def HasFlag_def Let_def)
  moreover have "same_table ?s1 s5"
    using same_table_trans [OF same_table_trans [OF same_table_upd same_table_upd] same_table_trans [OF registerPath_session(5) [OF g3] a5(4)]] .
  then have "same_table (s\<lparr>v_mgr := Put m ((Touch ?y now)\<lparr>s_endpoints := e, s_seq := 1\<rparr>)\<rparr>) s5"
    by (simp add: same_table_def Put_def update_keys Touch_def Server_CheckReplay_def SetEgress_def NewServerSession_def Let_def case_prod_unfold)
  ultimately show ?thesis using a5(2,3) y yr m by (auto simp: Touch_def)
qed

text \<open>Whatever an unknown session sends first, an acknowledgement it gets has number 1.\<close>

lemma first_session_new:
  assumes "Get (v_mgr s) sid = None" "first_session E s sid q p now k d = Some (s1, out, ok)"
  shows "(\<forall>x\<in>set out. \<exists>n. x = CloseSocket n) \<and> v_baseAEAD s1 = v_baseAEAD s \<and> (ok \<longrightarrow> (\<exists>x. Get (v_mgr s1) sid = Some x \<and> s_seq x = 0))"
  using assms unfolding first_session_def establish_def Let_def
  by (auto simp: Get_def Put_def update_conv' SetEgress_def NewServerSession_def Touch_def
      split: if_splits sum.splits option.splits prod.splits)

lemma sendAck_out:
  assumes "Get (v_mgr s) sid = Some x" "ToClient u c \<in> set (snd (sendAck E s sid ua))"
  shows "frameSeq c = s_seq x + 1 \<and> (\<exists>plain. Seal (v_baseAEAD s) DirServerToClient plain = Inr c)"
proof -
  let ?s = "upd_sess s sid (\<lambda>_. x\<lparr>s_seq := s_seq x + 1\<rparr>)"
  let ?f = "zero_frame\<lparr>fFlags := FlagControl OR FlagKex, fSessionID := sid, fSeq := s_seq x + 1, fPayload := s_ServerPub x @ v_ann s\<rparr>"
  have "sendAck E s sid ua = sendToAddrKey E ?s ua ?f (v_baseAEAD s)"
    using assms(1) by (simp add: sendAck_def next_server_seq_def Server_NextSeq_def upd_sess_def)
  then obtain plain where "Encode ?f = Inr plain" "Seal (v_baseAEAD s) DirServerToClient plain = Inr c"
    using assms(2) by (auto simp: sendToAddrKey_def transmit_def split: sum.splits)
  then show ?thesis using sealed_seq [of ?f plain] by auto
qed

lemma first_ack:
  assumes "handleClientFrame E s b a now k d = Some (s', out)" "DecodeHeader b = Inr hdr" "HasFlag hdr FlagFirst"
    and "Get (v_mgr s) (fSessionID hdr) = None" "ToClient u c \<in> set out"
  shows "frameSeq c = 1 \<and> (\<exists>plain. Seal (v_baseAEAD s) DirServerToClient plain = Inr c)"
proof -
  let ?sid = "fSessionID hdr"
  obtain ua where h: "handleFirst E s hdr b ua now k d = Some (s', out)"
    using assms(1,2,3,5) by (auto simp: handleClientFrame_def split: option.splits)
  obtain plain f s1 o1 ok where f: "Open (v_baseAEAD s) DirClientToServer b = Inr plain" "Decode plain = Inr f"
    and 1: "first_session E s ?sid (fSeq hdr) (fPayload f) now k d = Some (s1, o1, ok)"
    using h assms(5) by (auto simp: handleFirst_def Let_def split: sum.splits option.splits)
  have r: "(if \<not> ok then Some (s1, o1)
       else (case check_replay s1 ?sid (fSeq hdr) of (s, False) \<Rightarrow> Some (s, o1)
              | (s, True) \<Rightarrow> (case sendAck E (registerPath (upd_sess s ?sid (\<lambda>sess. Touch sess now)) ?sid ua (fPayload f) now) ?sid ua of
                    (s, ack) \<Rightarrow> Some (s, o1 @ ack)))) = Some (s', out)"
    using h f 1 by (cases ok) (simp_all add: handleFirst_def Let_def)
  note n = first_session_new [OF assms(4) 1]
  then have o1: "ToClient u c \<notin> set o1" by auto
  then have ok using r assms(5) by (auto split: if_splits)
  then obtain x where x: "Get (v_mgr s1) ?sid = Some x" "s_seq x = 0" using n by blast
  let ?y = "fst (Server_CheckReplay x (fSeq hdr))"
  let ?s2 = "upd_sess s1 ?sid (\<lambda>_. ?y)"
  have c2: "check_replay s1 ?sid (fSeq hdr) = (?s2, snd (Server_CheckReplay x (fSeq hdr)))" using x by (simp add: check_replay_def Let_def case_prod_unfold)
  let ?s3 = "upd_sess ?s2 ?sid (\<lambda>sess. Touch sess now)"
  have g3: "Get (v_mgr ?s3) ?sid = Some (Touch ?y now)" using x by (simp add: upd_sess_def upd_session_def Get_def update_conv')
  let ?s4 = "registerPath ?s3 ?sid ua (fPayload f) now"
  obtain e where g4: "Get (v_mgr ?s4) ?sid = Some ((Touch ?y now)\<lparr>s_endpoints := e\<rparr>)" using registerPath_session(1) [OF g3] by blast
  have b4: "v_baseAEAD ?s4 = v_baseAEAD s" using registerPath_session(2) [OF g3] n by (simp add: upd_sess_def)
  have "ToClient u c \<in> set (snd (sendAck E ?s4 ?sid ua))"
    using r \<open>ok\<close> c2 o1 assms(5) by (auto simp: Let_def case_prod_unfold split: bool.splits)
  from sendAck_out [OF g4 this] show ?thesis using b4 x(2) by (simp add: Touch_def Server_CheckReplay_def Let_def case_prod_unfold)
qed

section \<open>The effect of a keepalive\<close>

definition path_at :: "Server \<Rightarrow> u64 \<Rightarrow> udp_addr \<Rightarrow> pathState option" where
  "path_at s sid ua = Option.bind (map_of (v_states s) sid) (\<lambda>st. map_of (st_paths st) (UDPAddr_String ua))"

text \<open>The monitor of a path, or the one it is registered with.\<close>

definition path_health :: "Server \<Rightarrow> u64 \<Rightarrow> udp_addr \<Rightarrow> Monitor" where
  "path_health s sid ua =
     (case path_at s sid ua of
        Some ps \<Rightarrow> ph_health ps
      | None \<Rightarrow> New_Monitor (healthOptions (cf_Health (v_cfg s)) (monitorMaxLoss (v_fecParams s))))"

lemma path_at_stateFor:
  assumes "stateFor s sid = (s1, st)"
  shows "map_of (st_paths st) (UDPAddr_String ua) = path_at s sid ua" "v_cfg s1 = v_cfg s" "v_fecParams s1 = v_fecParams s"
  using assms by (auto simp: stateFor_def path_at_def new_state_def put_state_def split: option.splits)

lemma path_at_put: "path_at (put_state s sid st) sid ua = map_of (st_paths st) (UDPAddr_String ua)"
  by (simp add: path_at_def put_state_def update_conv')

lemma path_at_upd [simp]: "path_at (upd_sess s sid f) sid' ua = path_at s sid' ua"
  by (simp add: path_at_def upd_sess_def)

lemma path_health_upd [simp]: "path_health (upd_sess s sid f) sid' ua = path_health s sid' ua"
  by (simp add: path_health_def path_at_def upd_sess_def split: option.split)

lemma register_fresh:
  assumes "path_at (registerPath s sid ua [] now) sid ua = Some ps"
  shows "ph_lastArrive ps = now \<and> ph_health ps = path_health s sid ua"
proof -
  obtain s1 st where st: "stateFor s sid = (s1, st)" by fastforce
  note p = path_at_stateFor(1) [OF st, of ua] path_at_stateFor(2,3) [OF st]
  show ?thesis
  proof (cases "path_at s sid ua")
    case None
    then show ?thesis using assms st p
      by (auto simp: registerPath_def Let_def declare_capacity_def path_at_put path_health_def update_conv' split: if_splits)
  next
    case (Some ps')
    then show ?thesis using assms st p
      by (auto simp: registerPath_def Let_def declare_capacity_def path_at_put path_health_def update_conv')
  qed
qed

lemma server_interval_pos: "0 < server_interval s"
  by (simp add: server_interval_def Let_def defaultProbeInterval_def Second_def)

lemma observe_alive:
  assumes "path_at s sid ua = Some ps" "ph_lastArrive ps = now"
  shows "map_option ph_health (path_at (observeKeepalive s sid (UDPAddr_String ua) now) sid ua) = Some (ObserveSample (NoteAlive (ph_health ps)) (Fin 0) 0)"
proof -
  obtain s1 st where st: "stateFor s sid = (s1, st)" by fastforce
  have "ph_health (keepalive_sample (server_interval s1) now ps) = ObserveSample (NoteAlive (ph_health ps)) (Fin 0) 0"
    using assms(2) server_interval_pos [of s1] by (simp add: keepalive_sample_def Let_def sat64_def)
  then show ?thesis using st path_at_stateFor(1) [OF st, of ua] assms(1) by (simp add: observeKeepalive_def path_at_put update_conv')
qed

lemma observe_unknown: "path_at s sid ua = None \<Longrightarrow> path_at (observeKeepalive s sid (UDPAddr_String ua) now) sid ua = None"
  using path_at_stateFor(1) [of s sid _ _ ua]
  by (cases "stateFor s sid") (auto simp: observeKeepalive_def stateFor_def path_at_put new_state_def split: option.splits)

lemma sendPong_states: "v_states (fst (sendPong E s sid ua ts)) = v_states s"
  by (auto simp: sendPong_def sendToAddr_def transmit_def server_noteSendErr_def next_server_seq_def upd_sess_def Let_def
      split: option.split sum.split prod.split)

section \<open>A server for the witnesses\<close>

definition plain_fec :: FECCfg where
  "plain_fec = minimal_fec\<lparr>fc_Enabled := False\<rparr>"

definition demo_senv :: senv where
  "demo_senv = \<lparr>ev_rs = \<lambda>_ _. None, ev_hmac = plain_hmac, ev_chacha = \<lambda>_. Some plain_aead, ev_gcm = \<lambda>_. Some plain_aead,
     ev_x = plain_x25519, ev_rng = id, ev_blocks = id, ev_send = \<lambda>_ _. True,
     ev_unmarshal = \<lambda>_. Some \<lparr>an_Version = 1, an_MTU = 1420, an_FEC = plain_fec\<rparr>, ev_resolve = \<lambda>_. True,
     sv_first = id, sv_ids = id, sv_keys = id, sv_sendTo = \<lambda>_ _. True, sv_marshal = \<lambda>_. Some [1]\<rparr>"

definition server_doc :: Config where
  "server_doc = minimal_doc\<lparr>cf_Mode := ModeServer, cf_WGPeer := ''127.0.0.1:51820'', cf_FEC := plain_fec\<rparr>"

lemma server_doc_valid:
  "\<exists>cfg. Validate (\<lambda>_. True) server_doc = Inr cfg \<and> cf_WGPeer cfg \<noteq> [] \<and> cc_Key (cf_Crypto cfg) = ''secret'' \<and> cc_Cipher (cf_Crypto cfg) = ''chacha20poly1305''
     \<and> cf_FEC cfg = plain_fec \<and> cf_MTU cfg = 1420"
  by (simp add: Validate_def val_mode_def val_sched_def val_delivery_def val_mtu_def val_transport_def val_health_def val_crypto_def val_log_def
      val_telemetry_def val_queue_def minimal_doc_def or_default_def ensure_def config_consts DeliveryMaxPending_def
      SplitHostPort_def last_index_def itoa_1 [simplified] server_doc_def val_fec_def minimal_fec_def plain_fec_def)

lemma plain_key: "\<exists>key. derive plain_hmac psk salt info = Some key \<and> length key = keySize"
  using plain_hmac_ok derive_one_block [OF plain_hmac_ok] by (simp add: keySize_def hmac_ok_def)

lemma plain_AEAD: "length key = keySize \<Longrightarrow> NewAEAD (ev_chacha demo_senv) (ev_gcm demo_senv) key ''chacha20poly1305'' = Inr plain_aead"
  by (simp add: NewAEAD_def demo_senv_def)

definition demo_server_state :: "Server \<Rightarrow> bool" where
  "demo_server_state s \<longleftrightarrow> v_baseAEAD s = plain_aead \<and> v_ann s = [1] \<and> cc_Cipher (cf_Crypto (v_cfg s)) = ''chacha20poly1305'' \<and>
     v_psk s = str_bytes ''secret'' \<and> v_fecParams s = no_params"

lemma demo_server_exists: "\<exists>s. NewServer demo_senv server_doc 0 = Some (Inr s) \<and> demo_server_state s \<and> v_mgr s = NewManager"
proof -
  obtain cfg where cfg: "Validate (\<lambda>_. True) server_doc = Inr cfg" "cf_WGPeer cfg \<noteq> []" "cc_Key (cf_Crypto cfg) = ''secret''"
      "cc_Cipher (cf_Crypto cfg) = ''chacha20poly1305''" "cf_FEC cfg = plain_fec" "cf_MTU cfg = 1420"
    using server_doc_valid by blast
  obtain key where key: "DeriveKey plain_hmac (str_bytes ''secret'') = Inr (Some key)" "length key = keySize"
    using plain_key [of "str_bytes ''secret''"] by (auto simp: DeriveKey_def str_bytes_def)
  have p: "fecParamsFor plain_fec 1420 None = Inr no_params" by (simp add: fecParamsFor_def plain_fec_def minimal_fec_def no_params_def)
  show ?thesis using cfg key p plain_AEAD [OF key(2)] by (simp add: NewServer_def demo_senv_def demo_server_state_def)
qed

text \<open>A handshake frame of session \<open>sid\<close>.\<close>

definition first_frame :: "u64 \<Rightarrow> frame" where
  "first_frame sid = zero_frame\<lparr>fFlags := FlagFirst, fSessionID := sid, fSeq := 1, fPayload := make_bytes 36\<rparr>"

definition demo_first :: "u64 \<Rightarrow> bytes" where
  "demo_first sid = (case Seal plain_aead DirClientToServer (header_bytes (first_frame sid) @ make_bytes 36) of Inr b \<Rightarrow> b)"

definition demo_addr :: udp_addr where
  "demo_addr = \<lparr>ua_IP = [192, 0, 2, 7], ua_Port = 4000\<rparr>"

lemma demo_first_header: "DecodeHeader (demo_first sid) = Inr ((first_frame sid)\<lparr>fVersion := Version, fPayload := []\<rparr>)"
  "Seal plain_aead DirClientToServer (header_bytes (first_frame sid) @ fPayload (first_frame sid)) = Inr (demo_first sid)"
proof -
  show s: "Seal plain_aead DirClientToServer (header_bytes (first_frame sid) @ fPayload (first_frame sid)) = Inr (demo_first sid)"
    by (simp add: demo_first_def Seal_def Let_def) (simp add: first_frame_def)
  show "DecodeHeader (demo_first sid) = Inr ((first_frame sid)\<lparr>fVersion := Version, fPayload := []\<rparr>)"
    using sealed_opens(3) [OF plain_aead_ok _ s] by (simp add: first_frame_def MaxPayload_def)
qed

lemma demo_handshake:
  assumes "demo_server_state s" "Get (v_mgr s) sid = None" "Count (v_mgr s) < maxSessions" "map_of (m_firstWindows (v_mgr s)) sid = None"
  shows "\<exists>s' c. handleClientFrame demo_senv s (demo_first sid) (Some demo_addr) 0 (Some (make_bytes 32)) (Some 3) = Some (s', [ToClient demo_addr c])
    \<and> (\<exists>x. Get (v_mgr s') sid = Some x \<and> s_aead x = plain_aead \<and> s_egress x = Some 3)
    \<and> map fst (m_sessions (v_mgr s')) = map fst (m_sessions (v_mgr s)) @ [sid]
    \<and> m_firstWindows (v_mgr s') = m_firstWindows (fst (CheckFirstReplay id (v_mgr s) sid 1 0))"
proof -
  let ?f = "first_frame sid"
  have d: "v_baseAEAD s = plain_aead" "v_ann s = [1]" "cc_Cipher (cf_Crypto (v_cfg s)) = ''chacha20poly1305''" "v_psk s = str_bytes ''secret''"
    "v_fecParams s = no_params" using assms(1) by (simp_all add: demo_server_state_def)
  have f: "fSessionID ?f = sid" "fSeq ?f = 1" "fPayload ?f = make_bytes 36" "HasFlag ?f FlagFirst"
    by (simp_all add: first_frame_def HasFlag_def FlagFirst_def)
  have sh: "ECDHShared (ev_x demo_senv) (make_bytes 32) (take PublicKeySize (drop 4 (make_bytes 36))) = Inr (map2 (+) (make_bytes 32) (make_bytes 32))"
    by (simp add: ECDHShared_def PublicKeySize_def demo_senv_def plain_x25519_def make_bytes_def)
  obtain key where key: "DerivePFSKey (ev_hmac demo_senv) (v_psk s) (map2 (+) (make_bytes 32) (make_bytes 32)) sid = Some key" "length key = keySize"
    using plain_key [of "map2 (+) (make_bytes 32) (make_bytes 32)" "v_psk s" "str_bytes ''pfs-session:'' @ put_u64 sid"]
    by (auto simp: DerivePFSKey_def demo_senv_def)
  obtain enc where e: "NewEncoder (ev_rs demo_senv) (v_fecParams s) = Inr enc"
    by (auto simp: d NewEncoder_def no_params_def fill_params_def Enabled_def Let_def)
  have ack: "length (fPayload (ack_frame sid 1 (x_pub (ev_x demo_senv) (make_bytes 32) @ v_ann s))) \<le> MaxPayload"
    by (simp add: d ack_frame_def demo_senv_def plain_x25519_def MaxPayload_def)
  from handshake_answer [where E = demo_senv and s = s and f = ?f and b = "demo_first sid" and kr = "make_bytes 32" and ua = demo_addr and now = 0
      and sock = 3 and shared = "map2 (+) (make_bytes 32) (make_bytes 32)" and key = key and a = plain_aead and enc = enc, OF _ _ _ _ _ _ _ _ _ _ _ _ refl]
  obtain s' c x where h: "handleClientFrame demo_senv s (demo_first sid) (Some demo_addr) 0 (Some (make_bytes 32)) (Some 3) = Some (s', [ToClient demo_addr c])"
    "Get (v_mgr s') sid = Some x" "s_aead x = plain_aead" "s_egress x = Some 3" "s_ID x = sid"
    "same_table (s\<lparr>v_mgr := Put (fst (CheckFirstReplay (sv_first demo_senv) (v_mgr s) sid 1 0)) x\<rparr>) s'"
    using d f sh key e assms ack plain_aead_ok plain_AEAD [OF key(2)] demo_first_header(2) [of sid] by (auto simp: MaxPayload_def PublicKeySize_def)
  have "s_ID x = sid" using h(5) by simp
  moreover have "m_sessions (fst (CheckFirstReplay id (v_mgr s) sid 1 0)) = m_sessions (v_mgr s)"
    using CheckFirst_sessions by (metis prod.collapse)
  moreover have "sid \<notin> fst ` set (m_sessions (v_mgr s))" using assms(2) by (simp add: Get_def map_of_eq_None_iff)
  moreover have "sv_first demo_senv = id" by (simp add: demo_senv_def)
  ultimately have "map fst (m_sessions (v_mgr s')) = map fst (m_sessions (v_mgr s)) @ [sid]"
    "m_firstWindows (v_mgr s') = m_firstWindows (fst (CheckFirstReplay id (v_mgr s) sid 1 0))"
    using h(6) by (simp_all add: same_table_def Put_def update_keys)
  then show ?thesis using h(1-4) by blast
qed


section \<open>Properties\<close>

text \<open>
  C4: Nothing happens without a key. A datagram either leaves the server as it was and gets no
  reaction, or it is a sealing under the base key, when its header asks for a handshake, and
  otherwise one under the key of the session it names.
\<close>

theorem server_authenticates:
  assumes "aead_ok (v_baseAEAD s)" "\<And>sid x. Get (v_mgr s) sid = Some x \<Longrightarrow> aead_ok (s_aead x)"
  shows "handleClientFrame E s b a now k d = Some (s, []) \<or>
    (\<exists>hdr plain. DecodeHeader b = Inr hdr \<and>
      (if HasFlag hdr FlagFirst then Seal (v_baseAEAD s) DirClientToServer plain = Inr b
       else (\<exists>x. Get (v_mgr s) (fSessionID hdr) = Some x \<and> Seal (s_aead x) DirClientToServer plain = Inr b)))"
  (is "?silent \<or> ?sealed")
proof (cases "DecodeHeader b")
  case (Inl e)
  then show ?thesis by (simp add: handleClientFrame_def)
next
  case (Inr hdr)
  show ?thesis
  proof (cases "HasFlag hdr FlagFirst")
    case True
    then have "?silent \<or> (\<exists>plain. Open (v_baseAEAD s) DirClientToServer b = Inr plain)"
      using Inr by (auto simp: handleClientFrame_def handleFirst_def split: option.splits sum.splits)
    then show ?thesis using Inr True Open_Inr_iff [OF assms(1)] by auto
  next
    case False
    then have "?silent \<or> (\<exists>x plain. Get (v_mgr s) (fSessionID hdr) = Some x \<and> Open (s_aead x) DirClientToServer b = Inr plain)"
      using Inr by (auto simp: handleClientFrame_def handleData_def Let_def split: option.splits sum.splits)
    then show ?thesis using Inr False Open_Inr_iff assms(2) by fastforce
  qed
qed

theorem server_authenticates_witness:
  "\<exists>s s' out hdr plain. NewServer demo_senv server_doc 0 = Some (Inr s) \<and>
     handleClientFrame demo_senv s (demo_first 7) (Some demo_addr) 0 (Some (make_bytes 32)) (Some 3) = Some (s', out) \<and> out \<noteq> [] \<and>
     DecodeHeader (demo_first 7) = Inr hdr \<and> HasFlag hdr FlagFirst \<and> Seal (v_baseAEAD s) DirClientToServer plain = Inr (demo_first 7)"
proof -
  obtain s where s: "NewServer demo_senv server_doc 0 = Some (Inr s)" "demo_server_state s" "v_mgr s = NewManager" using demo_server_exists by blast
  obtain s' c where h: "handleClientFrame demo_senv s (demo_first 7) (Some demo_addr) 0 (Some (make_bytes 32)) (Some 3) = Some (s', [ToClient demo_addr c])"
    using demo_handshake [OF s(2), of 7] s(3) by (auto simp: NewManager_def Get_def Count_def maxSessions_def)
  have "HasFlag ((first_frame 7)\<lparr>fVersion := Version, fPayload := []\<rparr>) FlagFirst" by (simp add: first_frame_def HasFlag_def FlagFirst_def)
  then show ?thesis
    using server_authenticates [of s demo_senv "demo_first 7" "Some demo_addr" 0 "Some (make_bytes 32)" "Some 3"] s h plain_aead_ok demo_first_header(1) [of 7]
    by (auto simp: demo_server_state_def NewManager_def Get_def)
qed

text \<open>
  C5: No frame is taken twice. A datagram that was answered or handed on at any point of any
  run of a server gets no reaction from it later, whatever client frames, replies, ticks and
  reloads come in between, and wherever it comes from, as long as the sweeper has not removed
  the session.
\<close>

theorem server_takes_once:
  assumes "NewServer E cfg t = Some (Inr s0)" "server_run E s0 before = Some (s, out0)"
    and "handleClientFrame E s b a now k d = Some (s1, out)" "\<exists>x\<in>set out. \<forall>n. x \<noteq> CloseSocket n"
    and "server_run E s1 between = Some (s2, out2)" "list_all (\<lambda>ev. \<not> is_sweep ev) between"
  shows "\<exists>s3. handleClientFrame E s2 b a' now' k' d' = Some (s3, [])"
proof -
  have inv: "server_inv s" using run_good [OF NewServer_inv [OF assms(1)] assms(2)] by simp
  obtain hdr where hdr: "DecodeHeader b = Inr hdr" "refused s1 hdr" and g: "good s s1" using handle_good [OF inv assms(3)] assms(4) by blast
  have "good s1 s2" using run_good [OF good_inv [OF g] assms(5)] assms(6) by simp
  then show ?thesis using refused_silent [OF refused_good hdr(1)] hdr(2) by blast
qed

theorem server_takes_once_witness:
  "\<exists>s s1 out s2 s3. NewServer demo_senv server_doc 0 = Some (Inr s) \<and>
     handleClientFrame demo_senv s (demo_first 7) (Some demo_addr) 0 (Some (make_bytes 32)) (Some 3) = Some (s1, out) \<and> out \<noteq> [] \<and>
     server_run demo_senv s1 [ServerHealthTick 5] = Some (s2, []) \<and>
     handleClientFrame demo_senv s2 (demo_first 7) (Some demo_addr) 9 (Some (make_bytes 32)) (Some 4) = Some (s3, [])"
proof -
  obtain s where s: "NewServer demo_senv server_doc 0 = Some (Inr s)" "demo_server_state s" "v_mgr s = NewManager" using demo_server_exists by blast
  obtain s1 c where h: "handleClientFrame demo_senv s (demo_first 7) (Some demo_addr) 0 (Some (make_bytes 32)) (Some 3) = Some (s1, [ToClient demo_addr c])"
    using demo_handshake [OF s(2), of 7] s(3) by (auto simp: NewManager_def Get_def Count_def maxSessions_def)
  obtain s2 where r: "server_run demo_senv s1 [ServerHealthTick 5] = Some (s2, [])" by simp
  have "server_run demo_senv s [] = Some (s, [])" by simp
  from server_takes_once [OF s(1) this h _ r, of "Some demo_addr" 9 "Some (make_bytes 32)" "Some 4"] show ?thesis using s(1) h r by auto
qed

text \<open>
  C11: What clients can make the server hold is bounded. In every run there are at most 1024
  sessions, each stored under its own name with a sound replay window, and no session has more
  than 16 paths.
\<close>

theorem server_bounded:
  assumes "NewServer E cfg t = Some (Inr s0)" "server_run E s0 evs = Some (s, out)"
  shows "Count (v_mgr s) \<le> 1024 \<and> (\<forall>(sid, x)\<in>set (m_sessions (v_mgr s)). s_ID x = sid \<and> replay_inv (s_replay x))
    \<and> (\<forall>(sid, st)\<in>set (v_states s). length (st_paths st) \<le> 16)"
  using run_good [OF NewServer_inv [OF assms(1)] assms(2)]
  by (auto simp: server_inv_def list_all_iff maxSessions_def maxPathsPerSession_def)

theorem server_bounded_witness:
  "\<exists>s0 s out. NewServer demo_senv server_doc 0 = Some (Inr s0) \<and>
     server_run demo_senv s0 [ClientFrame (demo_first 7) (Some demo_addr) 0 (Some (make_bytes 32)) (Some 3), ServerHealthTick 5] = Some (s, out) \<and>
     out \<noteq> [] \<and> Count (v_mgr s) \<le> 1024 \<and> (\<forall>(sid, st)\<in>set (v_states s). length (st_paths st) \<le> 16)"
proof -
  obtain s0 where s0: "NewServer demo_senv server_doc 0 = Some (Inr s0)" "demo_server_state s0" "v_mgr s0 = NewManager" using demo_server_exists by blast
  obtain s1 c where h: "handleClientFrame demo_senv s0 (demo_first 7) (Some demo_addr) 0 (Some (make_bytes 32)) (Some 3) = Some (s1, [ToClient demo_addr c])"
    using demo_handshake [OF s0(2), of 7] s0(3) by (auto simp: NewManager_def Get_def Count_def maxSessions_def)
  have r: "server_run demo_senv s0 [ClientFrame (demo_first 7) (Some demo_addr) 0 (Some (make_bytes 32)) (Some 3), ServerHealthTick 5]
      = Some (server_health_tick demo_senv s1 5, [ToClient demo_addr c])" using h by simp
  show ?thesis using server_bounded [OF s0(1) r] s0(1) r by blast
qed


text \<open>
  C39: Handshakes reuse nonces. The acknowledgements to the first handshakes of any two sessions
  of a server are sealed under the same key, the base key, with the same nonce, whatever happens
  in between.
\<close>

theorem ack_nonce_repeats:
  assumes "NewServer E cfg t = Some (Inr s0)" "server_run E s0 evs = Some (s, out0)"
    and "handleClientFrame E s b a now k d = Some (s1, out)" "DecodeHeader b = Inr hdr" "HasFlag hdr FlagFirst"
    and "Get (v_mgr s) (fSessionID hdr) = None" "ToClient u c \<in> set out"
    and "server_run E s1 evs' = Some (s', out0')"
    and "handleClientFrame E s' b' a' now' k' d' = Some (s1', out')" "DecodeHeader b' = Inr hdr'" "HasFlag hdr' FlagFirst"
    and "Get (v_mgr s') (fSessionID hdr') = None" "ToClient u' c' \<in> set out'"
  shows "\<exists>plain plain'. Seal (v_baseAEAD s0) DirServerToClient plain = Inr c \<and> Seal (v_baseAEAD s0) DirServerToClient plain' = Inr c'
    \<and> makeNonce DirServerToClient (frameSeq c) = makeNonce DirServerToClient (frameSeq c')"
proof -
  have 0: "server_inv s" "v_baseAEAD s = v_baseAEAD s0" using run_good [OF NewServer_inv [OF assms(1)] assms(2)] by auto
  have g: "good s s1" using handle_good [OF 0(1) assms(3)] by simp
  have "v_baseAEAD s' = v_baseAEAD s0" using run_good [OF good_inv [OF g] assms(8)] g 0 by (simp add: good_def)
  then show ?thesis using first_ack [OF assms(3-7)] first_ack [OF assms(9-13)] 0 by auto
qed

theorem ack_nonce_repeats_witness:
  "\<exists>s s1 c s2 c'. NewServer demo_senv server_doc 0 = Some (Inr s) \<and>
     handleClientFrame demo_senv s (demo_first 7) (Some demo_addr) 0 (Some (make_bytes 32)) (Some 3) = Some (s1, [ToClient demo_addr c]) \<and>
     handleClientFrame demo_senv s1 (demo_first 8) (Some demo_addr) 0 (Some (make_bytes 32)) (Some 3) = Some (s2, [ToClient demo_addr c']) \<and>
     makeNonce DirServerToClient (frameSeq c) = makeNonce DirServerToClient (frameSeq c')"
proof -
  obtain s where s: "NewServer demo_senv server_doc 0 = Some (Inr s)" "demo_server_state s" "v_mgr s = NewManager" using demo_server_exists by blast
  have n7: "Get (v_mgr s) 7 = None" "Count (v_mgr s) < maxSessions" "map_of (m_firstWindows (v_mgr s)) 7 = None"
    using s(3) by (simp_all add: NewManager_def Get_def Count_def maxSessions_def)
  obtain s1 c where h: "handleClientFrame demo_senv s (demo_first 7) (Some demo_addr) 0 (Some (make_bytes 32)) (Some 3) = Some (s1, [ToClient demo_addr c])"
    and t: "map fst (m_sessions (v_mgr s1)) = [7]" "m_firstWindows (v_mgr s1) = m_firstWindows (fst (CheckFirstReplay id NewManager 7 1 0))"
    using demo_handshake [OF s(2) n7] s(3) by (auto simp: NewManager_def)
  have "demo_server_state s1" using handle_good [OF NewServer_inv [OF s(1)] h] s(2) by (simp add: good_def demo_server_state_def)
  moreover have "Get (v_mgr s1) 8 = None" using t(1) by (simp add: Get_def map_of_eq_None_iff flip: set_map)
  moreover have "Count (v_mgr s1) < maxSessions" using arg_cong [OF t(1), of length] by (simp add: Count_def maxSessions_def)
  moreover have "map_of (m_firstWindows (v_mgr s1)) 8 = None"
    unfolding t(2) by (simp add: CheckFirstReplay_def NewManager_def Let_def case_prod_unfold maxFirstWindows_def)
  ultimately obtain s2 c' where h': "handleClientFrame demo_senv s1 (demo_first 8) (Some demo_addr) 0 (Some (make_bytes 32)) (Some 3) = Some (s2, [ToClient demo_addr c'])"
    and n8: "Get (v_mgr s1) 8 = None" using demo_handshake by blast
  have f: "HasFlag ((first_frame i)\<lparr>fVersion := Version, fPayload := []\<rparr>) FlagFirst" "fSessionID ((first_frame i)\<lparr>fVersion := Version, fPayload := []\<rparr>) = i" for i
    by (simp_all add: first_frame_def HasFlag_def FlagFirst_def)
  have "\<exists>plain plain'. Seal (v_baseAEAD s) DirServerToClient plain = Inr c \<and> Seal (v_baseAEAD s) DirServerToClient plain' = Inr c'
    \<and> makeNonce DirServerToClient (frameSeq c) = makeNonce DirServerToClient (frameSeq c')"
    by (rule ack_nonce_repeats [OF s(1) _ h demo_first_header(1) f(1) _ _ _ h' demo_first_header(1) f(1), where evs = "[]" and evs' = "[]"])
       (simp_all add: f n7(1) n8)
  then show ?thesis using s(1) h h' by blast
qed


text \<open>
  C40: The server never books a lost keepalive. Whenever a keepalive is accepted, the monitor
  of its path gets a sample without loss, however long the path was silent before: the frame
  itself has refreshed the arrival time that the loss branch tests, and the branch for a first
  keepalive tests for a time that \<open>time.Unix\<close> does not return.
\<close>

theorem keepalive_never_lost:
  assumes "handleClientFrame E s b (Some ua) now k d = Some (s', out)" "DecodeHeader b = Inr hdr" "\<not> HasFlag hdr FlagFirst"
    and "Get (v_mgr s) (fSessionID hdr) = Some x" "Open (s_aead x) DirClientToServer b = Inr plain" "Decode plain = Inr f"
    and "HasFlag f FlagKeepalive" "snd (Server_CheckReplay x (fSeq hdr))" "path_at s' (fSessionID hdr) ua = Some ps"
  shows "ph_health ps = ObserveSample (NoteAlive (path_health s (fSessionID hdr) ua)) (Fin 0) 0"
proof -
  let ?sid = "fSessionID hdr"
  let ?s2 = "upd_sess s ?sid (\<lambda>_. fst (Server_CheckReplay x (fSeq hdr)))"
  let ?s3 = "upd_sess ?s2 ?sid (\<lambda>sess. Touch sess now)"
  let ?s4 = "registerPath ?s3 ?sid ua [] now"
  let ?s5 = "observeKeepalive ?s4 ?sid (UDPAddr_String ua) now"
  have "check_replay s ?sid (fSeq hdr) = (?s2, True)" using assms(4,8) by (simp add: check_replay_def Let_def case_prod_unfold)
  then have "s' = fst (sendPong E ?s5 ?sid ua (fPayload f))" using assms(1-7) by (simp add: handleClientFrame_def handleData_def Let_def)
  then have 5: "path_at ?s5 ?sid ua = Some ps" using assms(9) sendPong_states by (simp add: path_at_def)
  obtain ps4 where 4: "path_at ?s4 ?sid ua = Some ps4" using 5 observe_unknown by (cases "path_at ?s4 ?sid ua") auto
  show ?thesis using register_fresh [OF 4] observe_alive [OF 4] 5 by simp
qed

definition keepalive_frame :: frame where
  "keepalive_frame = zero_frame\<lparr>fFlags := FlagKeepalive, fSessionID := 7, fSeq := 1, fPayload := make_bytes 8\<rparr>"

theorem keepalive_never_lost_witness:
  "\<exists>s b s' out ps. v_mgr s = Put NewManager (NewServerSession 7 plain_aead 0) \<and>
     Seal plain_aead DirClientToServer (header_bytes keepalive_frame @ fPayload keepalive_frame) = Inr b \<and>
     handleClientFrame demo_senv s b (Some demo_addr) 1000000000000 None None = Some (s', out) \<and> path_at s' 7 demo_addr = Some ps \<and>
     ph_health ps = ObserveSample (NoteAlive (path_health s 7 demo_addr)) (Fin 0) 0"
proof -
  obtain s0 where s0: "NewServer demo_senv server_doc 0 = Some (Inr s0)" using demo_server_exists by blast
  let ?x = "NewServerSession 7 plain_aead 0" and ?f = keepalive_frame and ?now = "1000000000000 :: int"
  let ?s = "s0\<lparr>v_mgr := Put NewManager ?x, v_states := []\<rparr>"
  have f: "\<not> HasFlag ?f FlagFirst" "HasFlag ?f FlagKeepalive" "fSessionID ?f = 7" "fSeq ?f = 1" "length (fPayload ?f) \<le> MaxPayload"
    by (simp_all add: keepalive_frame_def HasFlag_def FlagKeepalive_def FlagFirst_def MaxPayload_def)
  obtain b where b: "Seal plain_aead DirClientToServer (header_bytes ?f @ fPayload ?f) = Inr b" using Seal_ok by fastforce
  note o = sealed_opens [OF plain_aead_ok f(5) b]
  have g: "Get (v_mgr ?s) 7 = Some ?x" by (simp add: Get_def Put_def NewManager_def NewServerSession_def Touch_def)
  have "snd (CheckAndMark (NewReplayWindow n) q)" for n q using CheckAndMark_hist(2) [OF replay_hist_New [of n]] by (simp add: replay_fresh_def)
  then have c: "snd (Server_CheckReplay ?x 1)" by (simp add: Server_CheckReplay_def NewServerSession_def Touch_def Let_def case_prod_unfold)
  let ?s3 = "upd_sess (upd_sess ?s 7 (\<lambda>_. fst (Server_CheckReplay ?x 1))) 7 (\<lambda>sess. Touch sess ?now)"
  let ?s5 = "observeKeepalive (registerPath ?s3 7 demo_addr [] ?now) 7 (UDPAddr_String demo_addr) ?now"
  have a: "s_aead ?x = plain_aead" by (simp add: NewServerSession_def Touch_def)
  have "check_replay ?s 7 1 = (upd_sess ?s 7 (\<lambda>_. fst (Server_CheckReplay ?x 1)), True)"
    using g c by (simp add: check_replay_def Let_def case_prod_unfold)
  then have h: "handleClientFrame demo_senv ?s b (Some demo_addr) ?now None None = Some (sendPong demo_senv ?s5 7 demo_addr (fPayload ?f))"
    using o f g a by (simp add: handleClientFrame_def handleData_def Let_def HasFlag_def)
  have "\<exists>ps4. path_at (registerPath ?s3 7 demo_addr [] ?now) 7 demo_addr = Some ps4"
    by (simp add: registerPath_def Let_def stateFor_def upd_sess_def new_state_def declare_capacity_def maxPathsPerSession_def path_at_def put_state_def)
  then obtain ps where ps: "path_at (fst (sendPong demo_senv ?s5 7 demo_addr (fPayload ?f))) 7 demo_addr = Some ps"
    using observe_alive register_fresh sendPong_states by (fastforce simp: path_at_def)
  have "ph_health ps = ObserveSample (NoteAlive (path_health ?s 7 demo_addr)) (Fin 0) 0"
    using keepalive_never_lost [OF _ o(3) _ _ _ o(2), of demo_senv ?s demo_addr ?now None None _ _ ?x ps] h o(1) f g c ps
    by (simp add: HasFlag_def NewServerSession_def Touch_def prod_eq_iff)
  then show ?thesis using b h ps
    by (intro exI [of _ ?s] exI [of _ b] exI [of _ "fst (sendPong demo_senv ?s5 7 demo_addr (fPayload ?f))"]
        exI [of _ "snd (sendPong demo_senv ?s5 7 demo_addr (fPayload ?f))"] exI [of _ ps]) simp
qed

end
