(* ===== verification/End_To_End.thy ===== *)
theory End_To_End
  imports Client_Runs Server_Runs
begin

text \<open>
  The two ends of the tunnel against each other: what the client sends is given to the server and
  what the server answers to the client. The lemmas here carry the handshake and one datagram in
  either direction through the handlers of both ends; the properties are in \<open>Spec2Isabelle\<close>.
\<close>

text \<open>
  Both ends use the same primitives, and these keep what their packages document: HMAC gives 32
  bytes, X25519 agrees, a 32-byte key makes an AEAD, and an AEAD opens exactly what it sealed.
\<close>

definition linked :: "env \<Rightarrow> senv \<Rightarrow> bool" where
  "linked Ec Es \<longleftrightarrow> ev_rs Ec = ev_rs Es \<and> ev_hmac Ec = ev_hmac Es \<and> ev_chacha Ec = ev_chacha Es \<and> ev_gcm Ec = ev_gcm Es \<and> ev_x Ec = ev_x Es \<and>
     hmac_ok (ev_hmac Es) \<and> x25519_ok (ev_x Es) \<and> (\<forall>k a. ev_chacha Es k = Some a \<or> ev_gcm Es k = Some a \<longrightarrow> aead_ok a) \<and>
     (\<forall>k. length k = keySize \<longrightarrow> ev_chacha Es k \<noteq> None \<and> ev_gcm Es k \<noteq> None)"

lemma NewAEAD_ok: "linked Ec Es \<Longrightarrow> NewAEAD (ev_chacha Es) (ev_gcm Es) key name = Inr a \<Longrightarrow> aead_ok a"
  by (auto simp: linked_def NewAEAD_def split: if_splits option.splits)

lemma NewAEAD_again:
  assumes "linked Ec Es" "NewAEAD (ev_chacha Es) (ev_gcm Es) key name = Inr a" "length key' = keySize"
  shows "\<exists>a'. NewAEAD (ev_chacha Es) (ev_gcm Es) key' name = Inr a'"
  using assms by (fastforce simp: linked_def NewAEAD_def split: if_splits option.splits)

lemma Validate_crypto: "Validate r c = Inr c' \<Longrightarrow> val_crypto (cf_Crypto c) = Inr (cf_Crypto c')"
  by (auto simp: Validate_def and_then_Inr Let_def val_mode_def split: if_splits)

section \<open>What a client keeps\<close>

definition ident :: "TClient \<Rightarrow> Config \<times> aead \<times> bytes \<times> bytes \<times> bytes \<times> aead option \<times> bool \<times> Client \<times> deliveryBuffer" where
  "ident c = (t_cfg c, t_baseAEAD c, t_psk c, t_clientPriv c, t_clientPub c, t_sessAEAD c, t_sessionReady c, t_sess c, t_delivery c)"

lemma ident_upd [simp]: "ident (upd_wan c i f) = ident c" "ident (c\<lparr>t_crossPath := b\<rparr>) = ident c"
  "ident (c\<lparr>t_mtu := m, t_adoptedFEC := fe\<rparr>) = ident c"
  by (simp_all add: ident_def upd_wan_def)

lemma ident_codecs: "new_codecs c enc dec = (c', i, j) \<Longrightarrow> ident c' = ident c"
  by (auto simp: new_codecs_def ident_def)

lemma ident_init: "init_cross E cfg c = Inr c' \<Longrightarrow> ident c' = ident c"
  by (auto simp: init_cross_def new_codecs_def ident_def Let_def split: if_splits sum.splits)

lemma ident_wan_codecs: "wan_codecs E p c = Inr (c', i, j) \<Longrightarrow> ident c' = ident c"
  by (cases "NewEncoder (ev_rs E) p") (auto simp: wan_codecs_def new_codecs_def ident_def split: if_splits)

lemma ident_add: "add_wan E cfg now wcfg c = Inr c' \<Longrightarrow> ident c' = ident c"
  by (auto simp: add_wan_def Let_def ident_def split: sum.splits dest!: ident_wan_codecs)

lemma ident_adds: "add_wans E cfg now ws c = Inr c' \<Longrightarrow> ident c' = ident c"
  by (induction ws arbitrary: c) (auto split: sum.splits dest!: ident_add)

lemma ident_adopt_wans: "ident (fst (adopt_wans E f mtu ns c)) = ident c"
  by (induction E f mtu ns c rule: adopt_wans.induct) (auto simp: ident_codecs split: sum.split prod.split)

lemma ident_adopt_cross: "ident (fst (adopt_cross E c f mtu)) = ident c"
  by (auto simp: adopt_cross_def new_codecs_def ident_def Let_def split: sum.split)

lemma adopted:
  assumes "applyAnnounce E c data = (c', None)"
  shows "ident c' = ident c \<and> (\<exists>ann. ev_unmarshal E data = Some ann \<and> t_mtu c' = an_MTU ann \<and>
    ((fc_Enabled (an_FEC ann) \<longrightarrow> \<not> feq (fc_MaxLossPct (an_FEC ann)) (Fin 0)) \<longrightarrow> t_adoptedFEC c' = Some (an_FEC ann)))"
proof -
  obtain ann where ann: "ev_unmarshal E data = Some ann" using assms by (auto simp: applyAnnounce_def split: if_splits option.splits)
  let ?f = "if fc_Enabled (an_FEC ann) \<and> feq (fc_MaxLossPct (an_FEC ann)) (Fin 0) then (an_FEC ann)\<lparr>fc_MaxLossPct := DefaultMaxLossPct\<rparr> else an_FEC ann"
  let ?c = "c\<lparr>t_crossPath := (fc_Mode ?f = FECCrosspath)\<rparr>"
  obtain d where d: "d = fst (if t_crossPath ?c then adopt_cross E ?c ?f (an_MTU ann) else adopt_wans E ?f (an_MTU ann) [0..<length (t_wans ?c)] ?c)"
      "c' = d\<lparr>t_mtu := an_MTU ann, t_adoptedFEC := Some ?f\<rparr>"
    using assms ann by (fastforce simp: applyAnnounce_def Let_def split: if_splits option.splits prod.splits)
  have "ident d = ident c" unfolding d(1) by (simp add: ident_adopt_cross ident_adopt_wans)
  then show ?thesis using ann d(2) by simp
qed

lemma new_client:
  assumes "NewTunnelClient E cfg idRandom (Some k) now = Some (Inr c)"
  shows "\<exists>crypto key a sid cfg'. val_crypto (cf_Crypto cfg) = Inr crypto \<and> cf_Crypto cfg' = crypto \<and> DeriveKey (ev_hmac E) (str_bytes (cc_Key crypto)) = Inr (Some key) \<and>
    NewAEAD (ev_chacha E) (ev_gcm E) key (cc_Cipher crypto) = Inr a \<and>
    (\<exists>g m. ident c = (cfg', a, str_bytes (cc_Key crypto), k, x_pub (ev_x E) k, None, False, NewClientWithID sid, newDeliveryBuffer g m))"
proof -
  obtain v where v: "Validate (ev_resolve E) cfg = Inr v" using assms by (auto simp: NewTunnelClient_def split: sum.splits)
  let ?v = "v\<lparr>cf_WANs := default_transports (cf_WANs v)\<rparr>"
  obtain key a sid d where d: "DeriveKey (ev_hmac E) (str_bytes (cc_Key (cf_Crypto v))) = Inr (Some key)"
      "NewAEAD (ev_chacha E) (ev_gcm E) key (cc_Cipher (cf_Crypto v)) = Inr a"
      "init_cross E ?v (client_base ?v a sid k (x_pub (ev_x E) k) now) = Inr d" "add_wans E ?v now (cf_WANs ?v) d = Inr c"
    using assms v unfolding NewTunnelClient_def Let_def GenerateEphemeralKey_def
    by (auto split: sum.splits if_splits option.splits)
  have "ident c = ident (client_base ?v a sid k (x_pub (ev_x E) k) now)" using ident_init [OF d(3)] ident_adds [OF d(4)] by simp
  then have "\<exists>g m. ident c = (?v, a, str_bytes (cc_Key (cf_Crypto v)), k, x_pub (ev_x E) k, None, False, NewClientWithID sid, newDeliveryBuffer g m)"
    by (simp add: ident_def client_base_def Let_def) blast
  moreover have "cf_Crypto ?v = cf_Crypto v" by simp
  ultimately show ?thesis using d(1,2) Validate_crypto [OF v] by blast
qed

lemma new_server:
  assumes "NewServer E cfg now = Some (Inr s)"
  shows "\<exists>key. val_crypto (cf_Crypto cfg) = Inr (cf_Crypto (v_cfg s)) \<and> DeriveKey (ev_hmac E) (str_bytes (cc_Key (cf_Crypto (v_cfg s)))) = Inr (Some key) \<and>
    NewAEAD (ev_chacha E) (ev_gcm E) key (cc_Cipher (cf_Crypto (v_cfg s))) = Inr (v_baseAEAD s) \<and> v_psk s = str_bytes (cc_Key (cf_Crypto (v_cfg s))) \<and>
    sv_marshal E \<lparr>an_Version = AnnounceVersion, an_MTU = cf_MTU (v_cfg s), an_FEC = cf_FEC (v_cfg s)\<rparr> = Some (v_ann s) \<and>
    fecParamsFor (cf_FEC (v_cfg s)) (cf_MTU (v_cfg s)) None = Inr (v_fecParams s) \<and>
    (fc_Enabled (cf_FEC (v_cfg s)) \<longrightarrow> \<not> feq (fc_MaxLossPct (cf_FEC (v_cfg s))) (Fin 0))"
proof -
  obtain v where v: "Validate (ev_resolve E) cfg = Inr v" using assms by (auto simp: NewServer_def split: sum.splits)
  have "fec_valid (sc_Affinity (cf_Scheduler v)) (cf_FEC v)" using Validate_valid [OF v] by (simp add: doc_valid_def)
  then have "fc_Enabled (cf_FEC v) \<longrightarrow> \<not> feq (fc_MaxLossPct (cf_FEC v)) (Fin 0)"
    by (auto simp: fec_valid_def pos_upto_def)
  then show ?thesis using assms v Validate_crypto [OF v] unfolding NewServer_def
    by (auto split: sum.splits if_splits option.splits)
qed

lemma step_fixed:
  assumes "server_inv s" "server_step E s ev = Some (s', out)"
  shows "v_cfg s' = v_cfg s \<and> v_psk s' = v_psk s \<and> v_ann s' = v_ann s \<and> v_fecParams s' = v_fecParams s"
proof (cases "is_sweep ev")
  case True
  then obtain now where "ev = Sweep now" by (cases ev) auto
  then show ?thesis using assms(2) by (auto simp: sweep_def Let_def case_prod_unfold)
next
  case False
  then show ?thesis using step_good [OF assms] by (simp add: good_def)
qed

lemma run_fixed:
  "server_inv s \<Longrightarrow> server_run E s evs = Some (s', out) \<Longrightarrow>
     v_cfg s' = v_cfg s \<and> v_psk s' = v_psk s \<and> v_ann s' = v_ann s \<and> v_fecParams s' = v_fecParams s"
proof (induction evs arbitrary: s out)
  case (Cons ev evs)
  obtain s1 o1 o2 where 1: "server_step E s ev = Some (s1, o1)" "server_run E s1 evs = Some (s', o2)"
    using Cons.prems(2) by (auto split: option.splits)
  show ?case using step_fixed [OF Cons.prems(1) 1(1)] step_good [OF Cons.prems(1) 1(1)] Cons.IH [OF _ 1(2)] by simp
qed simp

section \<open>The handshake\<close>

text \<open>
  The frames that really leave: those the transport wrote without an error and those the queue of
  the uplink accepted. A sealed frame that a full queue refuses, or whose write fails, is not among them.
\<close>

fun sent_of :: "env \<Rightarrow> client_out \<Rightarrow> bytes list" where
  "sent_of E (ToTransport wan b) = (if ev_send E wan b then [b] else [])"
| "sent_of E (ToQueue wan b ok) = (if ok then [b] else [])"
| "sent_of E (ToWG a b) = []"

definition sent_frames :: "env \<Rightarrow> client_out list \<Rightarrow> bytes list" where
  "sent_frames E out = concat (map (sent_of E) out)"

lemma sent_sealed: "subseq (sent_frames E out) (sealed_frames out)"
proof (induction out)
  case (Cons x out)
  have "subseq (sent_of E x) (sealed_of x)" by (cases x) simp_all
  then show ?case using Cons by (simp add: sent_frames_def sealed_frames_def list_emb_append_mono)
qed (simp add: sent_frames_def)

lemma sent_one: "sealed_frames out = [b] \<Longrightarrow> sent_frames E out \<noteq> [] \<Longrightarrow> sent_frames E out = [b]"
  using sent_sealed [of E out] by (auto elim: list_emb.cases)

text \<open>The uplink takes every frame of at most \<open>n\<close> bytes: its queue accepts it or, without a queue, its transport writes it.\<close>

definition takes :: "env \<Rightarrow> wanLink \<Rightarrow> nat \<Rightarrow> bool" where
  "takes E w n \<longleftrightarrow> (\<forall>b. length b \<le> n \<longrightarrow> (case w_q w of None \<Rightarrow> ev_send E (w_id w) b | Some q \<Rightarrow> snd (enqueue q b)))"

text \<open>A queue with room does, and so does one that evicts its oldest frames.\<close>

lemma queue_takes:
  assumes "w_q w = Some q" "q_inv q" "\<not> q_closed q" "int n \<le> q_maxBytes q" "q_drop q = dropOldest \<or> q_bytes q + int n \<le> q_maxBytes q"
  shows "takes E w n"
  using assms enqueue_accepts [OF assms(2)] by (force simp: takes_def)

lemma first_sent:
  assumes "handshake_send E c i = (c1, out)" "sealed_frames out = [b]" "length (t_clientPub c) = 32"
  shows "ident c1 = ident (fst (next_seq c)) \<and> (\<exists>f. Seal (t_baseAEAD c) DirClientToServer (header_bytes f @ fPayload f) = Inr b \<and> HasFlag f FlagFirst \<and>
    fSessionID f = c_ID (t_sess c) \<and> fSeq f = c_seq (t_sess c) + 1 \<and> length (fPayload f) = 36 \<and> drop 4 (fPayload f) = t_clientPub c)"
proof -
  obtain c0 q where n: "next_seq c = (c0, q)" by fastforce
  then have c0: "c_ID (t_sess c0) = c_ID (t_sess c)" "t_baseAEAD c0 = t_baseAEAD c" "t_wans c0 = t_wans c" "q = c_seq (t_sess c) + 1"
    by (auto simp: next_seq_def Client_NextSeq_def)
  let ?p = "copy_at 4 (t_clientPub c) (copy_at 0 (put_u32 (of_int (wn_CapacityMbps (w_cfg (t_wans c ! i))))) (make_bytes (4 + PublicKeySize)))"
  let ?f = "zero_frame\<lparr>fFlags := FlagFirst, fSessionID := c_ID (t_sess c), fSeq := q, fPayload := ?p\<rparr>"
  have p: "length ?p = 36" "drop 4 ?p = t_clientPub c" using assms(3) by (simp_all add: PublicKeySize_def copy_at_def)
  have e: "Encode ?f = Inr (header_bytes ?f @ ?p)" using Encode_ok [of ?f] p by (simp add: MaxPayload_def)
  have "ident c1 = ident c0 \<and> Seal (t_baseAEAD c) DirClientToServer (header_bytes ?f @ ?p) = Inr b"
    using assms(1,2) n e c0
    by (auto simp: handshake_send_def Client_send_def sendLocked_def sealed_frames_def Let_def HasFlag_def FlagFirst_def FlagPassSeq_def case_prod_unfold
        split: sum.splits option.splits)
  moreover have "HasFlag ?f FlagFirst" by (simp add: HasFlag_def FlagFirst_def)
  ultimately show ?thesis using p c0 n by (intro conjI exI [of _ ?f]) simp_all
qed

text \<open>
  Slot \<open>n\<close> of the client holds a fresh encoder and a fresh decoder for the settings \<open>f\<close> and the MTU; the
  client has adopted the settings when this holds for every uplink, with one pair for all in
  cross-path mode and the parameters of the uplink itself otherwise.
\<close>

definition codec_slot :: "rs_lib \<Rightarrow> FECCfg \<Rightarrow> int \<Rightarrow> WAN option \<Rightarrow> TClient \<Rightarrow> nat \<Rightarrow> bool" where
  "codec_slot rs_New f mtu w c n \<longleftrightarrow>
     (\<exists>k j p. w_enc (t_wans c ! n) = Some k \<and> k < length (t_encs c) \<and> w_dec (t_wans c ! n) = Some j \<and> j < length (t_decs c) \<and>
        fecParamsFor f mtu w = Inr p \<and> NewEncoder rs_New p = Inr (t_encs c ! k) \<and> t_decs c ! j = NewDecoder p)"

definition adopted_codecs :: "rs_lib \<Rightarrow> FECCfg \<Rightarrow> int \<Rightarrow> TClient \<Rightarrow> bool" where
  "adopted_codecs rs_New f mtu c \<longleftrightarrow> t_crossPath c = (fc_Mode f = FECCrosspath) \<and>
     (\<forall>n<length (t_wans c). codec_slot rs_New f mtu (if t_crossPath c then None else Some (cf_WANs (t_cfg c) ! n)) c n) \<and>
     (t_crossPath c \<longrightarrow> (\<forall>w\<in>set (t_wans c). w_enc w = t_xenc c \<and> w_dec w = t_xdec c))"

lemma adopted_fields: "adopted_codecs rs_New f mtu (c\<lparr>t_mtu := m, t_adoptedFEC := fe\<rparr>) = adopted_codecs rs_New f mtu c"
  by (simp add: adopted_codecs_def codec_slot_def)

lemma adopted_upd:
  assumes a: "adopted_codecs rs_New f mtu c" and g: "\<And>w. w_enc (g w) = w_enc w \<and> w_dec (g w) = w_dec w"
  shows "adopted_codecs rs_New f mtu (upd_wan (setSessionAEAD c a) i g)"
proof -
  let ?c = "upd_wan (setSessionAEAD c a) i g"
  have same: "t_crossPath ?c = t_crossPath c" "t_cfg ?c = t_cfg c" "t_encs ?c = t_encs c" "t_decs ?c = t_decs c" "t_xenc ?c = t_xenc c" "t_xdec ?c = t_xdec c"
    "t_wans ?c = (t_wans c)[i := g (t_wans c ! i)]" by (simp_all add: upd_wan_def setSessionAEAD_def)
  have w: "w_enc (t_wans ?c ! n) = w_enc (t_wans c ! n)" "w_dec (t_wans ?c ! n) = w_dec (t_wans c ! n)" if "n < length (t_wans c)" for n
    using that g by (cases "n = i"; simp add: same(7))+
  have len: "length (t_wans ?c) = length (t_wans c)" by (simp add: same(7))
  have slots: "\<forall>n<length (t_wans ?c). codec_slot rs_New f mtu (if t_crossPath ?c then None else Some (cf_WANs (t_cfg ?c) ! n)) ?c n"
    using a unfolding adopted_codecs_def codec_slot_def same(1-6) len by (metis w)
  have "\<forall>v\<in>set (t_wans ?c). w_enc v = t_xenc ?c \<and> w_dec v = t_xdec ?c" if "t_crossPath ?c"
  proof
    fix v assume "v \<in> set (t_wans ?c)"
    then obtain n where n: "n < length (t_wans c)" "v = t_wans ?c ! n" unfolding in_set_conv_nth len by blast
    then have "t_wans c ! n \<in> set (t_wans c)" by simp
    then show "w_enc v = t_xenc ?c \<and> w_dec v = t_xdec ?c" using a that w [OF n(1)] n(2) unfolding adopted_codecs_def same(1,5,6) by metis
  qed
  then show ?thesis using a slots unfolding adopted_codecs_def same(1) by blast
qed

lemma ack_taken:
  assumes "aead_ok (t_baseAEAD c)" "Seal (t_baseAEAD c) DirServerToClient (header_bytes f @ fPayload f) = Inr b" "length (fPayload f) \<le> MaxPayload"
    and "f = ack_frame (c_ID (t_sess c)) q (pub @ ann)" "length pub = 32" "\<not> t_sessionReady c"
    and "ECDHShared (ev_x E) (t_clientPriv c) pub = Inr shared" "DerivePFSKey (ev_hmac E) (t_psk c) shared (c_ID (t_sess c)) = Some key"
    and "NewAEAD (ev_chacha E) (ev_gcm E) key (cc_Cipher (cf_Crypto (t_cfg c))) = Inr a" "applyAnnounce E c ann = (d, None)"
  shows "\<exists>c'. client_recv E c i b now = Some (c', []) \<and> getSessionAEAD c' = (Some a, True) \<and> t_mtu c' = t_mtu d \<and> t_adoptedFEC c' = t_adoptedFEC d \<and>
    t_sess c' = t_sess d \<and> t_delivery c' = t_delivery d \<and> length (t_wans c') = length (t_wans d) \<and>
    (\<forall>rs_New fe mtu. adopted_codecs rs_New fe mtu d \<longrightarrow> adopted_codecs rs_New fe mtu c')"
proof -
  note o = sealed_opens [OF assms(1,3,2)]
  have f: "fSessionID f = c_ID (t_sess c)" "HasFlag f FlagKex" "fPayload f = pub @ ann"
    using assms(4) by (simp_all add: ack_frame_def HasFlag_def FlagKex_def FlagControl_def)
  have "ident d = ident c" using adopted [OF assms(10)] by simp
  then have d: "\<not> t_sessionReady d" using assms(6) by (simp add: ident_def)
  have "handleKexAck E c b = Some (setSessionAEAD d a, True)"
    using o f assms(5-10) by (simp add: handleKexAck_def PublicKeySize_def getSessionAEAD_def)
  then have "client_recv E c i b now = Some (upd_wan (setSessionAEAD d a) i (\<lambda>w. w\<lparr>w_lastRx := now\<rparr>), [])"
    using o f by (simp add: client_recv_def HasFlag_def)
  moreover have "adopted_codecs rs_New fe mtu d \<longrightarrow> adopted_codecs rs_New fe mtu (upd_wan (setSessionAEAD d a) i (\<lambda>w. w\<lparr>w_lastRx := now\<rparr>))" for rs_New fe mtu
    using adopted_upd [of rs_New fe mtu d "\<lambda>w. w\<lparr>w_lastRx := now\<rparr>" a i] by simp
  ultimately show ?thesis using d by (simp add: setSessionAEAD_def getSessionAEAD_def upd_wan_def)
qed

text \<open>
  The exchange of the handshake: the frame the client hands to the transport or the queue of uplink \<open>i\<close>,
  if these take it, the server's answer to it, and the client's reaction, with nothing lost after that.
\<close>

definition handshake :: "env \<Rightarrow> senv \<Rightarrow> TClient \<Rightarrow> nat \<Rightarrow> Server \<Rightarrow> udp_addr \<Rightarrow> bytes \<Rightarrow> nat \<Rightarrow> int \<Rightarrow> int \<Rightarrow> (TClient \<times> Server) option" where
  "handshake Ec Es c i s ua ks sock now now' =
     (let (c1, out) = handshake_send Ec c i in
      case sent_frames Ec out of
        [b] \<Rightarrow>
          (case handleClientFrame Es s b (Some ua) now (Some ks) (Some sock) of
             Some (s', [ToClient u b']) \<Rightarrow> (case client_recv Ec c1 i b' now' of Some (c2, []) \<Rightarrow> Some (c2, s') | _ \<Rightarrow> None)
           | _ \<Rightarrow> None)
      | _ \<Rightarrow> None)"

text \<open>
  A new client and a server, anywhere in its run, that can open a session: documents with the same
  crypto section, room for the session, private keys \<open>kc\<close> and \<open>ks\<close> that agree on a secret, an
  announcement that the client decodes to what the server encoded, and redundancy settings that
  fit every uplink of the client.
\<close>

definition codable :: "rs_lib \<Rightarrow> FECCfg \<Rightarrow> int \<Rightarrow> WAN option \<Rightarrow> bool" where
  "codable rs_New f mtu w \<longleftrightarrow> (\<exists>p enc. fecParamsFor f mtu w = Inr p \<and> NewEncoder rs_New p = Inr enc)"

definition can_meet :: "env \<Rightarrow> senv \<Rightarrow> TClient \<Rightarrow> bytes \<Rightarrow> Server \<Rightarrow> bytes \<Rightarrow> bool" where
  "can_meet Ec Es c kc s ks \<longleftrightarrow> linked Ec Es \<and>
     (\<exists>ccfg scfg idr tc ts s0 evs out. NewTunnelClient Ec ccfg idr (Some kc) tc = Some (Inr c) \<and> NewServer Es scfg ts = Some (Inr s0) \<and>
        server_run Es s0 evs = Some (s, out) \<and> cf_Crypto scfg = cf_Crypto ccfg) \<and>
     length kc = 32 \<and> length ks = 32 \<and> (\<exists>shared. ECDHShared (ev_x Es) ks (x_pub (ev_x Es) kc) = Inr shared) \<and>
     Get (v_mgr s) (c_ID (t_sess c)) = None \<and> Count (v_mgr s) < maxSessions \<and> map_of (m_firstWindows (v_mgr s)) (c_ID (t_sess c)) = None \<and>
     v_ann s \<noteq> [] \<and> length (v_ann s) + 32 \<le> MaxPayload \<and>
     ev_unmarshal Ec (v_ann s) = Some \<lparr>an_Version = AnnounceVersion, an_MTU = cf_MTU (v_cfg s), an_FEC = cf_FEC (v_cfg s)\<rparr> \<and>
     (\<forall>w\<in>insert None (Some ` set (cf_WANs (t_cfg c))). codable (ev_rs Es) (cf_FEC (v_cfg s)) (cf_MTU (v_cfg s)) w)"

lemma first_sends: "\<exists>c1 out b. handshake_send E c i = (c1, out) \<and> sealed_frames out = [b]"
  using handshake_seals [of E c i] by (cases "handshake_send E c i") (auto simp: length_Suc_conv)

lemma sent_is: "handshake_send E c i = (c1, out) \<Longrightarrow> sent_frames E out = [b] \<Longrightarrow> sealed_frames out = [b]"
  using first_sends [of E c i] sent_one [of out _ E] by fastforce

text \<open>An uplink that takes frames of the size of a sealed handshake takes the first frame.\<close>

lemma first_taken:
  assumes "takes E (t_wans c ! i) (HeaderSize + 4 + PublicKeySize + aead_Overhead (t_baseAEAD c))" "aead_ok (t_baseAEAD c)" "length (t_clientPub c) = 32"
    and "i < length (t_wans c)"
  shows "sent_frames E (snd (handshake_send E c i)) \<noteq> []"
proof -
  obtain c1 out b where s: "handshake_send E c i = (c1, out)" "sealed_frames out = [b]" using first_sends by blast
  then obtain f where f: "Seal (t_baseAEAD c) DirClientToServer (header_bytes f @ fPayload f) = Inr b" "length (fPayload f) = 36"
    using first_sent [OF s assms(3)] by blast
  then have "length b = HeaderSize + 4 + PublicKeySize + aead_Overhead (t_baseAEAD c)"
    using Seal_ok [of "header_bytes f @ fPayload f" "t_baseAEAD c" DirClientToServer] assms(2)
    by (auto simp: aead_ok_def HeaderSize_def PublicKeySize_def)
  then have t: "case w_q (t_wans c ! i) of None \<Rightarrow> ev_send E (w_id (t_wans c ! i)) b | Some q \<Rightarrow> snd (enqueue q b)"
    using assms(1) by (simp add: takes_def)
  have "out = (case w_q (t_wans c ! i) of None \<Rightarrow> [ToTransport (w_id (t_wans c ! i)) b] | Some q \<Rightarrow> [ToQueue (w_id (t_wans c ! i)) b (snd (enqueue q b))])"
    using s assms(4) by (auto simp: handshake_send_def Client_send_def sendLocked_def sealed_frames_def upd_wan_def next_seq_def Client_NextSeq_def Let_def HasFlag_def
        FlagFirst_def FlagPassSeq_def case_prod_unfold split: sum.splits option.splits)
  then show ?thesis using s(1) t by (cases "w_q (t_wans c ! i)") (simp_all add: sent_frames_def)
qed

lemma add_wans_length: "add_wans E cfg now ws c = Inr c' \<Longrightarrow> length (t_wans c') = length (t_wans c) + length ws"
proof (induction ws arbitrary: c)
  case (Cons w ws)
  have "t_wans d = t_wans c" if "wan_codecs E p c = Inr (d, i, j)" for p c d i j
    using that by (cases "NewEncoder (ev_rs E) p") (auto simp: wan_codecs_def new_codecs_def split: if_splits)
  then have "length (t_wans d) = length (t_wans c) + 1" if "add_wan E cfg now w c = Inr d" for d
    using that by (fastforce simp: add_wan_def Let_def split: sum.splits)
  then show ?case using Cons by (fastforce split: sum.splits)
qed simp

lemma new_client_wans: "NewTunnelClient E cfg idRandom k now = Some (Inr c) \<Longrightarrow> length (t_wans c) = length (cf_WANs (t_cfg c))"
proof -
  assume "NewTunnelClient E cfg idRandom k now = Some (Inr c)"
  then obtain v a sid priv pub d where d: "init_cross E v (client_base v a sid priv pub now) = Inr d" "add_wans E v now (cf_WANs v) d = Inr c"
    unfolding NewTunnelClient_def Let_def by (auto split: sum.splits if_splits option.splits)
  have "ident c = ident (client_base v a sid priv pub now)" using ident_init [OF d(1)] ident_adds [OF d(2)] by simp
  then have "t_cfg c = v" by (simp add: ident_def client_base_def Let_def)
  moreover have "t_wans d = []" using d(1) by (auto simp: init_cross_def client_base_def new_codecs_def Let_def split: if_splits sum.splits)
  ultimately show ?thesis using add_wans_length [OF d(2)] by simp
qed

lemma adopt_wans_ok:
  "(\<forall>n\<in>set ns. codable (ev_rs E) f mtu (Some (cf_WANs (t_cfg c) ! n))) \<Longrightarrow> snd (adopt_wans E f mtu ns c) = None"
proof (induction E f mtu ns c rule: adopt_wans.induct)
  case (2 E f mtu n ns c)
  then obtain p enc where p: "fecParamsFor f mtu (Some (cf_WANs (t_cfg c) ! n)) = Inr p" "NewEncoder (ev_rs E) p = Inr enc" by (auto simp: codable_def)
  obtain c1 i j where c1: "new_codecs c enc (NewDecoder p) = (c1, i, j)" by (metis prod_cases3)
  then have "t_cfg c1 = t_cfg c" by (auto simp: new_codecs_def)
  then show ?case using 2 p c1 by (simp add: upd_wan_def)
qed simp

lemma adopt_slot:
  "adopt_wans E f mtu ns c = (c', None) \<Longrightarrow> n < length (t_wans c) \<Longrightarrow> n \<in> set ns \<or> codec_slot (ev_rs E) f mtu (Some (cf_WANs (t_cfg c) ! n)) c n \<Longrightarrow>
     codec_slot (ev_rs E) f mtu (Some (cf_WANs (t_cfg c) ! n)) c' n"
proof (induction E f mtu ns c rule: adopt_wans.induct)
  case (2 E f mtu m ns c)
  obtain p enc where p: "fecParamsFor f mtu (Some (cf_WANs (t_cfg c) ! m)) = Inr p" "NewEncoder (ev_rs E) p = Inr enc"
    using 2(2) by (auto split: sum.splits)
  obtain c1 i j where c1: "new_codecs c enc (NewDecoder p) = (c1, i, j)" by (metis prod_cases3)
  then have w: "t_wans c1 = t_wans c" "t_cfg c1 = t_cfg c" "t_encs c1 = t_encs c @ [enc]" "t_decs c1 = t_decs c @ [NewDecoder p]" "i = length (t_encs c)" "j = length (t_decs c)"
    by (auto simp: new_codecs_def)
  let ?c2 = "upd_wan c1 m (\<lambda>w. w\<lparr>w_enc := Some i, w_dec := Some j\<rparr>)"
  have "adopt_wans E f mtu ns ?c2 = (c', None)" "n < length (t_wans ?c2)" "t_cfg ?c2 = t_cfg c" using 2(2,3) p c1 w by (simp_all add: upd_wan_def)
  moreover have "n \<in> set ns \<or> codec_slot (ev_rs E) f mtu (Some (cf_WANs (t_cfg ?c2) ! n)) ?c2 n"
  proof (cases "n = m")
    case True
    then have "codec_slot (ev_rs E) f mtu (Some (cf_WANs (t_cfg ?c2) ! n)) ?c2 n"
      using 2(3) p w by (simp add: codec_slot_def upd_wan_def)
    then show ?thesis ..
  next
    case False
    then show ?thesis using 2(4) w by (auto simp: codec_slot_def upd_wan_def nth_append)
  qed
  ultimately show ?case using 2(1) [OF p c1 [symmetric] refl] by simp
qed simp

lemma adopt_flag: "t_crossPath (fst (adopt_wans E f mtu ns c)) = t_crossPath c"
  by (induction E f mtu ns c rule: adopt_wans.induct) (auto simp: upd_wan_def new_codecs_def split: sum.split)

lemma adopt_length: "length (t_wans (fst (adopt_wans E f mtu ns c))) = length (t_wans c)"
  by (induction E f mtu ns c rule: adopt_wans.induct) (auto simp: upd_wan_def new_codecs_def split: sum.split)

lemma announce_taken:
  assumes "v_ann s \<noteq> []" "ev_unmarshal E (v_ann s) = Some \<lparr>an_Version = AnnounceVersion, an_MTU = mtu, an_FEC = f\<rparr>"
    and "fc_Enabled f \<longrightarrow> \<not> feq (fc_MaxLossPct f) (Fin 0)" "length (t_wans c) = length (cf_WANs (t_cfg c))"
    and "\<forall>w\<in>insert None (Some ` set (cf_WANs (t_cfg c))). codable (ev_rs E) f mtu w"
  shows "\<exists>d. applyAnnounce E c (v_ann s) = (d, None) \<and> adopted_codecs (ev_rs E) f mtu d \<and> length (t_wans d) = length (t_wans c)"
proof -
  let ?c = "c\<lparr>t_crossPath := (fc_Mode f = FECCrosspath)\<rparr>"
  have norm: "(if fc_Enabled f \<and> feq (fc_MaxLossPct f) (Fin 0) then f\<lparr>fc_MaxLossPct := DefaultMaxLossPct\<rparr> else f) = f" using assms(3) by auto
  have u: "applyAnnounce E c (v_ann s) =
      (let (d, err) = (if fc_Mode f = FECCrosspath then adopt_cross E ?c f mtu else adopt_wans E f mtu [0..<length (t_wans c)] ?c)
       in case err of Some e \<Rightarrow> (d, Some e) | None \<Rightarrow> (d\<lparr>t_mtu := mtu, t_adoptedFEC := Some f\<rparr>, None))"
    using assms(1,2) norm by (simp add: applyAnnounce_def Let_def)
  show ?thesis
  proof (cases "fc_Mode f = FECCrosspath")
    case True
    obtain p enc where "fecParamsFor f mtu None = Inr p" "NewEncoder (ev_rs E) p = Inr enc" using assms(5) by (auto simp: codable_def)
    then show ?thesis using True unfolding u by (simp add: adopt_cross_def new_codecs_def adopted_codecs_def codec_slot_def)
  next
    case False
    have "\<forall>n\<in>set [0..<length (t_wans c)]. codable (ev_rs E) f mtu (Some (cf_WANs (t_cfg ?c) ! n))" using assms(4,5) by simp
    then obtain d where d: "adopt_wans E f mtu [0..<length (t_wans c)] ?c = (d, None)" using adopt_wans_ok [of "[0..<length (t_wans c)]" E f mtu ?c] by (metis prod.collapse)
    have "t_cfg d = t_cfg c" using ident_adopt_wans [of E f mtu "[0..<length (t_wans c)]" ?c] d by (simp add: ident_def)
    then have "length (t_wans d) = length (t_wans c)" "adopted_codecs (ev_rs E) f mtu d"
      using adopt_slot [OF d] adopt_length [of E f mtu "[0..<length (t_wans c)]" ?c] adopt_flag [of E f mtu "[0..<length (t_wans c)]" ?c] d False
      by (simp_all add: adopted_codecs_def)
    then show ?thesis using False d unfolding u by (simp add: adopted_fields)
  qed
qed

lemma keeps_wans: "handshake_send E c i = (c1, out) \<Longrightarrow> length (t_wans c1) = length (t_wans c)"
proof -
  assume h: "handshake_send E c i = (c1, out)"
  obtain c0 q where n: "next_seq c = (c0, q)" by fastforce
  have "length (t_wans (fst (sendLocked E d i f a))) = length (t_wans d)" for d f a
    by (auto simp: sendLocked_def upd_wan_def Let_def case_prod_unfold split: option.split sum.split)
  then show ?thesis using h n by (auto simp: handshake_send_def Client_send_def Let_def case_prod_unfold next_seq_def Client_NextSeq_def)
qed


text \<open>The keys both ends hold before they talk, and the ones they will derive.\<close>

lemma meeting_keys:
  assumes m: "can_meet Ec Es c kc s ks"
  shows "\<exists>shared key a enc g mx. server_inv s \<and> aead_ok (v_baseAEAD s) \<and> aead_ok a \<and> cf_Crypto (t_cfg c) = cf_Crypto (v_cfg s) \<and>
    t_baseAEAD c = v_baseAEAD s \<and> t_psk c = v_psk s \<and> t_clientPriv c = kc \<and> t_clientPub c = x_pub (ev_x Es) kc \<and> \<not> t_sessionReady c \<and>
    c_seq (t_sess c) = 0 \<and> c_replay (t_sess c) = NewReplayWindow DefaultReplayWindow \<and> t_delivery c = newDeliveryBuffer g mx \<and>
    ECDHShared (ev_x Es) ks (x_pub (ev_x Es) kc) = Inr shared \<and> ECDHShared (ev_x Es) kc (x_pub (ev_x Es) ks) = Inr shared \<and>
    DerivePFSKey (ev_hmac Es) (v_psk s) shared (c_ID (t_sess c)) = Some key \<and> NewAEAD (ev_chacha Es) (ev_gcm Es) key (cc_Cipher (cf_Crypto (v_cfg s))) = Inr a \<and>
    NewEncoder (ev_rs Es) (v_fecParams s) = Inr enc \<and> length (t_wans c) = length (cf_WANs (t_cfg c)) \<and>
    (fc_Enabled (cf_FEC (v_cfg s)) \<longrightarrow> \<not> feq (fc_MaxLossPct (cf_FEC (v_cfg s))) (Fin 0))"
proof -
  have world: "linked Ec Es" using m by (simp add: can_meet_def)
  then have same: "ev_hmac Ec = ev_hmac Es" "ev_chacha Ec = ev_chacha Es" "ev_gcm Ec = ev_gcm Es" "ev_x Ec = ev_x Es" "x25519_ok (ev_x Es)" "hmac_ok (ev_hmac Es)"
    by (simp_all add: linked_def)
  obtain ccfg scfg idr tc ts s0 evs out where new: "NewTunnelClient Ec ccfg idr (Some kc) tc = Some (Inr c)" "NewServer Es scfg ts = Some (Inr s0)"
      "server_run Es s0 evs = Some (s, out)" "cf_Crypto scfg = cf_Crypto ccfg" using m unfolding can_meet_def by blast
  obtain shared where shared: "ECDHShared (ev_x Es) ks (x_pub (ev_x Es) kc) = Inr shared" "length kc = 32" "length ks = 32" using m unfolding can_meet_def by blast
  note fixed = run_good [OF NewServer_inv [OF new(2)] new(3)] run_fixed [OF NewServer_inv [OF new(2)] new(3)]
  obtain bkey where n: "val_crypto (cf_Crypto ccfg) = Inr (cf_Crypto (v_cfg s))" "v_psk s = str_bytes (cc_Key (cf_Crypto (v_cfg s)))"
      "DeriveKey (ev_hmac Es) (str_bytes (cc_Key (cf_Crypto (v_cfg s)))) = Inr (Some bkey)"
      "NewAEAD (ev_chacha Es) (ev_gcm Es) bkey (cc_Cipher (cf_Crypto (v_cfg s))) = Inr (v_baseAEAD s)"
      "fc_Enabled (cf_FEC (v_cfg s)) \<longrightarrow> \<not> feq (fc_MaxLossPct (cf_FEC (v_cfg s))) (Fin 0)" "fecParamsFor (cf_FEC (v_cfg s)) (cf_MTU (v_cfg s)) None = Inr (v_fecParams s)"
    using new_server [OF new(2)] fixed new(4) by auto
  obtain g mx where c: "cf_Crypto (t_cfg c) = cf_Crypto (v_cfg s)"
      "t_baseAEAD c = v_baseAEAD s \<and> t_psk c = v_psk s \<and> t_clientPriv c = kc \<and> t_clientPub c = x_pub (ev_x Es) kc \<and> \<not> t_sessionReady c \<and>
    c_seq (t_sess c) = 0 \<and> c_replay (t_sess c) = NewReplayWindow DefaultReplayWindow \<and> t_delivery c = newDeliveryBuffer g mx"
    using new_client [OF new(1)] n same by (auto simp: ident_def NewClientWithID_def)
  obtain enc where enc: "NewEncoder (ev_rs Es) (v_fecParams s) = Inr enc" using m n(6) by (auto simp: can_meet_def codable_def)
  obtain key where key: "DerivePFSKey (ev_hmac Es) (v_psk s) shared (c_ID (t_sess c)) = Some key" "length key = keySize"
    using derive_one_block [OF same(6)] same(6) by (auto simp: DerivePFSKey_def keySize_def hmac_ok_def Let_def)
  obtain a where a: "NewAEAD (ev_chacha Es) (ev_gcm Es) key (cc_Cipher (cf_Crypto (v_cfg s))) = Inr a" using NewAEAD_again [OF world n(4) key(2)] by blast
  have "ECDHShared (ev_x Es) kc (x_pub (ev_x Es) ks) = Inr shared" using ECDHShared_agree [OF same(5) shared(2,3)] shared by simp
  then show ?thesis using NewAEAD_ok [OF world n(4)] NewAEAD_ok [OF world a] c shared(1) key(1) a enc new_client_wans [OF new(1)] n(5) fixed by blast
qed

text \<open>The server's half: its answer to the client's first frame, and the session it has then.\<close>

lemma meeting_answer:
  assumes m: "can_meet Ec Es c kc s ks" and sent: "handshake_send Ec c i = (c1, out)" "sealed_frames out = [b]"
  shows "\<exists>shared key a enc s' b' x. ECDHShared (ev_x Es) kc (x_pub (ev_x Es) ks) = Inr shared \<and>
    DerivePFSKey (ev_hmac Es) (v_psk s) shared (c_ID (t_sess c)) = Some key \<and> NewAEAD (ev_chacha Es) (ev_gcm Es) key (cc_Cipher (cf_Crypto (v_cfg s))) = Inr a \<and>
    aead_ok a \<and> NewEncoder (ev_rs Es) (v_fecParams s) = Inr enc \<and> handleClientFrame Es s b (Some ua) now (Some ks) (Some sock) = Some (s', [ToClient ua b']) \<and>
    (let ack = ack_frame (c_ID (t_sess c)) 1 (x_pub (ev_x Es) ks @ v_ann s) in Seal (v_baseAEAD s) DirServerToClient (header_bytes ack @ fPayload ack) = Inr b') \<and>
    Get (v_mgr s') (c_ID (t_sess c)) = Some x \<and> s_aead x = a \<and> s_egress x = Some sock \<and> s_seq x = 1 \<and> s_Enc x = Some enc \<and> snd (Server_CheckReplay x 2) \<and>
    v_fecParams s' = v_fecParams s"
proof -
  let ?sid = "c_ID (t_sess c)" and ?pc = "x_pub (ev_x Es) kc" and ?ps = "x_pub (ev_x Es) ks"
  let ?ack = "ack_frame ?sid 1 (?ps @ v_ann s)"
  have pub: "length ?pc = 32" "length ?ps = 32" using m by (simp_all add: can_meet_def linked_def x25519_ok_def)
  have room: "Get (v_mgr s) ?sid = None" "Count (v_mgr s) < maxSessions" "map_of (m_firstWindows (v_mgr s)) ?sid = None" "length (v_ann s) + 32 \<le> MaxPayload"
    using m unfolding can_meet_def by blast+
  obtain shared key a enc where k: "aead_ok (v_baseAEAD s)" "aead_ok a" "t_baseAEAD c = v_baseAEAD s" "t_clientPub c = ?pc" "c_seq (t_sess c) = 0"
      "ECDHShared (ev_x Es) ks ?pc = Inr shared" "ECDHShared (ev_x Es) kc ?ps = Inr shared" "DerivePFSKey (ev_hmac Es) (v_psk s) shared ?sid = Some key"
      "NewAEAD (ev_chacha Es) (ev_gcm Es) key (cc_Cipher (cf_Crypto (v_cfg s))) = Inr a" "NewEncoder (ev_rs Es) (v_fecParams s) = Inr enc"
    and inv: "server_inv s" using meeting_keys [OF m] by blast
  obtain f where f: "Seal (v_baseAEAD s) DirClientToServer (header_bytes f @ fPayload f) = Inr b" "HasFlag f FlagFirst" "fSessionID f = ?sid"
      "length (fPayload f) = 36" "drop 4 (fPayload f) = ?pc" "fSeq f = 1"
    using first_sent [OF sent] pub k(3-5) by auto
  have l: "length (fPayload ?ack) \<le> MaxPayload" using room(4) pub by (simp add: ack_frame_def)
  have t: "take PublicKeySize (drop 4 (fPayload f)) = ?pc" using f(5) pub by (simp add: PublicKeySize_def)
  obtain s' b' x where h: "handleClientFrame Es s b (Some ua) now (Some ks) (Some sock) = Some (s', [ToClient ua b'])"
      "Seal (v_baseAEAD s) DirServerToClient (header_bytes ?ack @ fPayload ?ack) = Inr b'" "Get (v_mgr s') ?sid = Some x" "s_aead x = a" "s_egress x = Some sock"
      "s_seq x = 1" "s_Enc x = Some enc" "replay_hist (s_replay x) [1]"
    using handshake_answer [OF k(1) f(1), of Es ks shared key a enc ?ack ua now sock] f room k(6,8-10) l t
    by (auto simp: MaxPayload_def PublicKeySize_def)
  have "snd (Server_CheckReplay x 2)"
    using CheckAndMark_hist(2) [OF h(8), of 2] by (simp add: Server_CheckReplay_def case_prod_unfold Let_def replay_fresh_def)
  moreover have "v_fecParams s' = v_fecParams s" using handle_good [OF inv h(1)] by (simp add: good_def)
  ultimately show ?thesis unfolding Let_def using k h by blast
qed

text \<open>The client's half: it takes the answer, derives the same key and adopts the announced settings.\<close>

lemma meeting_adopts:
  assumes m: "can_meet Ec Es c kc s ks" and sent: "handshake_send Ec c i = (c1, out)" "sealed_frames out = [b]"
    and key: "ECDHShared (ev_x Es) kc (x_pub (ev_x Es) ks) = Inr shared" "DerivePFSKey (ev_hmac Es) (v_psk s) shared (c_ID (t_sess c)) = Some key"
      "NewAEAD (ev_chacha Es) (ev_gcm Es) key (cc_Cipher (cf_Crypto (v_cfg s))) = Inr a"
    and ack: "ack = ack_frame (c_ID (t_sess c)) 1 (x_pub (ev_x Es) ks @ v_ann s)" "Seal (v_baseAEAD s) DirServerToClient (header_bytes ack @ fPayload ack) = Inr b'"
  shows "\<exists>c2 g mx. client_recv Ec c1 i b' now = Some (c2, []) \<and> getSessionAEAD c2 = (Some a, True) \<and> t_mtu c2 = cf_MTU (v_cfg s) \<and>
    t_adoptedFEC c2 = Some (cf_FEC (v_cfg s)) \<and> adopted_codecs (ev_rs Ec) (cf_FEC (v_cfg s)) (cf_MTU (v_cfg s)) c2 \<and> c_ID (t_sess c2) = c_ID (t_sess c) \<and>
    c_seq (t_sess c2) = 1 \<and> c_replay (t_sess c2) = NewReplayWindow DefaultReplayWindow \<and> t_delivery c2 = newDeliveryBuffer g mx \<and> length (t_wans c2) = length (t_wans c)"
proof -
  let ?sid = "c_ID (t_sess c)" and ?ps = "x_pub (ev_x Es) ks"
  have same: "ev_rs Ec = ev_rs Es" "ev_hmac Ec = ev_hmac Es" "ev_chacha Ec = ev_chacha Es" "ev_gcm Ec = ev_gcm Es" "ev_x Ec = ev_x Es"
    and pub: "length (x_pub (ev_x Es) kc) = 32" "length ?ps = 32" using m by (simp_all add: can_meet_def linked_def x25519_ok_def)
  have ann: "v_ann s \<noteq> []" "length (v_ann s) + 32 \<le> MaxPayload"
      "ev_unmarshal Ec (v_ann s) = Some \<lparr>an_Version = AnnounceVersion, an_MTU = cf_MTU (v_cfg s), an_FEC = cf_FEC (v_cfg s)\<rparr>"
    and cod: "\<forall>w\<in>insert None (Some ` set (cf_WANs (t_cfg c))). codable (ev_rs Es) (cf_FEC (v_cfg s)) (cf_MTU (v_cfg s)) w"
    using m unfolding can_meet_def by blast+
  obtain g mx where k: "aead_ok (v_baseAEAD s)" "cf_Crypto (t_cfg c) = cf_Crypto (v_cfg s)" "t_baseAEAD c = v_baseAEAD s" "t_psk c = v_psk s" "t_clientPriv c = kc"
      "t_clientPub c = x_pub (ev_x Es) kc" "\<not> t_sessionReady c" "c_seq (t_sess c) = 0" "c_replay (t_sess c) = NewReplayWindow DefaultReplayWindow"
      "t_delivery c = newDeliveryBuffer g mx" "length (t_wans c) = length (cf_WANs (t_cfg c))"
      "fc_Enabled (cf_FEC (v_cfg s)) \<longrightarrow> \<not> feq (fc_MaxLossPct (cf_FEC (v_cfg s))) (Fin 0)" using meeting_keys [OF m] by blast
  have "ident c1 = ident (fst (next_seq c))" using first_sent [OF sent] pub k(6) by simp
  then have i1: "t_baseAEAD c1 = v_baseAEAD s" "c_ID (t_sess c1) = ?sid" "\<not> t_sessionReady c1" "t_clientPriv c1 = kc" "t_psk c1 = v_psk s" "t_cfg c1 = t_cfg c"
      "c_seq (t_sess c1) = 1" "c_replay (t_sess c1) = NewReplayWindow DefaultReplayWindow" "t_delivery c1 = newDeliveryBuffer g mx"
    using k(3-10) by (simp_all add: ident_def next_seq_def Client_NextSeq_def)
  have wans: "length (t_wans c1) = length (t_wans c)" using keeps_wans [OF sent(1)] .
  then obtain d where d: "applyAnnounce Ec c1 (v_ann s) = (d, None)" "adopted_codecs (ev_rs Ec) (cf_FEC (v_cfg s)) (cf_MTU (v_cfg s)) d" "length (t_wans d) = length (t_wans c)"
    using announce_taken [OF ann(1,3) k(12), of c1] cod i1(6) same(1) k(11) by auto
  have l: "length (fPayload ack) \<le> MaxPayload" using ann(2) pub by (simp add: ack(1) ack_frame_def)
  obtain c2 where c2: "client_recv Ec c1 i b' now = Some (c2, [])" "getSessionAEAD c2 = (Some a, True)" "t_mtu c2 = t_mtu d" "t_adoptedFEC c2 = t_adoptedFEC d"
      "t_sess c2 = t_sess d" "t_delivery c2 = t_delivery d" "length (t_wans c2) = length (t_wans d)"
      "adopted_codecs (ev_rs Ec) (cf_FEC (v_cfg s)) (cf_MTU (v_cfg s)) c2"
    using ack_taken [where c = c1 and f = ack and q = 1 and pub = ?ps and ann = "v_ann s" and E = Ec and d = d] i1(1-6) ack l pub k(1,2) key same d by fastforce
  have "ident d = ident c1" "t_mtu d = cf_MTU (v_cfg s)" "t_adoptedFEC d = Some (cf_FEC (v_cfg s))" using adopted [OF d(1)] ann(3) k(12) by auto
  moreover have "c_ID (t_sess d) = ?sid" "c_seq (t_sess d) = 1" "c_replay (t_sess d) = NewReplayWindow DefaultReplayWindow" "t_delivery d = newDeliveryBuffer g mx"
    using calculation(1) i1 by (simp_all add: ident_def)
  ultimately show ?thesis using c2 d(3) by (intro exI [of _ c2] exI [of _ g] exI [of _ mx]) simp
qed

lemma meeting:
  assumes m: "can_meet Ec Es c kc s ks" and i: "i < length (t_wans c)" and taken: "sent_frames Ec (snd (handshake_send Ec c i)) \<noteq> []"
  shows "\<exists>c2 s' a x enc. handshake Ec Es c i s ua ks sock now now' = Some (c2, s') \<and> getSessionAEAD c2 = (Some a, True) \<and> aead_ok a \<and>
    Get (v_mgr s') (c_ID (t_sess c)) = Some x \<and> s_aead x = a \<and> s_egress x = Some sock \<and> s_seq x = 1 \<and>
    NewEncoder (ev_rs Es) (v_fecParams s) = Inr enc \<and> s_Enc x = Some enc \<and>
    t_mtu c2 = cf_MTU (v_cfg s) \<and> t_adoptedFEC c2 = Some (cf_FEC (v_cfg s)) \<and> adopted_codecs (ev_rs Ec) (cf_FEC (v_cfg s)) (cf_MTU (v_cfg s)) c2 \<and>
    c_ID (t_sess c2) = c_ID (t_sess c) \<and> c_replay (t_sess c2) = NewReplayWindow DefaultReplayWindow \<and> (\<exists>g m. t_delivery c2 = newDeliveryBuffer g m) \<and>
    snd (Server_CheckReplay x (c_seq (t_sess c2) + 1)) \<and> v_fecParams s' = v_fecParams s \<and>
    length (t_wans c2) = length (t_wans c) \<and> w_dec (t_wans c2 ! i) \<noteq> None \<and>
    (\<exists>key. NewAEAD (ev_chacha Es) (ev_gcm Es) key (cc_Cipher (cf_Crypto (v_cfg s))) = Inr a)"
proof -
  obtain c1 out b where sent: "handshake_send Ec c i = (c1, out)" "sealed_frames out = [b]" using first_sends by blast
  have b: "sent_frames Ec out = [b]" using sent_one [OF sent(2)] taken sent(1) by simp
  obtain shared key a enc s' b' x where h: "ECDHShared (ev_x Es) kc (x_pub (ev_x Es) ks) = Inr shared"
      "DerivePFSKey (ev_hmac Es) (v_psk s) shared (c_ID (t_sess c)) = Some key" "NewAEAD (ev_chacha Es) (ev_gcm Es) key (cc_Cipher (cf_Crypto (v_cfg s))) = Inr a"
      "aead_ok a" "NewEncoder (ev_rs Es) (v_fecParams s) = Inr enc" "handleClientFrame Es s b (Some ua) now (Some ks) (Some sock) = Some (s', [ToClient ua b'])"
      "let ack = ack_frame (c_ID (t_sess c)) 1 (x_pub (ev_x Es) ks @ v_ann s) in Seal (v_baseAEAD s) DirServerToClient (header_bytes ack @ fPayload ack) = Inr b'"
      "Get (v_mgr s') (c_ID (t_sess c)) = Some x" "s_aead x = a" "s_egress x = Some sock" "s_seq x = 1" "s_Enc x = Some enc" "snd (Server_CheckReplay x 2)"
      "v_fecParams s' = v_fecParams s" using meeting_answer [OF m sent, of ua now sock] by blast
  obtain c2 g mx where c2: "client_recv Ec c1 i b' now' = Some (c2, [])" "getSessionAEAD c2 = (Some a, True)" "t_mtu c2 = cf_MTU (v_cfg s)"
      "t_adoptedFEC c2 = Some (cf_FEC (v_cfg s))" "adopted_codecs (ev_rs Ec) (cf_FEC (v_cfg s)) (cf_MTU (v_cfg s)) c2" "c_ID (t_sess c2) = c_ID (t_sess c)"
      "c_seq (t_sess c2) = 1" "c_replay (t_sess c2) = NewReplayWindow DefaultReplayWindow" "t_delivery c2 = newDeliveryBuffer g mx" "length (t_wans c2) = length (t_wans c)"
    using meeting_adopts [OF m sent h(1-3) refl, of b' now'] h(7) unfolding Let_def by blast
  have "handshake Ec Es c i s ua ks sock now now' = Some (c2, s')" using sent(1) b h(6) c2(1) by (simp add: handshake_def)
  moreover have "w_dec (t_wans c2 ! i) \<noteq> None" using c2(5,10) i by (auto simp: adopted_codecs_def codec_slot_def)
  ultimately show ?thesis using h(3-5,8-14) c2 by (intro exI [of _ c2] exI [of _ s'] exI [of _ a] exI [of _ x] exI [of _ enc]) auto
qed

lemma met_sent: "handshake Ec Es c i s ua ks sock now now' = Some r \<Longrightarrow> sent_frames Ec (snd (handshake_send Ec c i)) \<noteq> []"
  by (auto simp: handshake_def split: prod.splits list.splits)

lemma meet_taken:
  assumes "can_meet Ec Es c kc s ks" "i < length (t_wans c)" "takes Ec (t_wans c ! i) (HeaderSize + 4 + PublicKeySize + aead_Overhead (t_baseAEAD c))"
  shows "sent_frames Ec (snd (handshake_send Ec c i)) \<noteq> []"
proof -
  have "aead_ok (t_baseAEAD c)" "t_clientPub c = x_pub (ev_x Es) kc" using meeting_keys [OF assms(1)] by auto
  moreover have "length (x_pub (ev_x Es) kc) = 32" using assms(1) by (simp add: can_meet_def linked_def x25519_ok_def)
  ultimately show ?thesis using first_taken [OF assms(3) _ _ assms(2)] by simp
qed

section \<open>A datagram from the client\<close>

definition pass_frame :: "u64 \<Rightarrow> u32 \<Rightarrow> u32 \<Rightarrow> bytes \<Rightarrow> frame" where
  "pass_frame sid q n p = zero_frame\<lparr>fFlags := FlagPassSeq, fSessionID := sid, fSeq := q, fBlockSeq := n, fPayload := p\<rparr>"

lemma pass_flags: "HasFlag (pass_frame sid q n p) FlagPassSeq" "\<not> HasFlag (pass_frame sid q n p) FlagFECParity" "\<not> HasFlag (pass_frame sid q n p) FlagKeepalive"
  "\<not> HasFlag (pass_frame sid q n p) FlagFirst" "\<not> HasFlag (pass_frame sid q n p) FlagPong" "\<not> HasFlag (pass_frame sid q n p) FlagKex"
  "\<not> HasFlag (pass_frame sid q n p) FlagControl" "fPayload (pass_frame sid q n p) = p" "fSessionID (pass_frame sid q n p) = sid" "fSeq (pass_frame sid q n p) = q"
  by (simp_all add: pass_frame_def HasFlag_def FlagPassSeq_def FlagFECParity_def FlagKeepalive_def FlagFirst_def FlagPong_def FlagKex_def FlagControl_def)

lemma pass_marked: "(zero_frame\<lparr>fSessionID := sid, fSeq := q, fPayload := p\<rparr>)\<lparr>fFlags := 0 OR FlagPassSeq, fBlockSeq := n\<rparr> = pass_frame sid q n p"
  by (simp add: pass_frame_def zero_frame_def)

definition uncoded :: "TClient \<Rightarrow> bool" where
  "uncoded c \<longleftrightarrow> \<not> t_crossPath c \<and> (\<forall>w\<in>set (t_wans c). \<exists>k. w_enc w = Some k \<and> \<not> Enabled (e_params (t_encs c ! k)))"

lemma sendLocked_sends:
  assumes "HasFlag g FlagPassSeq" "Encode (g\<lparr>fBlockSeq := w_pathSeq (t_wans c ! i)\<rparr>) = Inr plain" "Seal a DirClientToServer plain = Inr b"
    and "takes E (t_wans c ! i) (length b)"
  shows "sent_frames E (fst (snd (sendLocked E c i g (Some a)))) = [b]"
  using assms by (cases "w_q (t_wans c ! i)") (simp_all add: sendLocked_def Let_def case_prod_unfold sent_frames_def takes_def)

lemma send_frames_one:
  assumes "\<not> HasFlag g FlagFECParity"
  shows "snd (send_frames E a i c [g]) = fst (snd (sendLocked E (upd_wan c i (\<lambda>w. w\<lparr>w_framesSent := w_framesSent w + 1\<rparr>)) i g a))"
  using assms by (simp add: number_parity_def Let_def case_prod_unfold)

lemma sendEncoded_pass:
  assumes "getSessionAEAD c = (Some a, True)" "length p \<le> MaxPayload" "aead_ok a" "i < length (t_wans c)"
    and "takes E (t_wans c ! i) (HeaderSize + length p + aead_Overhead a)"
  shows "\<exists>n b. sent_frames E (snd (sendEncoded E c i (markPassSeq [zero_frame\<lparr>fSessionID := sid, fSeq := q, fPayload := p\<rparr>]))) = [b] \<and>
    Seal a DirClientToServer (header_bytes (pass_frame sid q n p) @ p) = Inr b"
proof -
  let ?g = "zero_frame\<lparr>fFlags := FlagPassSeq, fSessionID := sid, fSeq := q, fPayload := p\<rparr>"
  let ?c = "upd_wan c i (\<lambda>w. w\<lparr>w_framesSent := w_framesSent w + 1\<rparr>)"
  let ?n = "w_pathSeq (t_wans ?c ! i)"
  have m: "markPassSeq [zero_frame\<lparr>fSessionID := sid, fSeq := q, fPayload := p\<rparr>] = [?g]" by (simp add: markPassSeq_def zero_frame_def)
  have "?g\<lparr>fBlockSeq := ?n\<rparr> = pass_frame sid q ?n p" by (simp add: pass_frame_def zero_frame_def)
  then have e: "Encode (?g\<lparr>fBlockSeq := ?n\<rparr>) = Inr (header_bytes (pass_frame sid q ?n p) @ p)"
    using Encode_ok [of "pass_frame sid q ?n p"] assms(2) by (simp add: pass_flags)
  have f: "HasFlag ?g FlagPassSeq" "\<not> HasFlag ?g FlagFECParity" by (simp_all add: HasFlag_def FlagPassSeq_def FlagFECParity_def)
  obtain b where b: "Seal a DirClientToServer (header_bytes (pass_frame sid q ?n p) @ p) = Inr b" using Seal_ok by fastforce
  have "length b = HeaderSize + length p + aead_Overhead a"
    using b Seal_ok [of "header_bytes (pass_frame sid q ?n p) @ p" a DirClientToServer] assms(3) by (auto simp: aead_ok_def HeaderSize_def)
  then have "takes E (t_wans ?c ! i) (length b)" using assms(4,5) by (simp add: takes_def upd_wan_def cong: option.case_cong)
  then have "sent_frames E (snd (sendEncoded E c i [?g])) = [b]"
    using assms(1) sendLocked_sends [OF f(1) e b] by (simp add: sendEncoded_def send_frames_one [OF f(2)] del: send_frames.simps)
  then show ?thesis unfolding m using b by blast
qed

lemma uncoded_upd: "uncoded c \<Longrightarrow> (\<And>w. w_enc (f w) = w_enc w) \<Longrightarrow> uncoded (upd_wan c i f)"
  using set_update_subset_insert [of "t_wans c" i "f (t_wans c ! i)"]
  by (cases "i < length (t_wans c)") (auto simp: uncoded_def upd_wan_def list_update_beyond dest!: subsetD)

text \<open>The scheduler is in a state its operations keep, has a usable path, and every usable path is an uplink of the client.\<close>

definition routable :: "TClient \<Rightarrow> bool" where
  "routable c \<longleftrightarrow> sched_inv (t_sched c) \<and> usableLocked (t_sched c) \<noteq> [] \<and> (\<forall>p\<in>set (usableLocked (t_sched c)). map_of (t_byWAN c) (p_id p) \<noteq> None)"

lemma ingress_pass:
  assumes "client_ok c" "uncoded c" "routable c" "getSessionAEAD c = (Some a, True)" "int (length p) \<le> t_mtu c" "length p \<le> MaxPayload"
    and "aead_ok a" "\<forall>w\<in>set (t_wans c). takes E w (HeaderSize + length p + aead_Overhead a)"
  shows "\<exists>c' out b n. ingress E c peer p now draw = Some (c', out) \<and> sent_frames E out = [b] \<and>
    Seal a DirClientToServer (header_bytes (pass_frame (c_ID (t_sess c)) (c_seq (t_sess c) + 1) n p) @ p) = Inr b"
proof -
  let ?c = "adopt_peer c peer" and ?q = "c_seq (t_sess c) + 1"
  have p: "t_mtu ?c = t_mtu c" "getSessionAEAD ?c = getSessionAEAD c" "t_crossPath ?c = t_crossPath c" "t_wans ?c = t_wans c" "t_encs ?c = t_encs c"
      "t_byWAN ?c = t_byWAN c" "c_ID (t_sess ?c) = c_ID (t_sess c)" "c_seq (t_sess ?c) = c_seq (t_sess c)" "t_sched ?c = t_sched c"
    by (simp_all add: adopt_peer_def SetWGAddr_def getSessionAEAD_def split: option.split)
  obtain c1 where n: "next_seq ?c = (c1, ?q)" using p by (simp add: next_seq_def Client_NextSeq_def)
  then have c1: "c_ID (t_sess c1) = c_ID (t_sess c)" "t_wans c1 = t_wans c" "t_encs c1 = t_encs c" "t_byWAN c1 = t_byWAN c" "getSessionAEAD c1 = getSessionAEAD c"
      "t_crossPath c1 = t_crossPath c" "t_sched c1 = t_sched c"
    using p by (auto simp: next_seq_def Client_NextSeq_def getSessionAEAD_def)
  let ?f = "zero_frame\<lparr>fSessionID := c_ID (t_sess c), fSeq := ?q, fPayload := p\<rparr>"
  obtain sched pick where pk: "Pick (t_sched c1) ?f draw = (sched, pick)" by fastforce
  obtain wid i where i: "pick = Some wid" "map_of (t_byWAN c) wid = Some i"
    using Pick_spec(1,2) [of "t_sched c" ?f draw] assms(3) pk c1(7) by (cases pick) (auto simp: routable_def)
  let ?c2 = "c1\<lparr>t_sched := sched\<rparr>"
  have il: "i < length (t_wans c)" using byWAN_valid [OF assms(1) i(2)] .
  then have "t_wans c ! i \<in> set (t_wans c)" by simp
  then obtain k where k: "w_enc (t_wans c ! i) = Some k" "\<not> Enabled (e_params (t_encs c ! k))" using assms(2) by (auto simp: uncoded_def)
  let ?c3 = "?c2\<lparr>t_encs := (t_encs c)[k := t_encs c ! k]\<rparr>"
  have e: "enc_push E ?c2 (w_enc (t_wans c ! i)) ?f now = Some (?c3, markPassSeq [?f])" using k c1 by (simp add: enc_push_def Encoder_Push_def)
  have "getSessionAEAD ?c3 = (Some a, True)" using c1 assms(4) by (simp add: getSessionAEAD_def)
  moreover have "ingress E c peer p now draw = Some (sendEncoded E ?c3 i (markPassSeq [?f]))"
    using assms(2,4,5) n p c1 pk i e by (simp add: ingress_def Let_def uncoded_def)
  moreover have "i < length (t_wans ?c3)" "takes E (t_wans ?c3 ! i) (HeaderSize + length p + aead_Overhead a)" using il c1(2) assms(8) by simp_all
  ultimately show ?thesis using sendEncoded_pass [OF _ assms(6,7)] by (metis prod.collapse)
qed

lemma data_forwarded:
  assumes "aead_ok a" "Seal a DirClientToServer (header_bytes (pass_frame sid q n p) @ p) = Inr b" "length p \<le> MaxPayload" "p \<noteq> []"
    and "Get (v_mgr s) sid = Some x" "s_aead x = a" "s_egress x = Some sock" "snd (Server_CheckReplay x q)"
  shows "\<exists>s'. handleClientFrame E s b (Some ua) now k d = Some (s', [ToPeer sock p])"
proof -
  let ?f = "pass_frame sid q n p"
  have b: "Seal a DirClientToServer (header_bytes ?f @ fPayload ?f) = Inr b" "length (fPayload ?f) \<le> MaxPayload"
    using assms(2,3) pass_flags(8) [of sid q n p] by simp_all
  note o = sealed_opens [OF assms(1) b(2,1)]
  let ?s2 = "upd_sess s sid (\<lambda>_. fst (Server_CheckReplay x q))"
  let ?s3 = "upd_sess ?s2 sid (\<lambda>sess. Touch sess now)"
  let ?s4 = "registerPath ?s3 sid ua [] now"
  have c: "check_replay s sid q = (?s2, True)" using assms(5,8) by (simp add: check_replay_def Let_def case_prod_unfold)
  have g3: "Get (v_mgr ?s3) sid = Some (Touch (fst (Server_CheckReplay x q)) now)"
    using assms(5) by (simp add: upd_sess_def upd_session_def Get_def update_conv')
  obtain e where g4: "Get (v_mgr ?s4) sid = Some ((Touch (fst (Server_CheckReplay x q)) now)\<lparr>s_endpoints := e\<rparr>)" using registerPath_session(1) [OF g3] by blast
  have "s_egress (fst (Server_CheckReplay x q)) = Some sock" using assms(7) by (simp add: Server_CheckReplay_def Let_def case_prod_unfold)
  then have "forwardDecoded (?s4\<lparr>v_fecDec := dd\<rparr>) [?f\<lparr>fVersion := Version\<rparr>] = [ToPeer sock p]" for dd
    using g4 by (simp add: forwardDecoded_def pass_flags Touch_def)
  moreover have "\<exists>dd. Decoder_Push (ev_rs E) (v_fecDec ?s4) (UDPAddr_String ua) (?f\<lparr>fVersion := Version\<rparr>) now = Some (dd, [?f\<lparr>fVersion := Version\<rparr>])"
    using pass_flags(1,2) [of sid q n p] by (simp add: Decoder_Push_def HasFlag_def)
  ultimately show ?thesis
    using o assms(3-6) c pass_flags [of sid q n p]
    by (auto simp: handleClientFrame_def handleData_def Let_def HasFlag_def)
qed

section \<open>A datagram from the server\<close>

lemma send_one_pass:
  assumes "\<not> CrossPath (v_fecParams s)" "snd (send_one E s sid a (Some ua) (zero_frame\<lparr>fFlags := FlagPassSeq, fSessionID := sid, fSeq := q, fPayload := p\<rparr>)) = [ToClient u b]"
    and "length p \<le> MaxPayload"
  shows "\<exists>n. Seal a DirServerToClient (header_bytes (pass_frame sid q n p) @ p) = Inr b"
proof -
  let ?g = "zero_frame\<lparr>fFlags := FlagPassSeq, fSessionID := sid, fSeq := q, fPayload := p\<rparr>"
  have f: "\<not> HasFlag ?g FlagFECParity" by (simp add: HasFlag_def FlagPassSeq_def FlagFECParity_def)
  obtain s1 g where st: "stamp_path s sid ua ?g = (s1, g)" by fastforce
  then have "\<exists>n. g = pass_frame sid q n p"
    by (force simp: stamp_path_def pass_frame_def zero_frame_def split: if_splits option.splits prod.splits)
  then obtain n where n: "g = pass_frame sid q n p" by blast
  have e: "Encode g = Inr (header_bytes g @ p)" using Encode_ok [of g] assms(3) n by (simp add: pass_flags)
  have "snd (sendToAddr E s1 a ua g) = [ToClient u b]" using assms(1,2) f st by (simp add: send_one_def)
  then have "Seal a DirServerToClient (header_bytes g @ p) = Inr b" using e by (auto simp: sendToAddr_def transmit_def split: sum.splits if_splits)
  then show ?thesis using n by blast
qed

lemma egress_pass:
  assumes "Get (v_mgr s) sid = Some x" "s_Enc x = Some enc" "\<not> Enabled (e_params enc)" "\<not> CrossPath (v_fecParams s)" "length p \<le> MaxPayload"
    and "egress_step E s sid p now draw = (s', [ToClient u b])"
  shows "\<exists>n. Seal (s_aead x) DirServerToClient (header_bytes (pass_frame sid (s_seq x + 1) n p) @ p) = Inr b"
proof -
  let ?g = "zero_frame\<lparr>fFlags := FlagPassSeq, fSessionID := sid, fSeq := s_seq x + 1, fPayload := p\<rparr>"
  obtain s1 q where n: "next_server_seq s sid = (s1, q)" by fastforce
  then have q: "q = s_seq x + 1" "v_fecParams s1 = v_fecParams s" using assms(1) by (auto simp: next_server_seq_def Server_NextSeq_def upd_sess_def)
  let ?s2 = "upd_sess s1 sid (\<lambda>sess. sess\<lparr>s_Enc := Some enc\<rparr>)"
  have m: "markPassSeq [zero_frame\<lparr>fSessionID := sid, fSeq := q, fPayload := p\<rparr>] = [?g]" using q by (simp add: markPassSeq_def zero_frame_def)
  have l: "\<not> int (length p) > cf_MTU (v_cfg s)" using assms(1,6) by (auto simp: egress_step_def)
  have out: "snd (sendToSession E ?s2 sid (s_aead x) [?g] draw) = [ToClient u b]"
    using assms(1-3,6) n l unfolding m [symmetric] by (simp add: egress_step_def Encoder_Push_def)
  have c2: "\<not> CrossPath (v_fecParams ?s2)" using q(2) assms(4) by (simp add: upd_sess_def)
  obtain s3 pick where pk: "pickPath ?s2 sid draw = (s3, pick)" by fastforce
  then have c3: "\<not> CrossPath (v_fecParams s3)"
    using c2 by (auto simp: pickPath_def stateFor_def put_state_def Let_def split: prod.splits option.splits)
  obtain ua where ua: "pick = Some ua" using out c2 pk by (cases pick) (simp_all add: sendToSession_def)
  have "snd (send_one E s3 sid (s_aead x) (Some ua) ?g) = [ToClient u b]"
    using out c2 pk ua by (simp add: sendToSession_def case_prod_unfold Let_def)
  then show ?thesis using send_one_pass [OF c3 _ assms(5)] by blast
qed

lemma reply_taken:
  assumes "aead_ok a" "Seal a DirServerToClient (header_bytes (pass_frame (c_ID (t_sess c)) q n p) @ p) = Inr b" "length p \<le> MaxPayload" "p \<noteq> []"
    and "getSessionAEAD c = (Some a, True)" "snd (Client_CheckReplay (t_sess c) q)" "i < length (t_wans c)" "w_dec (t_wans c ! i) \<noteq> None"
  shows "\<exists>c' f. client_recv E c i b now = Some (c', deliverToWG c (snd (delivery_Push (ev_rng E) (t_delivery c) [f] now))) \<and>
    t_delivery c' = fst (delivery_Push (ev_rng E) (t_delivery c) [f] now) \<and> fSeq f = q \<and> fPayload f = p"
proof -
  let ?f = "pass_frame (c_ID (t_sess c)) q n p"
  have b: "Seal a DirServerToClient (header_bytes ?f @ fPayload ?f) = Inr b" "length (fPayload ?f) \<le> MaxPayload"
    using assms(2,3) pass_flags(8) [of "c_ID (t_sess c)" q n p] by simp_all
  note o = sealed_opens [OF assms(1) b(2,1)] and fl = pass_flags [of "c_ID (t_sess c)" q n p]
  let ?g = "?f\<lparr>fVersion := Version\<rparr>"
  have f: "fSeq ?g = q" "fPayload ?g = p" "\<not> HasFlag ?g FlagPong" "\<not> HasFlag ?g FlagControl" "\<not> HasFlag ?g FlagKeepalive" using fl by (simp_all add: HasFlag_def)
  let ?c1 = "c\<lparr>t_sess := fst (Client_CheckReplay (t_sess c) q)\<rparr>"
  have v: "openAndVerify c b = (?c1, Some ?g)" using o assms(5,6) fl f by (simp add: openAndVerify_def case_prod_unfold Let_def)
  let ?c2 = "upd_wan ?c1 i (\<lambda>w. w\<lparr>w_lastRx := now\<rparr>)"
  obtain j where j: "w_dec (t_wans ?c2 ! i) = Some j" using assms(7,8) by (auto simp: upd_wan_def)
  obtain dd where dd: "dec_push E ?c2 (w_dec (t_wans ?c2 ! i)) (w_id (t_wans ?c2 ! i)) ?g now = Some (?c2\<lparr>t_decs := (t_decs ?c2)[j := dd]\<rparr>, [?g])"
    using fl(1,2) by (auto simp: dec_push_def j Decoder_Push_def HasFlag_def)
  have "client_recv E c i b now = Some (buffer_push E (?c2\<lparr>t_decs := (t_decs ?c2)[j := dd]\<rparr>) [?g] now)"
    using o v f fl dd assms(4) by (simp add: client_recv_def HasFlag_def Let_def)
  moreover have "WGAddr (fst (Client_CheckReplay (t_sess c) q)) = WGAddr (t_sess c)" by (simp add: Client_CheckReplay_def WGAddr_def case_prod_unfold Let_def)
  ultimately show ?thesis using f(1,2)
    by (auto simp: buffer_push_def upd_wan_def deliverToWG_def case_prod_unfold Let_def intro!: exI [of _ ?g])
qed

text \<open>A buffer that has seen nothing waits for number 1.\<close>

lemma first_waits:
  assumes "fSeq f = 2"
  shows "snd (delivery_Push rng (newDeliveryBuffer g m) [f] now) = []"
    and "db_pending (fst (delivery_Push rng (newDeliveryBuffer g m) [f] now)) = [(2, f)]"
    and "db_gapSince (fst (delivery_Push rng (newDeliveryBuffer g m) [f] now)) = Some now"
  using assms by (simp_all add: delivery_Push_def push_one_def newDeliveryBuffer_def seq_before_def Let_def)

lemma new_window: "c_replay s = NewReplayWindow win \<Longrightarrow> snd (Client_CheckReplay s q)"
  using CheckAndMark_hist(2) [OF replay_hist_New [of win]] by (simp add: Client_CheckReplay_def replay_fresh_def case_prod_unfold Let_def)

section \<open>Two ends for the witnesses\<close>

definition link_env :: env where
  "link_env = demo_env\<lparr>ev_unmarshal := \<lambda>_. Some \<lparr>an_Version = AnnounceVersion, an_MTU = 1420, an_FEC = plain_fec\<rparr>\<rparr>"

lemma linked_demo: "linked link_env demo_senv"
  using plain_aead_ok plain_hmac_ok plain_x25519_ok by (simp add: linked_def link_env_def demo_env_def demo_senv_def)

text \<open>A queue of the default policy and of at least \<open>n\<close> bytes, which always takes a frame of that size.\<close>

definition wide :: "sendQueue \<Rightarrow> nat \<Rightarrow> bool" where
  "wide q n \<longleftrightarrow> q_inv q \<and> \<not> q_closed q \<and> int n \<le> q_maxBytes q \<and> q_drop q = dropOldest"

definition roomy :: "wanLink \<Rightarrow> nat \<Rightarrow> bool" where
  "roomy w n \<longleftrightarrow> (\<exists>q. w_q w = Some q \<and> wide q n)"

lemma roomy_takes: "roomy w n \<Longrightarrow> m \<le> n \<Longrightarrow> takes E w m"
  by (force simp: roomy_def wide_def intro: queue_takes)

lemma wide_enqueue:
  assumes "wide q n"
  shows "wide (fst (enqueue q b)) n"
proof -
  have inv: "q_inv q" using assms by (simp add: wide_def)
  have "q_inv (fst (enqueue q b))" using q_step_inv [OF inv, of "QEnqueue b"] by (simp add: Let_def case_prod_unfold)
  moreover from inv have "q_closed (fst (enqueue q b)) = q_closed q \<and> q_maxBytes (fst (enqueue q b)) = q_maxBytes q \<and> q_drop (fst (enqueue q b)) = q_drop q"
    by (cases rule: enqueue_cases [where b = b]) (simp_all add: append_frame_def signal_def)
  ultimately show ?thesis using assms by (simp add: wide_def)
qed

lemma link_client:
  "\<exists>c w. NewTunnelClient link_env plain_doc (Some (make_bytes 8)) (Some (make_bytes 32)) 0 = Some (Inr c) \<and>
     t_wans c = [w] \<and> roomy w 262144 \<and> t_byWAN c = [(''wan1'', 0)] \<and> \<not> t_crossPath c \<and> (\<exists>opts cap. t_sched c = AddPath (New_Scheduler opts) ''wan1'' cap)"
proof -
  obtain key where key: "DeriveKey plain_hmac (str_bytes ''secret'') = Inr (Some key)" "length key = keySize"
    using plain_key [of "str_bytes ''secret''"] by (auto simp: DeriveKey_def str_bytes_def)
  have "\<not> q_closed (newSendQueue 262144 dropOldest r t) \<and> q_maxBytes (newSendQueue 262144 dropOldest r t) = 262144 \<and> q_drop (newSendQueue 262144 dropOldest r t) = dropOldest" for r t
    by (simp add: newSendQueue_def)
  then show ?thesis
    using key
    by (simp add: roomy_def wide_def q_inv_New newWANQueue_def parseQueueDrop_def NewTunnelClient_def link_env_def demo_env_def plain_doc_valid default_doc_def maxWANs_def default_transports_def config_consts NewAEAD_def
        NewID_def GenerateEphemeralKey_def init_cross_def minimal_fec_def fecParamsFor_def add_wan_def wan_codecs_def client_base_def
        NewEncoder_def new_codecs_def newTransport_def no_params_def Enabled_def fill_params_def Let_def) blast
qed

lemma link_overhead: "NewAEAD (ev_chacha demo_senv) (ev_gcm demo_senv) key name = Inr a \<Longrightarrow> aead_Overhead a = 16"
  by (auto simp: NewAEAD_def demo_senv_def plain_aead_def split: if_splits)

lemma link_takes:
  assumes "NewTunnelClient link_env plain_doc (Some (make_bytes 8)) (Some (make_bytes 32)) 0 = Some (Inr c)" "t_wans c = [w]" "roomy w 262144"
  shows "takes link_env (t_wans c ! 0) (HeaderSize + 4 + PublicKeySize + aead_Overhead (t_baseAEAD c))"
proof -
  have "ev_chacha link_env = ev_chacha demo_senv" "ev_gcm link_env = ev_gcm demo_senv" by (simp_all add: link_env_def demo_env_def demo_senv_def)
  then have "aead_Overhead (t_baseAEAD c) = 16" using new_client [OF assms(1)] link_overhead by (auto simp: ident_def)
  then show ?thesis using roomy_takes [OF assms(3)] assms(2) by (simp add: HeaderSize_def PublicKeySize_def)
qed

lemma link_server:
  "\<exists>s. NewServer demo_senv server_doc 0 = Some (Inr s) \<and> v_mgr s = NewManager \<and> v_ann s = [1] \<and> cf_MTU (v_cfg s) = 1420 \<and> cf_FEC (v_cfg s) = plain_fec \<and>
     v_fecParams s = no_params"
proof -
  obtain cfg where cfg: "Validate (\<lambda>_. True) server_doc = Inr cfg" "cf_FEC cfg = plain_fec" "cf_MTU cfg = 1420" using server_doc_valid by blast
  obtain s where s: "NewServer demo_senv server_doc 0 = Some (Inr s)" "demo_server_state s" "v_mgr s = NewManager" using demo_server_exists by blast
  then have "v_cfg s = cfg" using cfg by (auto simp: NewServer_def demo_senv_def split: sum.splits if_splits option.splits)
  then show ?thesis using s cfg by (auto simp: demo_server_state_def)
qed

lemma plain_codable: "codable rs_New plain_fec mtu w"
  by (simp add: codable_def fecParamsFor_def plain_fec_def minimal_fec_def NewEncoder_def no_params_def fill_params_def Enabled_def Let_def)

lemma link_meet:
  assumes "NewTunnelClient link_env plain_doc (Some (make_bytes 8)) (Some (make_bytes 32)) 0 = Some (Inr c)"
    and "NewServer demo_senv server_doc 0 = Some (Inr s)" "v_mgr s = NewManager" "v_ann s = [1]" "cf_MTU (v_cfg s) = 1420" "cf_FEC (v_cfg s) = plain_fec"
  shows "can_meet link_env demo_senv c (make_bytes 32) s (make_bytes 32)"
  unfolding can_meet_def
proof (intro conjI)
  show "\<exists>ccfg scfg idr tc ts s0 evs out. NewTunnelClient link_env ccfg idr (Some (make_bytes 32)) tc = Some (Inr c) \<and> NewServer demo_senv scfg ts = Some (Inr s0) \<and>
      server_run demo_senv s0 evs = Some (s, out) \<and> cf_Crypto scfg = cf_Crypto ccfg"
    using assms(1,2) by (intro exI [of _ plain_doc] exI [of _ server_doc] exI [of _ "Some (make_bytes 8)"] exI [of _ "0 :: int"] exI [of _ s] exI [of _ "[]"])
      (simp add: plain_doc_def server_doc_def)
  show "\<exists>shared. ECDHShared (ev_x demo_senv) (make_bytes 32) (x_pub (ev_x demo_senv) (make_bytes 32)) = Inr shared"
    by (simp add: ECDHShared_def PublicKeySize_def demo_senv_def plain_x25519_def)
qed (use assms linked_demo plain_codable in \<open>simp_all add: NewManager_def Get_def Count_def maxSessions_def MaxPayload_def link_env_def\<close>)

lemma ident_announce: "ident (fst (applyAnnounce E c data)) = ident c"
  by (simp add: applyAnnounce_def Let_def case_prod_unfold ident_adopt_cross ident_adopt_wans split: option.split)

lemma kex_ready:
  assumes "handleKexAck E c b = Some (c', ok)" "\<not> t_sessionReady c" "t_sessionReady c'"
  shows "\<exists>data a. snd (applyAnnounce E c data) = None \<and> c' = setSessionAEAD (fst (applyAnnounce E c data)) a"
proof -
  have "t_sessionReady (fst (applyAnnounce E c data)) = t_sessionReady c" for data using ident_announce [of E c data] by (simp add: ident_def)
  then have r: "applyAnnounce E c data = (d, e) \<Longrightarrow> \<not> t_sessionReady d" for data d e using assms(2) by (metis fst_conv)
  show ?thesis using assms r unfolding handleKexAck_def
    by (auto split: sum.splits if_splits option.splits prod.splits) (metis fst_conv snd_conv)+
qed

lemma link_announce:
  assumes "t_wans c = [w]" "snd (applyAnnounce link_env c data) = None"
  shows "uncoded (fst (applyAnnounce link_env c data)) \<and> t_sched (fst (applyAnnounce link_env c data)) = t_sched c \<and>
    t_byWAN (fst (applyAnnounce link_env c data)) = t_byWAN c \<and> map w_q (t_wans (fst (applyAnnounce link_env c data))) = map w_q (t_wans c)"
  using assms by (cases "data = []") (simp_all add: uncoded_def applyAnnounce_def link_env_def plain_fec_def minimal_fec_def config_consts fecParamsFor_def NewEncoder_def
      no_params_def fill_params_def Enabled_def new_codecs_def upd_wan_def Let_def)

lemma link_recv:
  assumes "client_recv link_env c 0 b now = Some (c', out)" "t_sessionReady c'" "\<not> t_sessionReady c" "t_wans c = [w]"
  shows "uncoded c' \<and> t_sched c' = t_sched c \<and> t_byWAN c' = t_byWAN c \<and> map w_q (t_wans c') = map w_q (t_wans c)"
proof -
  have no: "openAndVerify c b = (c, None)"
    using assms(3) by (auto simp: openAndVerify_def getSessionAEAD_def split: sum.splits option.splits)
  obtain d ok where d: "handleKexAck link_env c b = Some (d, ok)" "c' = (if ok then upd_wan d 0 (\<lambda>w. w\<lparr>w_lastRx := now\<rparr>) else d)"
    using assms(1-3) no by (fastforce simp: client_recv_def split: sum.splits if_splits)
  then have "t_sessionReady d" using assms(2) by (auto simp: upd_wan_def split: if_splits)
  then obtain data a where "snd (applyAnnounce link_env c data) = None" "d = setSessionAEAD (fst (applyAnnounce link_env c data)) a"
    using kex_ready [OF d(1) assms(3)] by blast
  then have k: "uncoded d \<and> t_sched d = t_sched c \<and> t_byWAN d = t_byWAN c \<and> map w_q (t_wans d) = map w_q (t_wans c)" using link_announce [OF assms(4)] by (auto simp: setSessionAEAD_def uncoded_def)
  have "map w_q ((t_wans d)[0 := (t_wans d ! 0)\<lparr>w_lastRx := now\<rparr>]) = map w_q (t_wans d)" by (cases "t_wans d") simp_all
  then show ?thesis using k d(2) uncoded_upd [of d "\<lambda>w. w\<lparr>w_lastRx := now\<rparr>" 0] by (simp add: upd_wan_def)
qed

lemma link_run:
  assumes "t_wans c = [w]" "roomy w n" "\<not> t_sessionReady c" "handshake link_env demo_senv c 0 s ua ks sock now now' = Some (c2, s1)" "t_sessionReady c2"
  shows "\<exists>evs out. client_run link_env c evs = Some (c2, out) \<and> uncoded c2 \<and> t_sched c2 = t_sched c \<and> t_byWAN c2 = t_byWAN c \<and> (\<forall>v\<in>set (t_wans c2). roomy v n)"
proof -
  obtain c1 out b b' where h: "handshake_send link_env c 0 = (c1, out)" "client_recv link_env c1 0 b' now' = Some (c2, [])"
    using assms(4) by (auto simp: handshake_def split: prod.splits list.splits option.splits server_out.splits)
  have k: "t_sched (fst (sendLocked E d i f a)) = t_sched d \<and> t_byWAN (fst (sendLocked E d i f a)) = t_byWAN d \<and>
      t_sessionReady (fst (sendLocked E d i f a)) = t_sessionReady d" for E d i f a
    by (auto simp: sendLocked_def upd_wan_def Let_def case_prod_unfold split: option.split sum.split)
  have c1: "t_sched c1 = t_sched c" "t_byWAN c1 = t_byWAN c" "\<not> t_sessionReady c1"
    using h(1) k assms(3) by (auto simp: handshake_send_def Client_send_def Let_def case_prod_unfold next_seq_def Client_NextSeq_def)
  obtain w1 where w1: "t_wans c1 = [w1]" using keeps_wans [OF h(1)] assms(1) by (auto simp: length_Suc_conv)
  obtain q where q: "w_q w = Some q" "wide q n" using assms(2) by (auto simp: roomy_def)
  have "roomy (t_wans (fst (sendLocked E d 0 f a)) ! 0) n" if "t_wans d = [w]" for E d f a
    using that q wide_enqueue [OF q(2)]
    by (auto simp: sendLocked_def upd_wan_def Let_def case_prod_unfold roomy_def split: option.split sum.split)
  moreover have "t_wans (fst (next_seq c)) = [w]" using assms(1) by (simp add: next_seq_def Let_def case_prod_unfold)
  ultimately have "roomy (t_wans c1 ! 0) n" using h(1)
    by (auto simp: handshake_send_def Client_send_def Let_def case_prod_unfold)
  moreover have r: "uncoded c2 \<and> t_sched c2 = t_sched c \<and> t_byWAN c2 = t_byWAN c \<and> map w_q (t_wans c2) = map w_q (t_wans c1)"
    using link_recv [OF h(2) assms(5) c1(3) w1] c1 by simp
  moreover have "client_run link_env c [SendHandshake 0, Receive 0 b' now'] = Some (c2, out)" using h by simp
  moreover have "\<forall>v\<in>set (t_wans c2). roomy v n" using r w1 calculation(1) by (auto simp: roomy_def map_eq_Cons_conv)
  ultimately show ?thesis by blast
qed

text \<open>The server knows where the session was heard last, so its replies have somewhere to go.\<close>

lemma registered: "\<exists>st. map_of (v_states (registerPath s sid ua p now)) sid = Some st \<and> st_lastSeen st = Some ua"
  by (auto simp: registerPath_def Let_def case_prod_unfold put_state_def update_conv' upd_sess_def declare_capacity_def split: option.split)

lemma first_heard:
  assumes "handleClientFrame E s b (Some ua) now k d = Some (s', [ToClient u b'])" "DecodeHeader b = Inr hdr" "HasFlag hdr FlagFirst"
  shows "\<exists>st. map_of (v_states s') (fSessionID hdr) = Some st \<and> st_lastSeen st = Some ua"
proof -
  let ?sid = "fSessionID hdr"
  have a: "v_states (fst (sendAck E s2 sid ua)) = v_states s2" for s2 sid
    by (auto simp: sendAck_def sendToAddrKey_def transmit_def server_noteSendErr_def next_server_seq_def upd_sess_def Let_def split: option.split sum.split prod.split)
  obtain plain f where o: "Open (v_baseAEAD s) DirClientToServer b = Inr plain" "Decode plain = Inr f"
    using assms by (auto simp: handleClientFrame_def handleFirst_def split: sum.splits)
  obtain s1 out ok where 1: "first_session E s ?sid (fSeq hdr) (fPayload f) now k d = Some (s1, out, ok)"
    using assms o by (auto simp: handleClientFrame_def handleFirst_def Let_def split: option.splits)
  then have out: "\<forall>x\<in>set out. \<exists>n. x = CloseSocket n"
    by (auto simp: first_session_def establish_def Let_def split: option.splits if_splits sum.splits prod.splits)
  obtain s2 ok2 where 2: "check_replay s1 ?sid (fSeq hdr) = (s2, ok2)" by fastforce
  have "ok" using assms o 1 out by (cases ok) (auto simp: handleClientFrame_def handleFirst_def)
  moreover have "ok2" using assms o 1 2 out \<open>ok\<close> by (cases ok2) (auto simp: handleClientFrame_def handleFirst_def)
  ultimately have "s' = fst (sendAck E (registerPath (upd_sess s2 ?sid (\<lambda>sess. Touch sess now)) ?sid ua (fPayload f) now) ?sid ua)"
    using assms o 1 2 by (auto simp: handleClientFrame_def handleFirst_def Let_def case_prod_unfold)
  then show ?thesis using a registered by simp
qed

lemma sends_to:
  assumes "\<not> CrossPath (v_fecParams s)" "length p \<le> MaxPayload"
  shows "\<exists>s' b. send_one E s sid a (Some ua) (zero_frame\<lparr>fFlags := FlagPassSeq, fSessionID := sid, fSeq := q, fPayload := p\<rparr>) = (s', [ToClient ua b])"
proof -
  let ?g = "zero_frame\<lparr>fFlags := FlagPassSeq, fSessionID := sid, fSeq := q, fPayload := p\<rparr>"
  have f: "\<not> HasFlag ?g FlagFECParity" by (simp add: HasFlag_def FlagPassSeq_def FlagFECParity_def)
  obtain s1 g where st: "stamp_path s sid ua ?g = (s1, g)" by fastforce
  then have "fPayload g = p" by (auto simp: stamp_path_def split: if_splits option.splits prod.splits)
  then have "Encode g = Inr (header_bytes g @ p)" using Encode_ok [of g] assms(2) by simp
  moreover obtain b where "Seal a DirServerToClient (header_bytes g @ p) = Inr b" using Seal_ok by fastforce
  ultimately show ?thesis using assms(1) f st by (simp add: send_one_def sendToAddr_def transmit_def)
qed

lemma egress_sends:
  assumes "Get (v_mgr s) sid = Some x" "s_Enc x = Some enc" "\<not> Enabled (e_params enc)" "\<not> CrossPath (v_fecParams s)" "length p \<le> MaxPayload"
    and "int (length p) \<le> cf_MTU (v_cfg s)" "map_of (v_states s) sid = Some st" "st_lastSeen st = Some ua"
  shows "\<exists>s' u b. egress_step E s sid p now draw = (s', [ToClient u b])"
proof -
  obtain s1 q where n: "next_server_seq s sid = (s1, q)" by fastforce
  then have s1: "v_fecParams s1 = v_fecParams s" "v_states s1 = v_states s" using assms(1) by (auto simp: next_server_seq_def Server_NextSeq_def upd_sess_def)
  let ?s2 = "upd_sess s1 sid (\<lambda>sess. sess\<lparr>s_Enc := Some enc\<rparr>)"
  have m: "markPassSeq [zero_frame\<lparr>fSessionID := sid, fSeq := q, fPayload := p\<rparr>] = [zero_frame\<lparr>fFlags := FlagPassSeq, fSessionID := sid, fSeq := q, fPayload := p\<rparr>]"
    by (simp add: markPassSeq_def zero_frame_def)
  have s2: "v_fecParams ?s2 = v_fecParams s" "map_of (v_states ?s2) sid = Some st" using s1 assms(7) by (simp_all add: upd_sess_def)
  obtain s3 u where pk: "pickPath ?s2 sid draw = (s3, Some u)" "v_fecParams s3 = v_fecParams s"
    using s2 assms(8) by (cases "Option.bind (snd (Pick (st_sched st) zero_frame draw)) (map_of (st_paths st))")
      (auto simp: pickPath_def stateFor_def put_state_def Let_def case_prod_unfold)
  obtain s4 b where "send_one E s3 sid (s_aead x) (Some u) (zero_frame\<lparr>fFlags := FlagPassSeq, fSessionID := sid, fSeq := q, fPayload := p\<rparr>) = (s4, [ToClient u b])"
    using sends_to [OF _ assms(5), of s3 E sid "s_aead x" u q] pk(2) assms(4) by auto
  then show ?thesis using assms(1-4,6) n pk s2 by (simp add: egress_step_def Encoder_Push_def sendToSession_def m)
qed

lemma met_server:
  assumes "can_meet Ec Es c kc s ks" "handshake Ec Es c i s ua ks sock now now' = Some (c2, s1)"
  shows "v_cfg s1 = v_cfg s \<and> (\<exists>st. map_of (v_states s1) (c_ID (t_sess c)) = Some st \<and> st_lastSeen st = Some ua)"
proof -
  obtain c1 out b u b' where h: "handshake_send Ec c i = (c1, out)" "sent_frames Ec out = [b]"
      "handleClientFrame Es s b (Some ua) now (Some ks) (Some sock) = Some (s1, [ToClient u b'])"
    using assms(2) by (auto simp: handshake_def split: prod.splits list.splits option.splits server_out.splits)
  have k: "server_inv s" "aead_ok (v_baseAEAD s)" "t_baseAEAD c = v_baseAEAD s" "t_clientPub c = x_pub (ev_x Es) kc" using meeting_keys [OF assms(1)] by blast+
  have "length (t_clientPub c) = 32" using assms(1) k(4) by (simp add: can_meet_def linked_def x25519_ok_def)
  then obtain f where f: "Seal (v_baseAEAD s) DirClientToServer (header_bytes f @ fPayload f) = Inr b" "HasFlag f FlagFirst" "fSessionID f = c_ID (t_sess c)" "length (fPayload f) = 36"
    using first_sent [OF h(1) sent_is [OF h(1,2)]] k(3) by auto
  then have "DecodeHeader b = Inr (f\<lparr>fVersion := Version, fPayload := []\<rparr>)" using sealed_opens(3) [OF k(2) _ f(1)] by (simp add: MaxPayload_def)
  then show ?thesis using first_heard [OF h(3)] f(2,3) handle_good [OF k(1) h(3)] by (auto simp: good_def HasFlag_def)
qed

end
