(* ===== verification/Startup.thy ===== *)
theory Startup
  imports Tunnel_Server
begin

text \<open>
  Starting and stopping both ends: \<open>Client.Start\<close>, \<open>Server.Start\<close> and the part of both \<open>Run\<close>
  functions that closes what is open. What the kernel, the resolver and the random generator
  answer is the record \<open>kernel\<close>, per transport where it may differ from one to the next.
\<close>

record kernel =
  kn_setdev :: dev_bind
  kn_connect :: "conn \<Rightarrow> udp_addr \<Rightarrow> sock_error option"
  kn_parseIP :: "string \<Rightarrow> bytes option"
  kn_resolve :: "string \<Rightarrow> udp_addr option"
  kn_listen :: "udp_addr \<Rightarrow> bool"
  kn_probe :: "bytes \<Rightarrow> bytes option"
  kn_sock :: "string \<Rightarrow> int option"
  kn_port :: "string \<Rightarrow> u32"
  kn_seq :: "string \<Rightarrow> u32"

datatype start_error = AddressFailed string | ListenFailed string | OpenUDP string udp_error | OpenRaw string transport_error

section \<open>The transport interface\<close>

fun transport_Open :: "kernel \<Rightarrow> transport \<Rightarrow> transport \<times> start_error option" where
  "transport_Open K (TUDP u) =
     (let (u', e) = UDP_Open (kn_setdev K) (kn_connect K) (kn_parseIP K) (kn_resolve K) (kn_listen K) u in (TUDP u', map_option (OpenUDP (ud_id u)) e))"
| "transport_Open K (TFakeTCP f) =
     (let (f', e) = FakeTCP_Open (kn_resolve K) (kn_probe K) (kn_sock K (ft_id f)) (kn_port K (ft_id f)) (kn_seq K (ft_id f)) f
      in (TFakeTCP f', map_option (OpenRaw (ft_id f)) e))"
| "transport_Open K (TICMP i) =
     (let (i', e) = ICMP_Open (kn_resolve K) (kn_sock K (ic_id i)) (kn_port K (ic_id i)) i in (TICMP i', map_option (OpenRaw (ic_id i)) e))"

text \<open>Closing a UDP socket leaves the field \<open>conn\<close> as it is; the raw transports forget their socket.\<close>

fun transport_Close :: "transport \<Rightarrow> transport" where
  "transport_Close (TUDP u) = TUDP u"
| "transport_Close (TFakeTCP f) = TFakeTCP (FakeTCP_Close f)"
| "transport_Close (TICMP i) = TICMP (ICMP_Close i)"

definition resolveUDPAddr :: "kernel \<Rightarrow> string \<Rightarrow> start_error + udp_addr" where
  "resolveUDPAddr K a = (case kn_resolve K a of None \<Rightarrow> Inl (AddressFailed a) | Some x \<Rightarrow> Inr x)"

section \<open>Starting\<close>

definition close_wans :: "TClient \<Rightarrow> TClient" where
  "close_wans c = c\<lparr>t_wans := map (\<lambda>w. w\<lparr>w_tr := transport_Close (w_tr w)\<rparr>) (t_wans c)\<rparr>"

fun open_wans :: "kernel \<Rightarrow> nat list \<Rightarrow> TClient \<Rightarrow> TClient \<times> start_error option" where
  "open_wans K [] c = (c, None)"
| "open_wans K (i # is) c =
     (let (tr, err) = transport_Open K (w_tr (t_wans c ! i)); c = upd_wan c i (\<lambda>w. w\<lparr>w_tr := tr\<rparr>)
      in case err of Some e \<Rightarrow> (close_wans c, Some e) | None \<Rightarrow> open_wans K is c)"

text \<open>The result has the ingress socket's address when it is open.\<close>

definition Client_Start :: "kernel \<Rightarrow> TClient \<Rightarrow> TClient \<times> (start_error + udp_addr)" where
  "Client_Start K c =
     (case resolveUDPAddr K (cf_Listen (t_cfg c)) of
        Inl e \<Rightarrow> (c, Inl e)
      | Inr ingressAddr \<Rightarrow>
          if \<not> kn_listen K ingressAddr then (c, Inl (ListenFailed (cf_Listen (t_cfg c))))
          else (case open_wans K [0..<length (t_wans c)] c of (c, Some e) \<Rightarrow> (c, Inl e) | (c, None) \<Rightarrow> (c, Inr ingressAddr)))"

text \<open>The result is the address of the WireGuard peer, which the egress sockets are dialled to.\<close>

definition Server_Start :: "kernel \<Rightarrow> Server \<Rightarrow> Server \<times> (start_error + udp_addr)" where
  "Server_Start K s =
     (case transport_Open K (v_wanTr s) of
        (tr, Some e) \<Rightarrow> (s\<lparr>v_wanTr := tr\<rparr>, Inl e)
      | (tr, None) \<Rightarrow>
          (case resolveUDPAddr K (cf_WGPeer (v_cfg s)) of
             Inl e \<Rightarrow> (s\<lparr>v_wanTr := transport_Close tr\<rparr>, Inl e)
           | Inr egressAddr \<Rightarrow> (s\<lparr>v_wanTr := tr\<rparr>, Inr egressAddr)))"

section \<open>Stopping\<close>

text \<open>What the deferred calls of \<open>Run\<close> leave when the context ends.\<close>

definition Client_stop :: "TClient \<Rightarrow> TClient" where
  "Client_stop c = close_wans c"

definition Server_stop :: "Server \<Rightarrow> Server \<times> server_out list" where
  "Server_stop s = (let (m, socks) = CloseAll (v_mgr s) in (s\<lparr>v_mgr := m, v_wanTr := transport_Close (v_wanTr s)\<rparr>, map CloseSocket socks))"

section \<open>All or nothing\<close>

fun raw_closed :: "transport \<Rightarrow> bool" where
  "raw_closed (TUDP u) \<longleftrightarrow> True"
| "raw_closed (TFakeTCP f) \<longleftrightarrow> ft_fd f < 0"
| "raw_closed (TICMP i) \<longleftrightarrow> ic_fd i < 0"

lemma raw_closed_Close: "raw_closed (transport_Close tr)"
  by (cases tr) (simp_all add: FakeTCP_Close_def ICMP_Close_def)

lemma close_wans_closed: "\<forall>w\<in>set (t_wans (close_wans c)). raw_closed (w_tr w)"
  by (simp add: close_wans_def raw_closed_Close)

lemma open_wans_None:
  "open_wans K is c = (c', None) \<Longrightarrow> distinct is \<Longrightarrow> \<forall>i\<in>set is. i < length (t_wans c) \<Longrightarrow>
     length (t_wans c') = length (t_wans c) \<and>
     (\<forall>i<length (t_wans c). if i \<in> set is then transport_Open K (w_tr (t_wans c ! i)) = (w_tr (t_wans c' ! i), None) else t_wans c' ! i = t_wans c ! i)"
proof (induction K "is" c rule: open_wans.induct)
  case (2 K i "is" c)
  obtain tr where tr: "transport_Open K (w_tr (t_wans c ! i)) = (tr, None)" using 2(2) by (auto simp: Let_def split: prod.splits option.splits)
  let ?c = "upd_wan c i (\<lambda>w. w\<lparr>w_tr := tr\<rparr>)"
  have "open_wans K is ?c = (c', None)" using 2(2) tr by simp
  moreover have "\<forall>j\<in>set is. j < length (t_wans ?c)" using 2(4) by (simp add: upd_wan_def)
  ultimately have "length (t_wans c') = length (t_wans ?c) \<and>
     (\<forall>j<length (t_wans ?c). if j \<in> set is then transport_Open K (w_tr (t_wans ?c ! j)) = (w_tr (t_wans c' ! j), None) else t_wans c' ! j = t_wans ?c ! j)"
    using 2(1) [OF tr [symmetric] refl refl] 2(3) by simp
  then show ?case using 2(3) tr by (auto simp: upd_wan_def nth_list_update split: if_splits) (metis nth_list_update_neq)
qed simp

lemma open_wans_Some: "open_wans K is c = (c', Some e) \<Longrightarrow> \<forall>w\<in>set (t_wans c'). raw_closed (w_tr w)"
  by (induction K "is" c rule: open_wans.induct) (auto simp: close_wans_closed Let_def split: prod.splits option.splits)

text \<open>
  A start that succeeds has opened the transport of every uplink; one that fails once the ingress
  socket is there leaves no raw socket open.
\<close>

theorem client_start_all_or_nothing:
  "(\<forall>c' a. Client_Start K c = (c', Inr a) \<longrightarrow>
      (\<forall>i<length (t_wans c). transport_Open K (w_tr (t_wans c ! i)) = (w_tr (t_wans c' ! i), None))) \<and>
   (\<forall>c' e a. Client_Start K c = (c', Inl e) \<longrightarrow> kn_resolve K (cf_Listen (t_cfg c)) = Some a \<longrightarrow> kn_listen K a \<longrightarrow>
      (\<forall>w\<in>set (t_wans c'). raw_closed (w_tr w)))"
proof (intro conjI allI impI)
  fix c' a i
  assume "Client_Start K c = (c', Inr a)" "i < length (t_wans c)"
  then have "open_wans K [0..<length (t_wans c)] c = (c', None)" by (auto simp: Client_Start_def resolveUDPAddr_def split: option.splits if_splits prod.splits)
  then show "transport_Open K (w_tr (t_wans c ! i)) = (w_tr (t_wans c' ! i), None)"
    using open_wans_None [of K "[0..<length (t_wans c)]" c c'] \<open>i < length (t_wans c)\<close> by simp
next
  fix c' e a
  assume "Client_Start K c = (c', Inl e)" "kn_resolve K (cf_Listen (t_cfg c)) = Some a" "kn_listen K a"
  then have "open_wans K [0..<length (t_wans c)] c = (c', Some e)" by (auto simp: Client_Start_def resolveUDPAddr_def split: option.splits prod.splits)
  then show "\<forall>w\<in>set (t_wans c'). raw_closed (w_tr w)" by (rule open_wans_Some)
qed

lemma server_stop_closes: "raw_closed (v_wanTr (fst (Server_stop s))) \<and> Count (v_mgr (fst (Server_stop s))) = 0"
  by (simp add: Server_stop_def CloseAll_def raw_closed_Close Count_def)

end
