(* ===== verification/Spec2Isabelle.thy ===== *)
theory Spec2Isabelle
  imports End_To_End Startup Crypto Replay Scheduler Fec_Decoder Delivery Wan_Queue Session Config Tunnel_Params
begin

text \<open>
  \<^bold>\<open>FlexBraid.\<close> A verification library for the tunnel of this repository, which carries WireGuard
  datagrams over several uplinks at once. A client (\<open>internal/tunnel/tunnel.go\<close>) reads a datagram
  from WireGuard, numbers it, codes it with forward error correction, seals it and sends it over
  an uplink that the scheduler picks. A server (\<open>internal/tunnel/server.go\<close>) authenticates it,
  drops replays, repairs losses and writes it to a socket that belongs to the session; replies
  come back the same way and are put in order by the client. Health monitors watch every path.

  \<^bold>\<open>The theories.\<close> Each models one part of \<open>src/\<close>, with the names of the source:

  \<^item> \<open>FB_Prelude\<close>: byte buffers, \<open>encoding/binary\<close>, serial numbers, and the locale \<open>stateful\<close>: a step
    function that keeps an invariant keeps it in every run. \<open>Float64\<close>: Go's \<open>float64\<close> with its
    rounding and special values. \<open>Net_Addr\<close>: addresses and their printed form.
  \<^item> \<open>Frame\<close> (\<open>frame.go\<close>): header and codec, inverse to each other, every error.
  \<^item> \<open>Crypto\<close> (\<open>crypto.go\<close>, \<open>pfs.go\<close>): HKDF against RFC 5869, nonces, \<open>Seal\<close> and \<open>Open\<close>, key
    agreement. \<open>Replay\<close>: the bitmap window against the set of numbers seen; the locale
    \<open>anti_replay\<close> is what sessions need of it.
  \<^item> \<open>Health\<close> (\<open>health.go\<close>): the monitor and its circuit breaker; bounds, hysteresis over whole runs,
    recovery.
  \<^item> \<open>Scheduler\<close> (\<open>scheduler.go\<close>): standby, weighted, hash-ring and round-robin choice; only usable
    paths, stable flows, fairness.
  \<^item> \<open>Fec_Encoder\<close>, \<open>Fec_Decoder\<close> (\<open>fec.go\<close>): blocks, adaptive redundancy, repair, loss accounting;
    any \<open>k\<close> frames of a block with a parity frame among them give back its data, once.
  \<^item> \<open>Delivery\<close> (\<open>delivery.go\<close>), \<open>Wan_Queue\<close> (\<open>wanqueue.go\<close>), \<open>Session\<close> (\<open>session.go\<close>), \<open>Config\<close>
    (\<open>config.go\<close>): the reordering buffer, the bounded paced queue with its exact drop policy, the
    session tables with the handshake windows and their expiry, and the configuration with
    \<open>Validate\<close>.
  \<^item> \<open>Fake_Tcp\<close>, \<open>Icmp\<close>, \<open>Udp\<close> (\<open>internal/transport\<close>): packet formats, checksums, the queue of echo
    replies, and how a socket is pinned to an uplink on each platform.
  \<^item> \<open>Tunnel_Params\<close>: the parameters that the tunnel derives from the configuration.
    \<open>Tunnel_Client\<close> and \<open>Tunnel_Server\<close>: both ends with one definition per handler, \<open>reload.go\<close> and
    \<open>stats.go\<close>. \<open>Startup\<close>: \<open>Start\<close> and what \<open>Run\<close> closes.
  \<^item> \<open>Client_Runs\<close>, \<open>Server_Runs\<close>: runs of either end as sequences of events. The client never reuses
    a nonce; the server does nothing for unauthenticated datagrams, takes none twice, and its
    tables are bounded.
  \<^item> \<open>End_To_End\<close> and this theory: both ends against each other. \<open>sealed_frames\<close> are the frames a client
    sealed, which the nonces are about; \<open>sent_frames\<close> are those that its queues or transports took,
    which the other end can receive.

  \<^bold>\<open>State and effects.\<close> A struct is a record and a method a function on it. A map is an association
  list; where the code ranges over a map, the order is an argument. A pointer that several places
  share (the codecs of a client) is an index into a store. Time is an integer of nanoseconds and
  every clock reading an argument, as are random bytes and draws. What a handler sends is a list
  of outputs. A run-time panic is \<open>None\<close>. Mutexes are left out: a handler is one step, and the
  interleavings of the goroutines are the sequences of steps of a run. Logging is left out.

  \<^bold>\<open>Bounds and termination.\<close> Words keep their width (\<open>u8\<close>, \<open>u16\<close>, \<open>u32\<close>, \<open>u64\<close>); counters that only
  feed telemetry are natural numbers. No loop has fuel: the loops that are not structural
  (\<open>drain_loop\<close>, \<open>drainPathPending\<close>, \<open>fold_carry\<close>, \<open>shift_loop\<close>) have termination proofs, and
  \<open>hkdf_loop\<close>, which has no bound of its own, is a partial function that is
  shown to return. The consumer of the send queue is a step function. The client's nonces are
  unique for \<open>2 ^ 32\<close> numbers, after which the counter of the source wraps.

  \<^bold>\<open>What is assumed.\<close> Libraries are arguments, with what they document as named hypotheses: \<open>hmac_ok\<close>
  (32 bytes), \<open>aead_ok\<close> (opens exactly what it sealed), \<open>x25519_ok\<close> (agreement), \<open>rs_ok\<close> (a
  Reed-Solomon code repairs any \<open>k\<close> of \<open>n\<close> shards), \<open>rs_bounded\<close> (at most 65536 shards). Every theorem
  with hypotheses has a witness that meets them with concrete functions.

  \<^bold>\<open>What does not hold.\<close> Some theorems show behaviour the code does not intend: the first reply after
  a handshake waits for the gap timeout (\<open>first_reply_waits\<close>), handshake acknowledgements of
  different sessions share a nonce (\<open>ack_nonce_repeats\<close>), the server never counts a keepalive as
  lost (\<open>keepalive_never_lost\<close>), the memory guard of the delivery buffer does not bound it
  (\<open>bdp_guard_unbounded\<close>), its timer is inherited (\<open>gap_timer_inherited\<close>), it strands a frame with
  number 0 after a wrap of the counter (\<open>delivery_skips_hole\<close>), the decoder does not deliver \<open>k\<close> data
  frames of a block before a parity frame or the timeout (\<open>block_recovery\<close>), a source address is ignored
  when the FIB key is absent (\<open>dialBound_linux\<close>), the timer is inherited too in the
  health monitor (\<open>degraded_timer_shared\<close>), flows are hashed without their source
  (\<open>flow_hash_ignores_source\<close>), an ICMP request with checksum 0 is lost (\<open>icmp_request_marker\<close>) and
  queued ICMP replies run together (\<open>icmp_pull_reply\<close>).

  \<^bold>\<open>Not modelled.\<close> \<open>cmd/flexbraid/main.go\<close>: flags, signals, logging and the HTTP endpoint. The system
  calls of the raw sockets and \<open>faketcp_other.go\<close>: their results are arguments. YAML and JSON text:
  a document is the decoded record. The wall-clock string in the snapshots. Data races: the
  model has no finer steps than the handlers, which hold the locks of the source.
\<close>

section \<open>Client and server together\<close>

text \<open>
  C1: The handshake agrees. A new client and a server in any state it can reach, whose documents have
  the same crypto section, exchange one handshake over an uplink whose queue or transport takes a
  frame of the size of the first one. Afterwards both hold the same session cipher, the server
  knows the session by the client's identifier, with a socket of its own and a new encoder for its
  parameters, and the client has the server's MTU and has rebuilt its codecs from the server's
  redundancy settings: the encoder and the decoder of every uplink are new ones for the parameters
  that these settings give for that uplink, or one common pair in cross-path mode.
\<close>

theorem handshake_agreement:
  assumes "can_meet Ec Es c kc s ks" "i < length (t_wans c)" "takes Ec (t_wans c ! i) (HeaderSize + 4 + PublicKeySize + aead_Overhead (t_baseAEAD c))"
  shows "\<exists>c2 s' a x enc. handshake Ec Es c i s ua ks sock now now' = Some (c2, s') \<and> getSessionAEAD c2 = (Some a, True) \<and>
    Get (v_mgr s') (c_ID (t_sess c2)) = Some x \<and> s_aead x = a \<and> s_egress x = Some sock \<and>
    NewEncoder (ev_rs Es) (v_fecParams s) = Inr enc \<and> s_Enc x = Some enc \<and>
    t_mtu c2 = cf_MTU (v_cfg s) \<and> t_adoptedFEC c2 = Some (cf_FEC (v_cfg s)) \<and>
    adopted_codecs (ev_rs Ec) (cf_FEC (v_cfg s)) (cf_MTU (v_cfg s)) c2"
  using meeting [OF assms(1,2) meet_taken [OF assms], of ua sock now now'] by metis

theorem handshake_agreement_witness:
  "\<exists>c s c2 s' a x. NewTunnelClient link_env plain_doc (Some (make_bytes 8)) (Some (make_bytes 32)) 0 = Some (Inr c) \<and>
     NewServer demo_senv server_doc 0 = Some (Inr s) \<and> handshake link_env demo_senv c 0 s demo_addr (make_bytes 32) 3 5 6 = Some (c2, s') \<and>
     getSessionAEAD c2 = (Some a, True) \<and> Get (v_mgr s') (c_ID (t_sess c2)) = Some x \<and> s_aead x = a \<and>
     adopted_codecs (ev_rs link_env) plain_fec 1420 c2"
proof -
  obtain c w where c: "NewTunnelClient link_env plain_doc (Some (make_bytes 8)) (Some (make_bytes 32)) 0 = Some (Inr c)" "t_wans c = [w]" "roomy w 262144" using link_client by blast
  obtain s where s: "NewServer demo_senv server_doc 0 = Some (Inr s)" "v_mgr s = NewManager" "v_ann s = [1]" "cf_MTU (v_cfg s) = 1420" "cf_FEC (v_cfg s) = plain_fec"
    using link_server by blast
  have t: "0 < length (t_wans c)" "takes link_env (t_wans c ! 0) (HeaderSize + 4 + PublicKeySize + aead_Overhead (t_baseAEAD c))"
    using c(2) link_takes [OF c] by simp_all
  then show ?thesis using handshake_agreement [OF link_meet [OF c(1) s], of 0 demo_addr 3 5 6] c(1) s(1,4,5) by metis
qed

text \<open>
  C2: A datagram arrives. In any state a client can reach in which it has a session and an uplink to
  send on, its encoders are off and the queues or transports of its uplinks take a frame of that
  size, a datagram that fits the MTU leaves as exactly one frame; a server that holds the session
  with the same cipher and has not seen the number hands exactly the datagram to the session's
  socket.
\<close>

theorem datagram_delivered:
  assumes "rs_bounded (ev_rs Ec)" "NewTunnelClient Ec cfg idr kr t = Some (Inr c0)" "client_run Ec c0 evs = Some (c, out0)"
    and "getSessionAEAD c = (Some a, True)" "aead_ok a" "uncoded c" "routable c"
    and "p \<noteq> []" "int (length p) \<le> t_mtu c" "length p \<le> MaxPayload"
    and "\<forall>w\<in>set (t_wans c). takes Ec w (HeaderSize + length p + aead_Overhead a)"
    and "Get (v_mgr s) (c_ID (t_sess c)) = Some x" "s_aead x = a" "s_egress x = Some sock" "snd (Server_CheckReplay x (c_seq (t_sess c) + 1))"
  shows "\<exists>c' out b s'. ingress Ec c peer p now draw = Some (c', out) \<and> sent_frames Ec out = [b] \<and>
    handleClientFrame Es s b (Some ua) now' k d = Some (s', [ToPeer sock p])"
proof -
  have "client_ok c" using client_run_acct [OF _ assms(1,3)] NewTunnelClient_fresh [OF assms(1,2)] by (simp add: client_fresh_def)
  then obtain c' out b n where "ingress Ec c peer p now draw = Some (c', out)" "sent_frames Ec out = [b]"
      "Seal a DirClientToServer (header_bytes (pass_frame (c_ID (t_sess c)) (c_seq (t_sess c) + 1) n p) @ p) = Inr b"
    using ingress_pass [OF _ assms(6,7,4,9,10,5,11)] by blast
  then show ?thesis using data_forwarded [OF assms(5) _ assms(10,8,12-15)] by blast
qed

theorem datagram_delivered_witness:
  "\<exists>c s evs c2 out0 s1 c3 out b s2. NewTunnelClient link_env plain_doc (Some (make_bytes 8)) (Some (make_bytes 32)) 0 = Some (Inr c) \<and>
     NewServer demo_senv server_doc 0 = Some (Inr s) \<and> client_run link_env c evs = Some (c2, out0) \<and>
     handshake link_env demo_senv c 0 s demo_addr (make_bytes 32) 3 5 6 = Some (c2, s1) \<and>
     ingress link_env c2 demo_addr [1, 2, 3] 7 (Fin 0) = Some (c3, out) \<and> sent_frames link_env out = [b] \<and>
     handleClientFrame demo_senv s1 b (Some demo_addr) 8 None None = Some (s2, [ToPeer 3 [1, 2, 3]])"
proof -
  obtain c w opts cap where c: "NewTunnelClient link_env plain_doc (Some (make_bytes 8)) (Some (make_bytes 32)) 0 = Some (Inr c)" "t_wans c = [w]" "roomy w 262144"
      "t_byWAN c = [(''wan1'', 0)]" "t_sched c = AddPath (New_Scheduler opts) ''wan1'' cap" using link_client by blast
  obtain s where s: "NewServer demo_senv server_doc 0 = Some (Inr s)" "v_mgr s = NewManager" "v_ann s = [1]" "cf_MTU (v_cfg s) = 1420" "cf_FEC (v_cfg s) = plain_fec"
    using link_server by blast
  have m: "can_meet link_env demo_senv c (make_bytes 32) s (make_bytes 32)" and l: "0 < length (t_wans c)" using link_meet [OF c(1) s] c(2) by simp_all
  obtain c2 s1 a x where h: "handshake link_env demo_senv c 0 s demo_addr (make_bytes 32) 3 5 6 = Some (c2, s1)" "getSessionAEAD c2 = (Some a, True)" "aead_ok a"
      "Get (v_mgr s1) (c_ID (t_sess c)) = Some x" "s_aead x = a" "s_egress x = Some 3" "t_mtu c2 = cf_MTU (v_cfg s)" "c_ID (t_sess c2) = c_ID (t_sess c)"
      "snd (Server_CheckReplay x (c_seq (t_sess c2) + 1))" "\<exists>key. NewAEAD (ev_chacha demo_senv) (ev_gcm demo_senv) key (cc_Cipher (cf_Crypto (v_cfg s))) = Inr a"
    using meeting [OF m l meet_taken [OF m l link_takes [OF c(1-3)]], of demo_addr 3 5 6] by blast
  obtain evs out0 where r: "client_run link_env c evs = Some (c2, out0)" "uncoded c2" "t_sched c2 = t_sched c" "t_byWAN c2 = t_byWAN c"
      "\<forall>v\<in>set (t_wans c2). roomy v 262144"
    using link_run [OF c(2,3) _ h(1)] h(2) meeting_keys [OF m] by (auto simp: getSessionAEAD_def)
  have "sched_inv (t_sched c2)" using r(3) c(5) sched_inv_AddPath [OF sched_inv_New] by simp
  moreover have "\<exists>q. usableLocked (t_sched c2) = [q] \<and> p_id q = ''wan1''"
    using r(3) c(5) by (simp add: usableLocked_def AddPath_def New_Scheduler_def Let_def)
  ultimately have "routable c2" using r(4) c(4) by (auto simp: routable_def)
  moreover have "\<forall>v\<in>set (t_wans c2). takes link_env v (HeaderSize + length ([1, 2, 3] :: bytes) + aead_Overhead a)"
    using r(5) link_overhead h(10) by (auto simp: HeaderSize_def intro!: roomy_takes [where n = 262144])
  moreover have "rs_bounded (ev_rs link_env)" by (simp add: rs_bounded_def link_env_def demo_env_def)
  ultimately have "\<exists>c' out b s'. ingress link_env c2 demo_addr [1, 2, 3] 7 (Fin 0) = Some (c', out) \<and> sent_frames link_env out = [b] \<and>
      handleClientFrame demo_senv s1 b (Some demo_addr) 8 None None = Some (s', [ToPeer 3 [1, 2, 3]])"
    using datagram_delivered [OF _ c(1) r(1) h(2,3) r(2), of "[1, 2, 3]" s1 x 3 demo_addr 7 "Fin 0" demo_senv demo_addr 8 None None] h s(4) by (simp add: MaxPayload_def)
  then show ?thesis using c(1) s(1) r(1) h(1) by blast
qed

text \<open>
  C38: The first reply waits. After every handshake without redundancy, the first datagram that the
  server's peer sends reaches the client and stays in its delivery buffer until the gap timeout
  has passed: the server numbered it 2, since the acknowledgement of the handshake took number 1,
  and the buffer, which never sees acknowledgements, waits for 1.
\<close>

theorem first_reply_waits:
  assumes "can_meet Ec Es c kc s ks" "i < length (t_wans c)" "handshake Ec Es c i s ua ks sock now now' = Some (c2, s1)"
    and "\<not> Enabled (v_fecParams s)" "\<not> CrossPath (v_fecParams s)"
    and "p \<noteq> []" "length p \<le> MaxPayload" "egress_step Es s1 (c_ID (t_sess c2)) p t draw = (s2, [ToClient u b])"
  shows "\<exists>c3 f. client_recv Ec c2 i b t' = Some (c3, []) \<and> db_pending (t_delivery c3) = [(2, f)] \<and> fPayload f = p \<and>
    (t'' - t' < db_gapTimeout (t_delivery c3) \<longrightarrow> delivery_Tick rng (t_delivery c3) t'' = (t_delivery c3, []))"
proof -
  obtain a x enc g m where h: "getSessionAEAD c2 = (Some a, True)" "aead_ok a" "Get (v_mgr s1) (c_ID (t_sess c)) = Some x" "s_aead x = a" "s_seq x = 1"
      "NewEncoder (ev_rs Es) (v_fecParams s) = Inr enc" "s_Enc x = Some enc" "c_ID (t_sess c2) = c_ID (t_sess c)"
      "c_replay (t_sess c2) = NewReplayWindow DefaultReplayWindow" "t_delivery c2 = newDeliveryBuffer g m" "v_fecParams s1 = v_fecParams s"
      "length (t_wans c2) = length (t_wans c)" "w_dec (t_wans c2 ! i) \<noteq> None"
    using meeting [OF assms(1,2) met_sent [OF assms(3)], of ua sock now now'] assms(3) by auto
  have il: "i < length (t_wans c2)" using h(12) assms(2) by simp
  have "\<not> Enabled (e_params enc)" using h(6) assms(4) by (auto simp: NewEncoder_def Let_def fill_params_def Enabled_def split: if_splits)
  then obtain n where "Seal a DirServerToClient (header_bytes (pass_frame (c_ID (t_sess c2)) 2 n p) @ p) = Inr b"
    using egress_pass [OF _ h(7) _ _ assms(7,8)] h assms(5) by auto
  then obtain c3 f where r: "client_recv Ec c2 i b t' = Some (c3, deliverToWG c2 (snd (delivery_Push (ev_rng Ec) (t_delivery c2) [f] t')))"
      "t_delivery c3 = fst (delivery_Push (ev_rng Ec) (t_delivery c2) [f] t')" "fSeq f = 2" "fPayload f = p"
    using reply_taken [OF h(2) _ assms(7,6) h(1) new_window [OF h(9)] _ h(13)] il by blast
  note w = first_waits [OF r(3), of "ev_rng Ec" g m t', folded h(10)]
  show ?thesis using r w by (intro exI [of _ c3] exI [of _ f]) (simp add: deliverToWG_def delivery_Tick_def split: option.split)
qed

theorem first_reply_waits_witness:
  "\<exists>c s c2 s1 s2 u b c3 f. NewTunnelClient link_env plain_doc (Some (make_bytes 8)) (Some (make_bytes 32)) 0 = Some (Inr c) \<and>
     NewServer demo_senv server_doc 0 = Some (Inr s) \<and> handshake link_env demo_senv c 0 s demo_addr (make_bytes 32) 3 5 6 = Some (c2, s1) \<and>
     egress_step demo_senv s1 (c_ID (t_sess c2)) [9] 7 (Fin 0) = (s2, [ToClient u b]) \<and>
     client_recv link_env c2 0 b 8 = Some (c3, []) \<and> db_pending (t_delivery c3) = [(2, f)] \<and> fPayload f = [9]"
proof -
  obtain c w where c: "NewTunnelClient link_env plain_doc (Some (make_bytes 8)) (Some (make_bytes 32)) 0 = Some (Inr c)" "t_wans c = [w]" "roomy w 262144" using link_client by blast
  obtain s where s: "NewServer demo_senv server_doc 0 = Some (Inr s)" "v_mgr s = NewManager" "v_ann s = [1]" "cf_MTU (v_cfg s) = 1420" "cf_FEC (v_cfg s) = plain_fec"
      "v_fecParams s = no_params" using link_server by blast
  have m: "can_meet link_env demo_senv c (make_bytes 32) s (make_bytes 32)" using link_meet [OF c(1) s(1-5)] .
  have l: "0 < length (t_wans c)" using c(2) by simp
  obtain c2 s1 x enc where h: "handshake link_env demo_senv c 0 s demo_addr (make_bytes 32) 3 5 6 = Some (c2, s1)" "Get (v_mgr s1) (c_ID (t_sess c)) = Some x"
      "NewEncoder (ev_rs demo_senv) (v_fecParams s) = Inr enc" "s_Enc x = Some enc" "c_ID (t_sess c2) = c_ID (t_sess c)" "v_fecParams s1 = v_fecParams s"
    using meeting [OF m l meet_taken [OF m l link_takes [OF c]], of demo_addr 3 5 6] by blast
  obtain st where st: "v_cfg s1 = v_cfg s" "map_of (v_states s1) (c_ID (t_sess c)) = Some st" "st_lastSeen st = Some demo_addr" using met_server [OF m h(1)] by blast
  have off: "\<not> Enabled (v_fecParams s)" "\<not> CrossPath (v_fecParams s)" "\<not> Enabled (e_params enc)"
    using s(6) h(3) by (auto simp: no_params_def Enabled_def NewEncoder_def fill_params_def Let_def)
  obtain s2 u b where e: "egress_step demo_senv s1 (c_ID (t_sess c2)) [9] 7 (Fin 0) = (s2, [ToClient u b])"
    using egress_sends [OF h(2,4) off(3) _ _ _ st(2,3), of "[9]" demo_senv 7 "Fin 0"] h(5,6) off(2) st(1) s(4) by (auto simp: MaxPayload_def)
  have "\<exists>c3 f. client_recv link_env c2 0 b 8 = Some (c3, []) \<and> db_pending (t_delivery c3) = [(2, f)] \<and> fPayload f = [9]"
    using first_reply_waits [OF m l h(1) off(1,2) _ _ e, where t' = 8 and t'' = 9 and rng = id] by (auto simp: MaxPayload_def)
  then show ?thesis using c(1) s(1) h(1) e by blast
qed

end
